(* ===== verification/Prelude.thy ===== *)
theory Prelude
  imports Complex_Main "HOL-Library.Word" "HOL-Library.Code_Target_Numeral" "HOL-Library.List_Lexorder" "HOL-Library.Char_ord" "HOL-Library.AList"
begin

text \<open>
  Shared vocabulary of the development: the types every component uses (Go byte strings, header
  maps, 64-bit counters), the result type of a fallible Go call, the collections that carry the
  component proofs, generic lemmas on lists, maps and words, and two locales: \<open>step_system\<close>
  (a labelled transition system with an inductive invariant) and \<open>text_codec\<close> (an encoder with
  a left inverse).

  A Go string or \<open>[]byte\<close> is a list of bytes, hence HOL's \<open>string\<close>; a Go \<open>(T, error)\<close> pair
  is \<open>string + 'a\<close>, where \<open>Inl\<close> carries the error text.
\<close>

type_synonym bytes = string

type_synonym 'a result = "string + 'a"

type_synonym i64 = "64 word"

named_theorems wf_intros \<open>introduction rules for the well-formedness of results\<close>

named_theorems inv_simps \<open>unfoldings used by the invariant proofs\<close>

named_theorems go_eval \<open>definitions unfolded to evaluate the model on a concrete input\<close>

section \<open>Results\<close>

fun is_ok :: "'e + 'a \<Rightarrow> bool" where
  "is_ok (Inr _) = True"
| "is_ok (Inl _) = False"

lemma is_ok_iff: "is_ok r \<longleftrightarrow> (\<exists>x. r = Inr x)"
  by (cases r) auto

lemma not_is_ok_iff: "\<not> is_ok r \<longleftrightarrow> (\<exists>e. r = Inl e)"
  by (cases r) auto

section \<open>Lists\<close>

lemma takeWhile_dropWhile_length:
  "length (takeWhile P xs) + length (dropWhile P xs) = length xs"
  by (metis length_append takeWhile_dropWhile_id)

lemma dropWhile_idem_all [simp]: "dropWhile P (dropWhile P xs) = dropWhile P xs"
  by (induction xs) auto

lemma dropWhile_hd_not: "dropWhile P xs = y # ys \<Longrightarrow> \<not> P y"
  by (induction xs) (auto split: if_splits)

lemma length_dropWhile_le: "length (dropWhile P xs) \<le> length xs"
  by (induction xs) auto

lemma count_list_filter_le: "count_list (filter P xs) x \<le> count_list xs x"
  by (induction xs) auto

lemma sum_list_update_nat:
  "i < length xs \<Longrightarrow> sum_list (xs[i := y]) + xs ! i = sum_list xs + (y::nat)"
proof (induction xs arbitrary: i)
  case Nil
  then show ?case by simp
next
  case (Cons x xs)
  show ?case
  proof (cases i)
    case 0
    then show ?thesis by simp
  next
    case (Suc j)
    with Cons.prems have "sum_list (xs[j := y]) + xs ! j = sum_list xs + y"
      using Cons.IH by simp
    with Suc show ?thesis by simp
  qed
qed

lemma length_filter_update:
  assumes "i < length xs"
  shows "length (filter P (xs[i := y])) + (if P (xs ! i) then 1 else 0) =
         length (filter P xs) + (if P y then 1 else (0::nat))"
  using assms
proof (induction xs arbitrary: i)
  case Nil
  then show ?case by simp
next
  case (Cons x xs)
  show ?case
  proof (cases i)
    case 0
    then show ?thesis by simp
  next
    case (Suc j)
    with Cons.prems have "j < length xs" by simp
    from Cons.IH [OF this] Suc show ?thesis by simp
  qed
qed

lemma nth_upd: "i < length xs \<Longrightarrow> xs[k := x] ! i = (if i = k then x else xs ! i)"
  by (cases "i = k") simp_all

lemma mem8_cases:
  assumes "x \<in> set [a, b, c, d, e, f, g, h]"
  obtains "x = a" | "x = b" | "x = c" | "x = d" | "x = e" | "x = f" | "x = g" | "x = h"
  using assms by auto

section \<open>Maps as association lists\<close>

text \<open>
  A Go map whose keys the program enumerates is an association list with distinct keys, updated by
  \<open>AList.update\<close>. \<open>bump m k\<close> is \<open>m[k]++\<close> on a map of 64-bit counters, where an absent key reads as
  zero.
\<close>

type_synonym 'v dict = "(string \<times> 'v) list"

definition counter_at :: "i64 dict \<Rightarrow> string \<Rightarrow> i64" where
  "counter_at m k = (case map_of m k of None \<Rightarrow> 0 | Some c \<Rightarrow> c)"

definition bump :: "i64 dict \<Rightarrow> string \<Rightarrow> i64 dict" where
  "bump m k = AList.update k (counter_at m k + 1) m"

definition dict_total :: "i64 dict \<Rightarrow> i64" where
  "dict_total m = sum_list (map snd m)"

lemma counter_at_bump: "counter_at (bump m k) k' = counter_at m k' + (if k' = k then 1 else 0)"
  by (simp add: counter_at_def bump_def update_conv')

lemma update_new: "k \<notin> fst ` set m \<Longrightarrow> AList.update k v m = m @ [(k, v)]"
  by (induction m) auto

lemma foldl_update_distinct:
  "distinct (map fst (m @ kvs)) \<Longrightarrow> foldl (\<lambda>m kv. AList.update (fst kv) (snd kv) m) m kvs = m @ kvs"
proof (induction kvs arbitrary: m)
  case Nil
  then show ?case by simp
next
  case (Cons kv kvs)
  then have "fst kv \<notin> fst ` set m" by auto
  with Cons update_new [of "fst kv" m "snd kv"] show ?case by (auto simp: comp_def)
qed

lemma distinct_bump: "distinct (map fst m) \<Longrightarrow> distinct (map fst (bump m k))"
  by (simp add: bump_def distinct_update)

lemma dict_total_Nil [simp]: "dict_total [] = 0"
  by (simp add: dict_total_def)

lemma sum_list_update_alist:
  fixes m :: "('k \<times> 'v::ab_group_add) list"
  assumes "distinct (map fst m)"
  shows "sum_list (map snd (AList.update k v m)) =
    sum_list (map snd m) - (case map_of m k of None \<Rightarrow> 0 | Some w \<Rightarrow> w) + v"
  using assms
proof (induction m)
  case Nil
  then show ?case by simp
next
  case (Cons p m)
  obtain a b where p: "p = (a, b)" by (cases p)
  show ?case
  proof (cases "a = k")
    case True
    with p show ?thesis by simp
  next
    case False
    with Cons p show ?thesis by (simp add: algebra_simps)
  qed
qed

lemma dict_total_bump: "distinct (map fst m) \<Longrightarrow> dict_total (bump m k) = dict_total m + 1"
  by (simp add: dict_total_def bump_def sum_list_update_alist counter_at_def)

section \<open>Transition systems with an invariant\<close>

text \<open>
  A component that runs concurrently is an initial state and a partial action function:
  \<open>act a s\<close> is \<open>None\<close> when action \<open>a\<close> is not enabled in \<open>s\<close>. The laws say that the invariant
  holds at the start and that every enabled action keeps it.
\<close>

fun run_actions :: "('a \<Rightarrow> 's \<Rightarrow> 's option) \<Rightarrow> 'a list \<Rightarrow> 's \<Rightarrow> 's option" where
  "run_actions act [] s = Some s"
| "run_actions act (a # as) s = (case act a s of None \<Rightarrow> None | Some s' \<Rightarrow> run_actions act as s')"

lemma run_actions_append:
  "run_actions act (as @ bs) s =
     (case run_actions act as s of None \<Rightarrow> None | Some s' \<Rightarrow> run_actions act bs s')"
  by (induction as arbitrary: s) (auto split: option.splits)

locale step_system =
  fixes act :: "'a \<Rightarrow> 's \<Rightarrow> 's option"
    and init :: "'s \<Rightarrow> bool"
    and inv :: "'s \<Rightarrow> bool"
  assumes inv_init: "init s \<Longrightarrow> inv s"
    and inv_act: "inv s \<Longrightarrow> act a s = Some s' \<Longrightarrow> inv s'"
begin

lemma inv_run: "inv s \<Longrightarrow> run_actions act as s = Some s' \<Longrightarrow> inv s'"
  by (induction as arbitrary: s) (auto split: option.splits intro: inv_act)

lemma inv_reachable: "init s \<Longrightarrow> run_actions act as s = Some s' \<Longrightarrow> inv s'"
  by (blast intro: inv_init inv_run)

end

text \<open>A measure that no action increases is bounded along every run by its initial value.\<close>

locale monotone_system = step_system act init inv
  for act :: "'a \<Rightarrow> 's \<Rightarrow> 's option" and init and inv +
  fixes gauge :: "'s \<Rightarrow> nat"
  assumes gauge_act: "inv s \<Longrightarrow> act a s = Some s' \<Longrightarrow> gauge s \<le> gauge s'"
begin

lemma gauge_run: "inv s \<Longrightarrow> run_actions act as s = Some s' \<Longrightarrow> gauge s \<le> gauge s'"
proof (induction as arbitrary: s)
  case Nil
  then show ?case by simp
next
  case (Cons a as)
  from Cons.prems obtain t where t: "act a s = Some t" "run_actions act as t = Some s'"
    by (auto split: option.splits)
  from gauge_act [OF Cons.prems(1) t(1)] Cons.IH [OF inv_act [OF Cons.prems(1) t(1)] t(2)]
  show ?case by simp
qed

end

section \<open>Encoders with a left inverse\<close>

locale text_codec =
  fixes enc :: "'a \<Rightarrow> string"
    and dec :: "string \<Rightarrow> 'a option"
    and good :: "'a \<Rightarrow> bool"
  assumes dec_enc: "good x \<Longrightarrow> dec (enc x) = Some x"
begin

lemma enc_inj_on: "inj_on enc (Collect good)"
proof (rule inj_onI)
  fix x y
  assume x: "x \<in> Collect good" and y: "y \<in> Collect good" and eq: "enc x = enc y"
  have "dec (enc x) = Some x" and "dec (enc y) = Some y"
    using x y by (simp_all only: dec_enc mem_Collect_eq)
  with eq show "x = y" by (metis option.inject)
qed

lemma enc_eq_iff: "good x \<Longrightarrow> good y \<Longrightarrow> enc x = enc y \<longleftrightarrow> x = y"
  by (metis dec_enc option.inject)

end

end
