(* ===== verification/GoText.thy ===== *)
theory GoText
  imports Prelude
begin

text \<open>
  What the program uses of Go's \<open>strings\<close>, \<open>strconv\<close>, \<open>unicode/utf8\<close> and \<open>fmt\<close> packages on byte
  strings: splitting, trimming, joining, case folding, replacement of one byte, decimal and
  hexadecimal integers, and UTF-8 decoding with Go's rule that an invalid byte decodes to U+FFFD
  with width one. The table of \<open>unicode.ToLower\<close> beyond ASCII is an argument of \<open>to_lower\<close>.
\<close>

section \<open>Bytes and UTF-8\<close>

definition byte_of :: "char \<Rightarrow> nat" where
  "byte_of c = of_char c"

definition byte_chr :: "nat \<Rightarrow> char" where
  "byte_chr n = char_of n"

lemma byte_of_lt [simp]: "byte_of c < 256"
  by (simp add: byte_of_def)

lemma byte_chr_of [simp]: "byte_chr (byte_of c) = c"
  by (simp add: byte_chr_def byte_of_def)

lemma byte_of_chr [simp]: "n < 256 \<Longrightarrow> byte_of (byte_chr n) = n"
  by (simp add: byte_chr_def byte_of_def)

definition is_cont :: "nat \<Rightarrow> bool" where
  "is_cont b \<longleftrightarrow> 128 \<le> b \<and> b \<le> 191"

definition rune_error :: nat where
  "rune_error = 65533"

text \<open>\<open>utf8.DecodeRune\<close>: the rune at the head of the string and its width in bytes.\<close>

definition decode_bytes :: "nat list \<Rightarrow> nat \<times> nat" where
  "decode_bytes s =
     (case s of
        [] \<Rightarrow> (rune_error, 0)
      | b0 # bs \<Rightarrow>
          if b0 < 128 then (b0, 1)
          else if 194 \<le> b0 \<and> b0 \<le> 223 then
            (case bs of
               b1 # _ \<Rightarrow> if is_cont b1 then ((b0 - 192) * 64 + (b1 - 128), 2) else (rune_error, 1)
             | _ \<Rightarrow> (rune_error, 1))
          else if 224 \<le> b0 \<and> b0 \<le> 239 then
            (case bs of
               b1 # b2 # _ \<Rightarrow>
                 if is_cont b1 \<and> is_cont b2 \<and> (b0 = 224 \<longrightarrow> 160 \<le> b1) \<and> (b0 = 237 \<longrightarrow> b1 \<le> 159)
                 then ((b0 - 224) * 4096 + (b1 - 128) * 64 + (b2 - 128), 3) else (rune_error, 1)
             | _ \<Rightarrow> (rune_error, 1))
          else if 240 \<le> b0 \<and> b0 \<le> 244 then
            (case bs of
               b1 # b2 # b3 # _ \<Rightarrow>
                 if is_cont b1 \<and> is_cont b2 \<and> is_cont b3 \<and> (b0 = 240 \<longrightarrow> 144 \<le> b1) \<and>
                    (b0 = 244 \<longrightarrow> b1 \<le> 143)
                 then ((b0 - 240) * 262144 + (b1 - 128) * 4096 + (b2 - 128) * 64 + (b3 - 128), 4)
                 else (rune_error, 1)
             | _ \<Rightarrow> (rune_error, 1))
          else (rune_error, 1))"

definition decode_rune :: "string \<Rightarrow> nat \<times> nat" where
  "decode_rune s = decode_bytes (map byte_of (take 4 s))"

text \<open>\<open>utf8.AppendRune\<close>: surrogates and values past U+10FFFF encode as U+FFFD.\<close>

definition encode_rune :: "nat \<Rightarrow> string" where
  "encode_rune r0 =
     (let r = (if 1114111 < r0 \<or> (55296 \<le> r0 \<and> r0 \<le> 57343) then rune_error else r0) in
      map byte_chr
       (if r < 128 then [r]
        else if r < 2048 then [192 + r div 64, 128 + r mod 64]
        else if r < 65536 then [224 + r div 4096, 128 + r div 64 mod 64, 128 + r mod 64]
        else [240 + r div 262144, 128 + r div 4096 mod 64, 128 + r div 64 mod 64, 128 + r mod 64]))"

lemma decode_rune_ascii: "byte_of c < 128 \<Longrightarrow> decode_rune (c # s) = (byte_of c, 1)"
  by (simp add: decode_rune_def decode_bytes_def)

lemma decode_rune_width: "s \<noteq> [] \<Longrightarrow> 0 < snd (decode_rune s)"
  by (cases s) (auto simp: decode_rune_def decode_bytes_def split: list.splits)

text \<open>All bytes of a multi-byte rune have the high bit set.\<close>

lemma decode_bytes_high:
  assumes "128 \<le> b"
  shows "list_all ((\<le>) 128) (take (snd (decode_bytes (b # bs))) (b # bs)) \<and> snd (decode_bytes (b # bs)) \<le> 4"
proof -
  have short: "list_all ((\<le>) 128) (take 1 (b # bs)) \<and> 1 \<le> (4::nat)" using assms by simp
  consider "bs = []" | b1 where "bs = [b1]" | b1 b2 where "bs = [b1, b2]"
    | b1 b2 b3 t where "bs = b1 # b2 # b3 # t"
    by (metis neq_Nil_conv)
  then show ?thesis
    by cases (use assms short in \<open>auto simp: decode_bytes_def is_cont_def\<close>)
qed

lemma decode_rune_high:
  assumes "128 \<le> byte_of c"
  shows "list_all (\<lambda>b. 128 \<le> byte_of b) (take (snd (decode_rune (c # s))) (c # s))"
proof -
  let ?w = "snd (decode_rune (c # s))"
  from decode_bytes_high [OF assms, of "map byte_of (take 3 s)"]
  have "list_all ((\<le>) 128) (take ?w (map byte_of (take 4 (c # s))))" and "?w \<le> 4"
    by (simp_all add: decode_rune_def)
  moreover have "take w (map byte_of (take 4 xs)) = map byte_of (take w xs)" if "w \<le> 4" for w xs
    using that by (simp add: take_map take_take min_absorb1)
  ultimately have "list_all ((\<le>) 128) (map byte_of (take ?w (c # s)))" by metis
  then show ?thesis by (simp add: list_all_iff)
qed

function runes :: "string \<Rightarrow> nat list" where
  "runes s = (if s = [] then [] else (case decode_rune s of (r, w) \<Rightarrow> r # runes (drop w s)))"
  by pat_completeness auto
termination
proof (relation "measure length", goal_cases)
  case (2 s p w)
  then have "0 < w" using decode_rune_width [of s] by (metis snd_conv)
  with 2 show ?case by (cases s) auto
qed simp

declare runes.simps [simp del]

lemma runes_Nil [simp]: "runes [] = []"
  by (simp add: runes.simps)

lemma runes_Cons_ascii [simp]: "byte_of c < 128 \<Longrightarrow> runes (c # s) = byte_of c # runes s"
  by (subst runes.simps) (simp add: decode_rune_ascii)

lemma runes_ascii: "list_all (\<lambda>c. byte_of c < 128) s \<Longrightarrow> runes s = map byte_of s"
  by (induction s) auto

section \<open>Case\<close>

definition lower_byte :: "nat \<Rightarrow> nat" where
  "lower_byte b = (if 65 \<le> b \<and> b \<le> 90 then b + 32 else b)"

definition lower_char :: "char \<Rightarrow> char" where
  "lower_char c = byte_chr (lower_byte (byte_of c))"

lemma byte_of_lower_char: "byte_of (lower_char c) = lower_byte (byte_of c)"
  using byte_of_lt [of c] by (auto simp: lower_char_def lower_byte_def)

lemma lower_char_idem [simp]: "lower_char (lower_char c) = lower_char c"
  by (simp add: lower_char_def [of "lower_char c"] byte_of_lower_char)
     (simp add: lower_byte_def lower_char_def)

text \<open>
  \<open>strings.ToLower\<close>. The ASCII path maps bytes; otherwise every rune is mapped, with \<open>ul\<close> the table
  of \<open>unicode.ToLower\<close> on runes past ASCII, and an invalid byte becomes U+FFFD.
\<close>

definition to_lower :: "(nat \<Rightarrow> nat) \<Rightarrow> string \<Rightarrow> string" where
  "to_lower ul s =
     (if list_all (\<lambda>c. byte_of c < 128) s then map lower_char s
      else concat (map (\<lambda>r. encode_rune (if r < 128 then lower_byte r else ul r)) (runes s)))"

text \<open>
  \<open>strings.EqualFold\<close> against an ASCII string, and \<open>encoding/json\<close>'s field-name folding: letters fold
  to upper case, and the two runes past ASCII whose simple fold is an ASCII letter, U+017F and
  U+212A, fold to \<open>S\<close> and \<open>K\<close>.
\<close>

definition fold_rune :: "nat \<Rightarrow> nat" where
  "fold_rune r =
     (if 97 \<le> r \<and> r \<le> 122 then r - 32 else if r = 383 then 83 else if r = 8490 then 75 else r)"

definition equal_fold :: "string \<Rightarrow> string \<Rightarrow> bool" where
  "equal_fold s t \<longleftrightarrow> map fold_rune (runes s) = map fold_rune (runes t)"

lemma equal_fold_refl [simp]: "equal_fold s s"
  by (simp add: equal_fold_def)

lemma equal_fold_sym: "equal_fold s t \<Longrightarrow> equal_fold t s"
  by (simp add: equal_fold_def)

lemma equal_fold_trans: "equal_fold s t \<Longrightarrow> equal_fold t u \<Longrightarrow> equal_fold s u"
  by (simp add: equal_fold_def)

section \<open>Splitting, trimming, joining\<close>

text \<open>\<open>strings.SplitN\<close> with a one-byte separator: at most \<open>n\<close> pieces, the last one unsplit.\<close>

primrec split_n :: "nat \<Rightarrow> char \<Rightarrow> string \<Rightarrow> string list" where
  "split_n 0 c s = []"
| "split_n (Suc n) c s =
     (if n = 0 then [s]
      else case dropWhile (\<lambda>x. x \<noteq> c) s of
             [] \<Rightarrow> [s]
           | _ # t \<Rightarrow> takeWhile (\<lambda>x. x \<noteq> c) s # split_n n c t)"

primrec split_on :: "char \<Rightarrow> string \<Rightarrow> string list" where
  "split_on c [] = [[]]"
| "split_on c (x # xs) =
     (if x = c then [] # split_on c xs
      else case split_on c xs of [] \<Rightarrow> [[x]] | y # ys \<Rightarrow> (x # y) # ys)"

fun join_with :: "string \<Rightarrow> string list \<Rightarrow> string" where
  "join_with sep [] = []"
| "join_with sep [x] = x"
| "join_with sep (x # y # ys) = x @ sep @ join_with sep (y # ys)"

lemma split_on_ne [simp]: "split_on c s \<noteq> []"
  by (cases s) (auto split: list.splits)

lemma split_on_no_sep: "p \<in> set (split_on c s) \<Longrightarrow> c \<notin> set p"
  by (induction s arbitrary: p) (auto split: if_splits list.splits)

lemma join_split_on: "join_with [c] (split_on c s) = s"
proof (induction s)
  case Nil
  then show ?case by simp
next
  case (Cons x xs)
  obtain y ys where sp: "split_on c xs = y # ys"
    using split_on_ne by (meson neq_Nil_conv)
  with Cons.IH show ?case by (cases ys) auto
qed

lemma split_n_head_no_sep:
  "split_n (Suc (Suc n)) c s = p # q # ps \<Longrightarrow> c \<notin> set p"
  by (auto split: list.splits dest: set_takeWhileD)

lemma split_n_length: "length (split_n n c s) \<le> n"
  by (induction n arbitrary: s) (auto split: list.splits)

definition ascii_space :: "char \<Rightarrow> bool" where
  "ascii_space c \<longleftrightarrow> byte_of c \<in> {9, 10, 11, 12, 13, 32}"

text \<open>The UTF-8 encodings of the runes \<open>unicode.IsSpace\<close> accepts.\<close>

definition space_encodings :: "string list" where
  "space_encodings = map (map byte_chr)
     ([[9], [10], [11], [12], [13], [32], [194, 133], [194, 160], [225, 154, 128]] @
      map (\<lambda>b. [226, 128, b]) [128 ..< 139] @
      [[226, 128, 168], [226, 128, 169], [226, 128, 175], [226, 129, 159], [227, 128, 128]])"

definition has_prefix :: "string \<Rightarrow> string \<Rightarrow> bool" where
  "has_prefix p s \<longleftrightarrow> take (length p) s = p"

function strip_prefixes :: "string list \<Rightarrow> string \<Rightarrow> string" where
  "strip_prefixes es s =
     (case find (\<lambda>e. e \<noteq> [] \<and> has_prefix e s) es of
        None \<Rightarrow> s
      | Some e \<Rightarrow> strip_prefixes es (drop (length e) s))"
  by pat_completeness auto
termination
proof (relation "measure (\<lambda>(es, s). length s)", goal_cases)
  case (2 es s e)
  then have "e \<noteq> []" and "take (length e) s = e"
    by (auto simp: find_Some_iff has_prefix_def)
  then show ?case by (cases s) auto
qed simp

declare strip_prefixes.simps [simp del]

text \<open>\<open>strings.TrimSpace\<close>.\<close>

definition trim_space :: "string \<Rightarrow> string" where
  "trim_space s =
     rev (strip_prefixes (map rev space_encodings) (rev (strip_prefixes space_encodings s)))"

definition trim_right_char :: "char \<Rightarrow> string \<Rightarrow> string" where
  "trim_right_char c s = rev (dropWhile (\<lambda>x. x = c) (rev s))"

definition trim_suffix_char :: "char \<Rightarrow> string \<Rightarrow> string" where
  "trim_suffix_char c s = (if s \<noteq> [] \<and> last s = c then butlast s else s)"

text \<open>\<open>strings.ReplaceAll\<close> with a one-byte pattern.\<close>

definition replace_all :: "char \<Rightarrow> string \<Rightarrow> string \<Rightarrow> string" where
  "replace_all c r s = concat (map (\<lambda>x. if x = c then r else [x]) s)"

lemma replace_all_Nil [simp]: "replace_all c r [] = []"
  by (simp add: replace_all_def)

lemma replace_all_Cons [simp]:
  "replace_all c r (x # xs) = (if x = c then r else [x]) @ replace_all c r xs"
  by (simp add: replace_all_def)

lemma replace_all_append [simp]:
  "replace_all c r (xs @ ys) = replace_all c r xs @ replace_all c r ys"
  by (simp add: replace_all_def)

section \<open>Integers as text\<close>

definition digit_char :: "nat \<Rightarrow> char" where
  "digit_char d = byte_chr (if d < 10 then 48 + d else 87 + d)"

definition is_digit :: "char \<Rightarrow> bool" where
  "is_digit c \<longleftrightarrow> 48 \<le> byte_of c \<and> byte_of c \<le> 57"

definition digit_val :: "char \<Rightarrow> nat" where
  "digit_val c = byte_of c - 48"

fun nat_text :: "nat \<Rightarrow> string" where
  "nat_text n = (if n < 10 then [digit_char n] else nat_text (n div 10) @ [digit_char (n mod 10)])"

declare nat_text.simps [simp del]

fun hex_text :: "nat \<Rightarrow> string" where
  "hex_text n = (if n < 16 then [digit_char n] else hex_text (n div 16) @ [digit_char (n mod 16)])"

declare hex_text.simps [simp del]

definition digits_val :: "string \<Rightarrow> nat" where
  "digits_val s = foldl (\<lambda>n c. 10 * n + digit_val c) 0 s"

definition int_text :: "int \<Rightarrow> string" where
  "int_text i = (if i < 0 then CHR ''-'' # nat_text (nat (- i)) else nat_text (nat i))"

definition int64_range :: "int \<Rightarrow> bool" where
  "int64_range i \<longleftrightarrow> - (2 ^ 63) \<le> i \<and> i < 2 ^ 63"

definition unsigned_digits :: "string \<Rightarrow> nat option" where
  "unsigned_digits s = (if s \<noteq> [] \<and> list_all is_digit s then Some (digits_val s) else None)"

text \<open>\<open>strconv.Atoi\<close> on a 64-bit platform: an optional sign, digits only, in range.\<close>

definition atoi :: "string \<Rightarrow> int option" where
  "atoi s =
     (let (neg, ds) = (case s of
          [] \<Rightarrow> (False, [])
        | c # cs \<Rightarrow> if c = CHR ''-'' then (True, cs) else if c = CHR ''+'' then (False, cs)
                    else (False, s))
      in case unsigned_digits ds of
           None \<Rightarrow> None
         | Some n \<Rightarrow> let i = (if neg then - int n else int n) in
                     if int64_range i then Some i else None)"

lemma is_digit_char [simp]: "d < 10 \<Longrightarrow> is_digit (digit_char d)"
  by (simp add: is_digit_def digit_char_def)

lemma digit_val_char [simp]: "d < 10 \<Longrightarrow> digit_val (digit_char d) = d"
  by (simp add: digit_val_def digit_char_def)

lemma digit_char_ne_minus: "d < 10 \<Longrightarrow> digit_char d \<noteq> CHR ''-''"
  using is_digit_char [of d] by (auto simp: is_digit_def byte_of_def)

lemma nat_text_ne [simp]: "nat_text n \<noteq> []"
  by (subst nat_text.simps) simp

lemma nat_text_digits: "list_all is_digit (nat_text n)"
proof (induction n rule: nat_text.induct)
  case (1 n)
  then show ?case by (subst nat_text.simps) (auto simp: list_all_append)
qed

lemma digits_val_snoc [simp]: "digits_val (s @ [c]) = 10 * digits_val s + digit_val c"
  by (simp add: digits_val_def)

lemma digits_val_nat_text [simp]: "digits_val (nat_text n) = n"
proof (induction n rule: nat_text.induct)
  case (1 n)
  show ?case
  proof (cases "n < 10")
    case True
    then show ?thesis by (subst nat_text.simps) (simp add: digits_val_def)
  next
    case False
    with 1 have "digits_val (nat_text (n div 10)) = n div 10" by simp
    with False show ?thesis by (subst nat_text.simps) simp
  qed
qed

lemma unsigned_digits_nat_text [simp]: "unsigned_digits (nat_text n) = Some n"
  by (simp add: unsigned_digits_def nat_text_digits)

lemma nat_text_hd_not_sign: "nat_text n = c # cs \<Longrightarrow> c \<noteq> CHR ''-'' \<and> c \<noteq> CHR ''+''"
  using nat_text_digits [of n] by (auto simp: is_digit_def byte_of_def)

lemma atoi_int_text:
  assumes "int64_range i"
  shows "atoi (int_text i) = Some i"
proof (cases "i < 0")
  case True
  with assms show ?thesis by (simp add: atoi_def int_text_def Let_def)
next
  case False
  then obtain n where n: "i = int n" by (metis nonneg_int_cases not_less)
  obtain c cs where c: "nat_text n = c # cs" by (cases "nat_text n") auto
  then have "unsigned_digits (c # cs) = Some n"
    using unsigned_digits_nat_text [of n] by simp
  with n c assms nat_text_hd_not_sign [OF c] show ?thesis
    by (simp add: atoi_def int_text_def Let_def)
qed

lemma nat_text_no_char: "\<not> is_digit c \<Longrightarrow> c \<notin> set (nat_text n)"
  using nat_text_digits [of n] by (auto simp: list_all_iff)

lemma int_text_no_newline: "CHR 0x0A \<notin> set (int_text i)"
  by (auto simp: int_text_def is_digit_def byte_of_def intro!: nat_text_no_char)

interpretation dec_int: text_codec int_text atoi int64_range
  by unfold_locales (rule atoi_int_text)

lemma int_text_inj: "int64_range i \<Longrightarrow> int64_range j \<Longrightarrow> int_text i = int_text j \<longleftrightarrow> i = j"
  by (rule dec_int.enc_eq_iff)

end
