(* ===== verification/GoFloat.thy ===== *)
theory GoFloat
  imports GoText
begin

text \<open>
  Go's \<open>float64\<close>: a sign, a 53-bit mantissa and a binary exponent, with the two infinities and one
  NaN. \<open>round64\<close> is IEEE rounding to nearest, ties to even, of an exact quotient; parsing,
  arithmetic and the two renderings the program uses (\<open>%.Nf\<close> and \<open>encoding/json\<close>'s shortest form)
  are built on it, with integer arithmetic only, so that everything evaluates in the kernel.
\<close>

datatype float64 = F_Fin bool nat int | F_Inf bool | F_NaN

abbreviation f64_zero :: float64 where
  "f64_zero \<equiv> F_Fin False 0 (- 1074)"

text \<open>The representable finite values: subnormals, and mantissas of exactly 53 bits.\<close>

fun f64_canon :: "float64 \<Rightarrow> bool" where
  "f64_canon (F_Fin s m e) \<longleftrightarrow>
     (e = - 1074 \<and> m < 2 ^ 52) \<or> (2 ^ 52 \<le> m \<and> m < 2 ^ 53 \<and> - 1074 \<le> e \<and> e \<le> 971)"
| "f64_canon _ = True"

section \<open>Rounding\<close>

fun bit_len :: "nat \<Rightarrow> nat" where
  "bit_len n = (if n = 0 then 0 else Suc (bit_len (n div 2)))"

declare bit_len.simps [simp del]

definition half_even :: "nat \<Rightarrow> nat \<Rightarrow> nat" where
  "half_even n d =
     (let q = n div d; r = n mod d in
      if 2 * r < d \<or> (2 * r = d \<and> even q) then q else q + 1)"

definition scaled :: "nat \<Rightarrow> nat \<Rightarrow> int \<Rightarrow> nat \<times> nat" where
  "scaled n d e = (if 0 \<le> e then (n, d * 2 ^ nat e) else (n * 2 ^ nat (- e), d))"

text \<open>
  \<open>round64 s n d\<close> is the float nearest to \<open>n / d\<close> with sign \<open>s\<close>; \<open>round_exp\<close> is the exponent that
  leaves 53 bits of mantissa, or the subnormal one.
\<close>

definition round_exp :: "nat \<Rightarrow> nat \<Rightarrow> int" where
  "round_exp n d =
     (let k = int (bit_len n) - int (bit_len d) - 53; (a, b) = scaled n d k in
      max (if 2 ^ 53 * b \<le> a then k + 1 else k) (- 1074))"

definition round64 :: "bool \<Rightarrow> nat \<Rightarrow> nat \<Rightarrow> float64" where
  "round64 s n d =
     (if n = 0 then F_Fin s 0 (- 1074)
      else
        let e = round_exp n d;
            (a, b) = scaled n d e;
            q = half_even a b;
            (m, f) = (if q = 2 ^ 53 then (2 ^ 52, e + 1) else (q, e))
        in if f > 971 then F_Inf s else F_Fin s m f)"

lemma bit_len_one [simp]: "bit_len (Suc 0) = Suc 0"
  by (subst bit_len.simps) (simp add: bit_len.simps [of 0])

lemma bit_len_bounds:
  assumes "0 < n"
  shows "2 ^ (bit_len n - 1) \<le> n \<and> n < 2 ^ bit_len n"
  using assms
proof (induction n rule: bit_len.induct)
  case (1 n)
  show ?case
  proof (cases "n div 2 = 0")
    case True
    with 1 have "n = 1" by simp
    then show ?thesis by simp
  next
    case False
    with 1 have IH: "2 ^ (bit_len (n div 2) - 1) \<le> n div 2 \<and> n div 2 < 2 ^ bit_len (n div 2)"
      by simp
    from False have pos: "0 < bit_len (n div 2)" by (subst bit_len.simps) simp
    have bl: "bit_len n = Suc (bit_len (n div 2))"
      using 1 by (subst bit_len.simps) simp
    obtain k where k: "bit_len (n div 2) = Suc k" using pos by (cases "bit_len (n div 2)") auto
    from IH k have "2 ^ k \<le> n div 2" and "n div 2 < 2 * 2 ^ k" by simp_all
    then have "2 * 2 ^ k \<le> n" and "n < 4 * 2 ^ k" by linarith+
    then show ?thesis by (simp add: bl k)
  qed
qed

lemma half_even_upper: "0 < d \<Longrightarrow> n < c * d \<Longrightarrow> half_even n d \<le> c"
  by (auto simp: half_even_def Let_def Suc_le_eq less_mult_imp_div_less order_less_imp_le)

lemma half_even_lower:
  assumes "0 < d" and "c * d \<le> n"
  shows "c \<le> half_even n d"
proof -
  have "c \<le> n div d"
    using assms by (simp add: less_eq_div_iff_mult_less_eq)
  then show ?thesis by (auto simp: half_even_def Let_def)
qed

lemma scaled_pos: "0 < d \<Longrightarrow> 0 < snd (scaled n d e)"
  by (simp add: scaled_def)

lemma scaled_ratio:
  assumes "0 < d"
  shows "real (fst (scaled n d e)) = real n / real d / 2 powi e * real (snd (scaled n d e))"
proof (cases "0 \<le> e")
  case True
  then have "2 powi e = (2::real) ^ nat e" by (simp add: power_int_def)
  with True assms show ?thesis by (simp add: scaled_def)
next
  case False
  then have "2 powi e = (1::real) / 2 ^ nat (- e)"
    by (simp add: power_int_def inverse_eq_divide power_one_over)
  with False assms show ?thesis by (simp add: scaled_def)
qed

lemma scaled_less_iff:
  assumes "0 < d"
  shows "fst (scaled n d e) < c * snd (scaled n d e) \<longleftrightarrow> real n / real d / 2 powi e < real c"
proof -
  let ?a = "fst (scaled n d e)" and ?b = "snd (scaled n d e)"
  have b: "0 < real ?b" using scaled_pos [OF assms] by simp
  have "?a < c * ?b \<longleftrightarrow> real ?a < real c * real ?b"
    by (metis of_nat_less_iff of_nat_mult)
  also have "\<dots> \<longleftrightarrow> real n / real d / 2 powi e < real c"
    unfolding scaled_ratio [OF assms, of n e] mult_less_cancel_right_pos [OF b] ..
  finally show ?thesis .
qed

lemma powi_diff_nat: "(2::real) powi (int a - int b) = 2 ^ a / 2 ^ b"
  by (simp add: power_int_diff)

lemma bit_len_ratio:
  assumes "0 < n" and "0 < d"
  shows "2 powi (int (bit_len n) - int (bit_len d) - 1) < real n / real d"
    and "real n / real d < 2 powi (int (bit_len n) - int (bit_len d) + 1)"
proof -
  note bn = bit_len_bounds [OF assms(1)] and bd = bit_len_bounds [OF assms(2)]
  have pn: "0 < bit_len n" using assms(1) by (subst bit_len.simps) simp
  have pd: "0 < bit_len d" using assms(2) by (subst bit_len.simps) simp
  have n1: "(2::real) ^ (bit_len n - 1) \<le> real n" and n2: "real n < 2 ^ bit_len n"
    using bn by simp_all
  have d1: "(2::real) ^ (bit_len d - 1) \<le> real d" and d2: "real d < 2 ^ bit_len d"
    using bd by simp_all
  have e1: "2 powi (int (bit_len n) - int (bit_len d) - 1) = (2::real) ^ (bit_len n - 1) / 2 ^ bit_len d"
  proof -
    have "int (bit_len n) - int (bit_len d) - 1 = int (bit_len n - 1) - int (bit_len d)"
      using pn by simp
    then show ?thesis by (simp only: powi_diff_nat)
  qed
  have e2: "2 powi (int (bit_len n) - int (bit_len d) + 1) = (2::real) ^ bit_len n / 2 ^ (bit_len d - 1)"
  proof -
    have "int (bit_len n) - int (bit_len d) + 1 = int (bit_len n) - int (bit_len d - 1)"
      using pd by simp
    then show ?thesis by (simp only: powi_diff_nat)
  qed
  show "2 powi (int (bit_len n) - int (bit_len d) - 1) < real n / real d"
    unfolding e1 using n1 d2 assms by (intro frac_less2) auto
  show "real n / real d < 2 powi (int (bit_len n) - int (bit_len d) + 1)"
    unfolding e2 using n2 d1 assms by (intro frac_less) auto
qed

text \<open>The exponent leaves a 53-bit quotient, unless the subnormal one is larger.\<close>

lemma round_exp_spec:
  assumes "0 < n" and "0 < d"
  obtains e0 where "round_exp n d = max e0 (- 1074)"
    and "real (2 ^ 52) \<le> real n / real d / 2 powi e0" and "real n / real d / 2 powi e0 < real (2 ^ 53)"
proof -
  define k where "k = int (bit_len n) - int (bit_len d) - 53"
  define x where "x = real n / real d"
  define e0 where "e0 = (if 2 ^ 53 * snd (scaled n d k) \<le> fst (scaled n d k) then k + 1 else k)"
  have e_max: "round_exp n d = max e0 (- 1074)"
    by (simp add: round_exp_def Let_def case_prod_beta e0_def k_def)
  have lo: "2 powi (k + 52) < x" and hi: "x < 2 powi (k + 54)"
    using bit_len_ratio [of n d] assms by (simp_all add: k_def x_def algebra_simps)
  have test: "2 ^ 53 * snd (scaled n d k) \<le> fst (scaled n d k) \<longleftrightarrow> real (2 ^ 53) \<le> x / 2 powi k"
    using scaled_less_iff [OF assms(2), of n k "2 ^ 53"] by (simp add: x_def not_less [symmetric])
  have pw: "2 powi (i + int j) = 2 powi i * (2::real) ^ j" for i j
    by (simp add: power_int_add)
  have up: "x / 2 powi e0 < real (2 ^ 53)"
  proof (cases "2 ^ 53 * snd (scaled n d k) \<le> fst (scaled n d k)")
    case True
    have "(2::real) powi (k + 54) = 2 powi (k + 1) * 2 ^ 53"
      using pw [of "k + 1" 53] by (simp add: ac_simps)
    with True hi show ?thesis by (simp add: e0_def divide_less_eq mult.commute)
  next
    case False
    with test show ?thesis by (simp add: e0_def)
  qed
  have low: "real (2 ^ 52) \<le> x / 2 powi e0"
  proof (cases "2 ^ 53 * snd (scaled n d k) \<le> fst (scaled n d k)")
    case True
    then have "real (2 ^ 53) \<le> x / 2 powi k" using test by simp
    moreover have "(2::real) powi (k + 1) = 2 powi k * 2" by (simp add: power_int_add)
    ultimately show ?thesis using True by (simp add: e0_def field_simps)
  next
    case False
    with lo pw [of k 52] show ?thesis by (simp add: e0_def le_divide_eq mult.commute)
  qed
  show thesis by (rule that [OF e_max]) (use up low in \<open>simp_all add: x_def\<close>)
qed

text \<open>Every rounded value is representable.\<close>

lemma round64_canon:
  assumes "0 < d"
  shows "f64_canon (round64 s n d)"
proof (cases "n = 0")
  case True
  then show ?thesis by (simp add: round64_def)
next
  case False
  define x where "x = real n / real d"
  define e where "e = round_exp n d"
  obtain e0 where e_max: "e = max e0 (- 1074)" and low: "real (2 ^ 52) \<le> x / 2 powi e0"
    and up: "x / 2 powi e0 < real (2 ^ 53)"
    using round_exp_spec [of n d] False assms unfolding e_def x_def by blast
  define q where "q = half_even (fst (scaled n d e)) (snd (scaled n d e))"
  have up': "x / 2 powi e < real (2 ^ 53)"
  proof -
    have "(2::real) powi e0 \<le> 2 powi e" by (simp add: e_max power_int_increasing)
    moreover have "0 \<le> x" by (simp add: x_def)
    ultimately have "x / 2 powi e \<le> x / 2 powi e0" by (intro divide_left_mono) auto
    with up show ?thesis by simp
  qed
  have q_up: "q \<le> 2 ^ 53"
    unfolding q_def using scaled_pos [OF assms] scaled_less_iff [OF assms, of n e "2 ^ 53"] up'
    by (intro half_even_upper) (auto simp: x_def)
  have q_low: "2 ^ 52 \<le> q" if "e \<noteq> - 1074"
  proof -
    from that have "e = e0" by (simp add: e_max max_def split: if_splits)
    with low have "\<not> x / 2 powi e < real (2 ^ 52)" by simp
    then have "2 ^ 52 * snd (scaled n d e) \<le> fst (scaled n d e)"
      using scaled_less_iff [OF assms, of n e "2 ^ 52"] by (simp add: x_def)
    then show ?thesis
      unfolding q_def using scaled_pos [OF assms] by (intro half_even_lower) auto
  qed
  have "round64 s n d =
      (let (m, f) = (if q = 2 ^ 53 then (2 ^ 52, e + 1) else (q, e)) in
       if f > 971 then F_Inf s else F_Fin s m f)"
    using False by (simp add: round64_def Let_def case_prod_beta q_def e_def)
  moreover have "- 1074 \<le> e" by (simp add: e_max)
  ultimately show ?thesis
    using q_up q_low by (auto simp: Let_def)
qed

section \<open>Arithmetic and comparison\<close>

definition signed_mant :: "bool \<Rightarrow> nat \<Rightarrow> int" where
  "signed_mant s m = (if s then - int m else int m)"

text \<open>\<open>signed integer * 2^e\<close>, rounded; \<open>neg\<close> is the sign of an exact zero.\<close>

definition round_int :: "bool \<Rightarrow> int \<Rightarrow> int \<Rightarrow> float64" where
  "round_int neg i e =
     (if i = 0 then F_Fin neg 0 (- 1074)
      else let (n, d) = scaled (nat \<bar>i\<bar>) 1 (- e) in round64 (i < 0) n d)"

definition f64_of_int :: "int \<Rightarrow> float64" where
  "f64_of_int i = round_int False i 0"

text \<open>The two mantissas brought to the smaller exponent.\<close>

definition aligned :: "bool \<Rightarrow> nat \<Rightarrow> int \<Rightarrow> bool \<Rightarrow> nat \<Rightarrow> int \<Rightarrow> int \<times> int \<times> int" where
  "aligned s m e t n f =
     (if m = 0 then (0, signed_mant t n, f)
      else if n = 0 then (signed_mant s m, 0, e)
      else
        let g = min e f in
        (signed_mant s m * 2 ^ nat (e - g), signed_mant t n * 2 ^ nat (f - g), g))"

fun f64_add :: "float64 \<Rightarrow> float64 \<Rightarrow> float64" where
  "f64_add (F_Fin s m e) (F_Fin t n f) =
     (case aligned s m e t n f of (a, b, g) \<Rightarrow> round_int (s \<and> t) (a + b) g)"
| "f64_add F_NaN _ = F_NaN"
| "f64_add _ F_NaN = F_NaN"
| "f64_add (F_Inf s) (F_Inf t) = (if s = t then F_Inf s else F_NaN)"
| "f64_add (F_Inf s) (F_Fin _ _ _) = F_Inf s"
| "f64_add (F_Fin _ _ _) (F_Inf t) = F_Inf t"

fun f64_less :: "float64 \<Rightarrow> float64 \<Rightarrow> bool" where
  "f64_less (F_Fin s m e) (F_Fin t n f) = (case aligned s m e t n f of (a, b, g) \<Rightarrow> a < b)"
| "f64_less (F_Inf s) (F_Inf t) = (s \<and> \<not> t)"
| "f64_less (F_Inf s) (F_Fin _ _ _) = s"
| "f64_less (F_Fin _ _ _) (F_Inf t) = (\<not> t)"
| "f64_less _ _ = False"

fun f64_le :: "float64 \<Rightarrow> float64 \<Rightarrow> bool" where
  "f64_le (F_Fin s m e) (F_Fin t n f) = (case aligned s m e t n f of (a, b, g) \<Rightarrow> a \<le> b)"
| "f64_le (F_Inf s) (F_Inf t) = (s \<or> \<not> t)"
| "f64_le (F_Inf s) (F_Fin _ _ _) = s"
| "f64_le (F_Fin _ _ _) (F_Inf t) = (\<not> t)"
| "f64_le _ _ = False"

text \<open>Multiplication and division by a small positive integer.\<close>

fun f64_mul_nat :: "float64 \<Rightarrow> nat \<Rightarrow> float64" where
  "f64_mul_nat (F_Fin s m e) k =
     (if m = 0 then F_Fin s 0 (- 1074) else let (n, d) = scaled (m * k) 1 (- e) in round64 s n d)"
| "f64_mul_nat x k = x"

fun f64_div_nat :: "float64 \<Rightarrow> nat \<Rightarrow> float64" where
  "f64_div_nat (F_Fin s m e) k =
     (if m = 0 then F_Fin s 0 (- 1074) else let (n, d) = scaled m k (- e) in round64 s n d)"
| "f64_div_nat x k = x"

text \<open>\<open>math.Round\<close>: to the nearest integer, halves away from zero.\<close>

fun f64_round :: "float64 \<Rightarrow> float64" where
  "f64_round (F_Fin s m e) =
     (if m = 0 then F_Fin s 0 (- 1074)
      else let (n, d) = scaled m 1 (- e) in round64 s ((2 * n + d) div (2 * d)) 1)"
| "f64_round x = x"

fun f64_is_inf :: "float64 \<Rightarrow> bool" where
  "f64_is_inf (F_Inf _) = True"
| "f64_is_inf _ = False"

section \<open>The value of a finite float\<close>

fun f64_val :: "float64 \<Rightarrow> real" where
  "f64_val (F_Fin s m e) = of_int (signed_mant s m) * 2 powi e"
| "f64_val _ = 0"

fun f64_finite :: "float64 \<Rightarrow> bool" where
  "f64_finite (F_Fin _ _ _) = True"
| "f64_finite _ = False"

lemma aligned_vals:
  assumes "aligned s m e t n f = (a, b, g)"
  shows "of_int a * 2 powi g = f64_val (F_Fin s m e)"
    and "of_int b * 2 powi g = f64_val (F_Fin t n f)"
proof -
  have p: "(2::real) ^ nat (i - g) * 2 powi g = 2 powi i" if "g \<le> i" for i
  proof -
    have "(2::real) ^ nat (i - g) = 2 powi (i - g)" using that by (simp add: power_int_def)
    then show ?thesis by (simp flip: power_int_add)
  qed
  have "of_int a * 2 powi g = f64_val (F_Fin s m e) \<and> of_int b * 2 powi g = f64_val (F_Fin t n f)"
  proof (cases "m = 0 \<or> n = 0")
    case True
    with assms show ?thesis by (auto simp: aligned_def signed_mant_def split: if_splits)
  next
    case False
    with assms have g: "g = min e f" and a: "a = signed_mant s m * 2 ^ nat (e - g)"
      and b: "b = signed_mant t n * 2 ^ nat (f - g)"
      by (auto simp: aligned_def Let_def)
    show ?thesis
      using p [of e] p [of f] g by (simp add: a b mult.assoc)
  qed
  then show "of_int a * 2 powi g = f64_val (F_Fin s m e)"
    and "of_int b * 2 powi g = f64_val (F_Fin t n f)" by auto
qed

lemma f64_less_val:
  assumes "f64_finite x" and "f64_finite y"
  shows "f64_less x y \<longleftrightarrow> f64_val x < f64_val y"
proof -
  obtain s m e t n f where xy: "x = F_Fin s m e" "y = F_Fin t n f"
    using assms by (cases x; cases y) auto
  obtain a b g where al: "aligned s m e t n f = (a, b, g)" by (cases "aligned s m e t n f") auto
  have "a < b \<longleftrightarrow> of_int a * (2::real) powi g < of_int b * 2 powi g" by simp
  with aligned_vals [OF al] xy al show ?thesis by simp
qed

lemma f64_le_val:
  assumes "f64_finite x" and "f64_finite y"
  shows "f64_le x y \<longleftrightarrow> f64_val x \<le> f64_val y"
proof -
  obtain s m e t n f where xy: "x = F_Fin s m e" "y = F_Fin t n f"
    using assms by (cases x; cases y) auto
  obtain a b g where al: "aligned s m e t n f = (a, b, g)" by (cases "aligned s m e t n f") auto
  have "a \<le> b \<longleftrightarrow> of_int a * (2::real) powi g \<le> of_int b * 2 powi g" by simp
  with aligned_vals [OF al] xy al show ?thesis by simp
qed

lemma f64_less_irrefl [simp]: "\<not> f64_less x x"
  by (cases x) (auto simp: aligned_def signed_mant_def Let_def)

lemma f64_not_less:
  "x \<noteq> F_NaN \<Longrightarrow> y \<noteq> F_NaN \<Longrightarrow> \<not> f64_less x y \<longleftrightarrow> f64_le y x"
  by (cases x; cases y) (auto simp: aligned_def signed_mant_def Let_def min.commute)

lemma f64_le_refl: "x \<noteq> F_NaN \<Longrightarrow> f64_le x x"
  by (cases x) (auto simp: aligned_def signed_mant_def Let_def)

lemma f64_less_le: "f64_less x y \<Longrightarrow> f64_le x y"
  by (cases x; cases y) (auto simp: aligned_def Let_def split: if_splits)

lemma f64_le_not_NaN: "f64_le x y \<Longrightarrow> x \<noteq> F_NaN \<and> y \<noteq> F_NaN"
  by (cases x; cases y) auto

lemma f64_le_trans: "f64_le x y \<Longrightarrow> f64_le y z \<Longrightarrow> f64_le x z"
  using f64_le_val [of x y] f64_le_val [of y z] f64_le_val [of x z]
  by (cases x; cases y; cases z) (auto simp del: f64_le.simps(1))

section \<open>Decimal literals\<close>

text \<open>
  \<open>strconv.ParseFloat\<close> on a JSON number: sign, integer digits, fraction digits, exponent. The
  exponent accumulator stops growing at 10000, as in \<open>readFloat\<close>. \<open>None\<close> is \<open>ErrRange\<close>.
\<close>

definition sat_digits :: "string \<Rightarrow> nat" where
  "sat_digits s = foldl (\<lambda>n c. if n < 10000 then 10 * n + digit_val c else n) 0 s"

definition exp_part :: "string \<Rightarrow> int" where
  "exp_part s = (case s of
       [] \<Rightarrow> 0
     | _ # [] \<Rightarrow> 0
     | _ # c # cs \<Rightarrow>
         if c = CHR ''-'' then - int (sat_digits cs)
         else if c = CHR ''+'' then int (sat_digits cs) else int (sat_digits (c # cs)))"

definition parse_float :: "string \<Rightarrow> float64 option" where
  "parse_float s =
     (let (neg, r) = (case s of [] \<Rightarrow> (False, []) | c # cs \<Rightarrow> if c = CHR ''-'' then (True, cs) else (False, s));
          ip = takeWhile is_digit r;
          r1 = dropWhile is_digit r;
          (fp, r2) = (case r1 of [] \<Rightarrow> ([], [])
             | c # cs \<Rightarrow> if c = CHR ''.'' then (takeWhile is_digit cs, dropWhile is_digit cs)
                         else ([], r1));
          m = digits_val (ip @ fp);
          x = exp_part r2 - int (length fp);
          f = (if 0 \<le> x then round64 neg (m * 10 ^ nat x) 1 else round64 neg m (10 ^ nat (- x)))
      in if f64_is_inf f then None else Some f)"

section \<open>Rendering\<close>

definition pad_left :: "nat \<Rightarrow> string \<Rightarrow> string" where
  "pad_left w s = replicate (w - length s) (CHR ''0'') @ s"

text \<open>\<open>fmt\<close>'s \<open>%.Nf\<close>.\<close>

fun fixed_text :: "nat \<Rightarrow> float64 \<Rightarrow> string" where
  "fixed_text p (F_Fin s m e) =
     (let (n, d) = scaled (m * 10 ^ p) 1 (- e);
          ds = pad_left (p + 1) (nat_text (half_even n d));
          k = length ds - p
      in (if s then ''-'' else []) @ take k ds @ (if p = 0 then [] else CHR ''.'' # drop k ds))"
| "fixed_text p (F_Inf s) = (if s then ''-Inf'' else ''+Inf'')"
| "fixed_text p F_NaN = ''NaN''"

text \<open>
  The shortest decimal that reads back as the same float, as an integer and a power of ten. At each
  precision the two neighbouring decimals are tried; the nearer one wins when both read back.
  Seventeen digits always suffice; past them the exact expansion is used.
\<close>

definition dec_round :: "nat \<Rightarrow> int \<Rightarrow> float64" where
  "dec_round q t =
     (if 0 \<le> t then round64 False (q * 10 ^ nat t) 1 else round64 False q (10 ^ nat (- t)))"

fun neg_exp10 :: "nat \<Rightarrow> nat \<Rightarrow> nat \<Rightarrow> nat" where
  "neg_exp10 0 n d = 0"
| "neg_exp10 (Suc fuel) n d = (if n * 10 < d then Suc (neg_exp10 fuel (n * 10) d) else 0)"

definition dec_exp :: "nat \<Rightarrow> nat \<Rightarrow> int" where
  "dec_exp n d = (if d \<le> n then int (length (nat_text (n div d))) else - int (neg_exp10 400 n d))"

fun shortest_from :: "nat \<Rightarrow> nat \<Rightarrow> float64 \<Rightarrow> nat \<Rightarrow> nat \<Rightarrow> int \<Rightarrow> (nat \<times> int) option" where
  "shortest_from 0 p x n d k = None"
| "shortest_from (Suc fuel) p x n d k =
     (let t = k - int p;
          (a, b) = (if 0 \<le> t then (n, d * 10 ^ nat t) else (n * 10 ^ nat (- t), d));
          lo = a div b; hi = lo + 1;
          lo_ok = (dec_round lo t = x); hi_ok = (dec_round hi t = x)
      in if lo_ok \<and> hi_ok then Some (half_even a b, t)
         else if lo_ok then Some (lo, t)
         else if hi_ok then Some (hi, t)
         else shortest_from fuel (Suc p) x n d k)"

fun strip_zeros :: "nat \<Rightarrow> nat \<Rightarrow> int \<Rightarrow> nat \<times> int" where
  "strip_zeros 0 q t = (q, t)"
| "strip_zeros (Suc fuel) q t =
     (if q \<noteq> 0 \<and> q mod 10 = 0 then strip_zeros fuel (q div 10) (t + 1) else (q, t))"

definition shortest :: "nat \<Rightarrow> int \<Rightarrow> nat \<times> int" where
  "shortest m e =
     (let (n, d) = scaled m 1 (- e) in
      case shortest_from 17 1 (F_Fin False m e) n d (dec_exp n d) of
        Some (q, t) \<Rightarrow> strip_zeros 20 q t
      | None \<Rightarrow> if 0 \<le> e then (m * 2 ^ nat e, 0) else (m * 5 ^ nat (- e), e))"

definition plain_text :: "nat \<Rightarrow> int \<Rightarrow> string" where
  "plain_text q t =
     (let ds = nat_text q; k = int (length ds) + t in
      if k \<le> 0 then ''0.'' @ replicate (nat (- k)) (CHR ''0'') @ ds
      else if int (length ds) \<le> k then ds @ replicate (nat t) (CHR ''0'')
      else take (nat k) ds @ CHR ''.'' # drop (nat k) ds)"

definition exp_text :: "nat \<Rightarrow> int \<Rightarrow> string" where
  "exp_text q t =
     (let ds = nat_text q; x = int (length ds) + t - 1 in
      take 1 ds @ (if length ds = 1 then [] else CHR ''.'' # drop 1 ds) @
      (if x < 0 then ''e-'' @ nat_text (nat (- x)) else ''e+'' @ pad_left 2 (nat_text (nat x))))"

text \<open>
  \<open>encoding/json\<close>'s \<open>floatEncoder\<close>: plain notation between \<open>1e-6\<close> and \<open>1e21\<close>, exponent notation
  outside, with \<open>e-09\<close> cleaned up to \<open>e-9\<close>. Infinities and NaN are encoding errors.
\<close>

fun json_float :: "float64 \<Rightarrow> string option" where
  "json_float (F_Fin s m e) =
     Some ((if s then ''-'' else []) @
       (if m = 0 then ''0''
        else
          let (q, t) = shortest m e; x = F_Fin False m e in
          if f64_less x (round64 False 1 (10 ^ 6)) \<or> \<not> f64_less x (round64 False (10 ^ 21) 1)
          then exp_text q t else plain_text q t))"
| "json_float _ = None"

end
