(* ===== verification/GoHash.thy ===== *)
theory GoHash
  imports GoText
begin

text \<open>
  \<open>hash/fnv\<close>: the 32-bit and 64-bit FNV-1a hashes, as \<open>Write\<close> on a running sum. The locale
  \<open>stream_hash\<close> is what a client of \<open>hash.Hash\<close> relies on: several writes are one write of the
  concatenation.
\<close>

unbundle bit_operations_syntax

locale stream_hash =
  fixes wr :: "'h \<Rightarrow> string \<Rightarrow> 'h"
  assumes write_nil: "wr h [] = h"
    and write_append: "wr h (a @ b) = wr (wr h a) b"
begin

lemma write_concat: "foldl wr h ws = wr h (concat ws)"
  by (induction ws arbitrary: h) (simp_all add: write_nil write_append)

end

definition fnv32a_step :: "32 word \<Rightarrow> char \<Rightarrow> 32 word" where
  "fnv32a_step h c = (h XOR of_nat (byte_of c)) * 16777619"

definition fnv32a_write :: "32 word \<Rightarrow> string \<Rightarrow> 32 word" where
  "fnv32a_write h s = foldl fnv32a_step h s"

definition fnv32a :: "string \<Rightarrow> 32 word" where
  "fnv32a s = fnv32a_write 2166136261 s"

definition fnv64a_step :: "64 word \<Rightarrow> char \<Rightarrow> 64 word" where
  "fnv64a_step h c = (h XOR of_nat (byte_of c)) * 1099511628211"

definition fnv64a_write :: "64 word \<Rightarrow> string \<Rightarrow> 64 word" where
  "fnv64a_write h s = foldl fnv64a_step h s"

definition fnv64a_init :: "64 word" where
  "fnv64a_init = 14695981039346656037"

interpretation fnv32: stream_hash fnv32a_write
  by unfold_locales (simp_all add: fnv32a_write_def)

interpretation fnv64: stream_hash fnv64a_write
  by unfold_locales (simp_all add: fnv64a_write_def)

end
