(* ===== verification/GoJson.thy ===== *)
theory GoJson
  imports GoFloat
begin

text \<open>
  \<open>encoding/json\<close> as the program uses it. \<open>json_parse\<close> accepts exactly the texts \<open>json.Valid\<close> accepts
  (RFC 8259 with Go's limit of 10000 nested containers) and keeps, beside every array element and
  object member, the bytes it was read from: a \<open>json.RawMessage\<close> is such a slice. The typed decoders
  follow \<open>Unmarshal\<close>: members in order, field names matched exactly and then by case folding, null
  leaving a plain field alone, a type mismatch recorded and decoding carried on. The encoders follow
  \<open>Marshal\<close>: sorted map keys, HTML-escaped strings, raw messages compacted and HTML-escaped.
\<close>

datatype json =
    JNull
  | JBool bool
  | JNum string
  | JStr string
  | JArr "(string \<times> json) list"
  | JObj "(string \<times> string \<times> json) list"

abbreviation dquote :: char where
  "dquote \<equiv> CHR 0x22"

abbreviation backslash :: char where
  "backslash \<equiv> CHR 0x5C"

section \<open>Lexical level\<close>

definition json_ws :: "char \<Rightarrow> bool" where
  "json_ws c \<longleftrightarrow> c = CHR '' '' \<or> c = CHR 0x09 \<or> c = CHR 0x0A \<or> c = CHR 0x0D"

definition skip_ws :: "string \<Rightarrow> string" where
  "skip_ws s = dropWhile json_ws s"

definition is_hex :: "char \<Rightarrow> bool" where
  "is_hex c \<longleftrightarrow> (let b = byte_of c in
     48 \<le> b \<and> b \<le> 57 \<or> 65 \<le> b \<and> b \<le> 70 \<or> 97 \<le> b \<and> b \<le> 102)"

definition hex_val :: "char \<Rightarrow> nat" where
  "hex_val c = (let b = byte_of c in if b \<le> 57 then b - 48 else if b \<le> 70 then b - 55 else b - 87)"

definition simple_escape :: "char \<Rightarrow> bool" where
  "simple_escape c \<longleftrightarrow> c \<in> set [dquote, backslash, CHR ''/'', CHR ''b'', CHR ''f'', CHR ''n'', CHR ''r'', CHR ''t'']"

text \<open>After an opening quote: the raw contents up to the closing quote, and what follows it.\<close>

fun json_string :: "string \<Rightarrow> (string \<times> string) option" where
  "json_string [] = None"
| "json_string (c # cs) =
     (if c = dquote then Some ([], cs)
      else if c = backslash then
        (case cs of
           [] \<Rightarrow> None
         | e # cs' \<Rightarrow>
             if simple_escape e then map_option (apfst (\<lambda>r. c # e # r)) (json_string cs')
             else if e = CHR ''u'' then
               (case cs' of
                  h1 # h2 # h3 # h4 # cs'' \<Rightarrow>
                    if is_hex h1 \<and> is_hex h2 \<and> is_hex h3 \<and> is_hex h4
                    then map_option (apfst (\<lambda>r. c # e # h1 # h2 # h3 # h4 # r)) (json_string cs'')
                    else None
                | _ \<Rightarrow> None)
             else None)
      else if byte_of c < 32 then None
      else map_option (apfst ((#) c)) (json_string cs))"

text \<open>A number literal at the head of the text, and the rest.\<close>

definition json_int_part :: "string \<Rightarrow> (string \<times> string) option" where
  "json_int_part s =
     (case s of
        [] \<Rightarrow> None
      | c # cs \<Rightarrow>
          if c = CHR ''0'' then Some ([c], cs)
          else if is_digit c then Some (takeWhile is_digit s, dropWhile is_digit s)
          else None)"

definition json_frac_part :: "string \<Rightarrow> (string \<times> string) option" where
  "json_frac_part s =
     (case s of
        [] \<Rightarrow> Some ([], [])
      | c # cs \<Rightarrow>
          if c = CHR ''.'' then
            (if takeWhile is_digit cs = [] then None
             else Some (c # takeWhile is_digit cs, dropWhile is_digit cs))
          else Some ([], s))"

definition json_exp_part :: "string \<Rightarrow> (string \<times> string) option" where
  "json_exp_part s =
     (case s of
        [] \<Rightarrow> Some ([], [])
      | c # cs \<Rightarrow>
          if c = CHR ''e'' \<or> c = CHR ''E'' then
            (let (sg, ds) = (case cs of [] \<Rightarrow> ([], []) | d # t \<Rightarrow>
                if d = CHR ''+'' \<or> d = CHR ''-'' then ([d], t) else ([], cs))
             in if takeWhile is_digit ds = [] then None
                else Some (c # sg @ takeWhile is_digit ds, dropWhile is_digit ds))
          else Some ([], s))"

definition json_number :: "string \<Rightarrow> (string \<times> string) option" where
  "json_number s =
     (let (sg, t) = (case s of [] \<Rightarrow> ([], []) | c # cs \<Rightarrow> if c = CHR ''-'' then ([c], cs) else ([], s))
      in case json_int_part t of
           None \<Rightarrow> None
         | Some (i, u) \<Rightarrow>
             (case json_frac_part u of
                None \<Rightarrow> None
              | Some (f, v) \<Rightarrow>
                  (case json_exp_part v of
                     None \<Rightarrow> None
                   | Some (x, w) \<Rightarrow> Some (sg @ i @ f @ x, w))))"

section \<open>Unquoting\<close>

definition hex4 :: "char \<Rightarrow> char \<Rightarrow> char \<Rightarrow> char \<Rightarrow> nat" where
  "hex4 a b c d = ((hex_val a * 16 + hex_val b) * 16 + hex_val c) * 16 + hex_val d"

text \<open>\<open>getu4\<close>: a \<open>\uXXXX\<close> escape at the head of the text.\<close>

definition get_u4 :: "string \<Rightarrow> nat option" where
  "get_u4 s =
     (case s of
        e # u # a # b # c # d # _ \<Rightarrow>
          if e = backslash \<and> u = CHR ''u'' \<and> is_hex a \<and> is_hex b \<and> is_hex c \<and> is_hex d
          then Some (hex4 a b c d) else None
      | _ \<Rightarrow> None)"

definition escape_value :: "char \<Rightarrow> char" where
  "escape_value c =
     (if c = CHR ''b'' then CHR 0x08 else if c = CHR ''f'' then CHR 0x0C
      else if c = CHR ''n'' then CHR 0x0A else if c = CHR ''r'' then CHR 0x0D
      else if c = CHR ''t'' then CHR 0x09 else c)"

text \<open>
  One step of \<open>unquoteBytes\<close>: the output for the text's first item and how many bytes it took. A
  surrogate pair of escapes is one rune, a lone surrogate is U+FFFD, and so is an invalid byte.
\<close>

definition unquote_step :: "string \<Rightarrow> string \<times> nat" where
  "unquote_step s =
     (case s of
        [] \<Rightarrow> ([], 0)
      | c # cs \<Rightarrow>
          if c = backslash then
            (case get_u4 s of
               Some r \<Rightarrow>
                 if 55296 \<le> r \<and> r \<le> 57343 then
                   (case get_u4 (drop 6 s) of
                      Some r1 \<Rightarrow>
                        if r < 56320 \<and> 56320 \<le> r1 \<and> r1 \<le> 57343
                        then (encode_rune ((r - 55296) * 1024 + (r1 - 56320) + 65536), 12)
                        else (encode_rune rune_error, 6)
                    | None \<Rightarrow> (encode_rune rune_error, 6))
                 else (encode_rune r, 6)
             | None \<Rightarrow> (case cs of [] \<Rightarrow> ([], 1)
                      | e # _ \<Rightarrow> ((if simple_escape e then [escape_value e] else []), 2)))
          else if byte_of c < 128 then ([c], 1)
          else (case decode_rune s of (r, w) \<Rightarrow> (encode_rune r, max 1 w)))"

lemma unquote_step_width: "s \<noteq> [] \<Longrightarrow> 0 < snd (unquote_step s)"
  by (cases s) (auto simp: unquote_step_def split: option.splits list.splits prod.splits)

function unquote :: "string \<Rightarrow> string" where
  "unquote s = (if s = [] then [] else (case unquote_step s of (out, w) \<Rightarrow> out @ unquote (drop w s)))"
  by pat_completeness auto
termination
proof (relation "measure length", goal_cases)
  case (2 s p w)
  then have "0 < w" using unquote_step_width [of s] by (metis snd_conv)
  with 2 show ?case by (cases s) auto
qed simp

declare unquote.simps [simp del]

lemma unquote_Nil [simp]: "unquote [] = []"
  by (simp add: unquote.simps)

lemma unquote_plain [simp]:
  "byte_of c < 128 \<Longrightarrow> c \<noteq> backslash \<Longrightarrow> unquote (c # s) = c # unquote s"
  by (subst unquote.simps) (simp add: unquote_step_def)

section \<open>Values\<close>

definition max_depth :: nat where
  "max_depth = 10000"

text \<open>
  Recursive descent. The fuel counts calls; \<open>json_fuel\<close> gives two per byte, and lemma
  \<open>json_fuel_enough\<close> shows that more never changes the result. \<open>d\<close> is how many containers may still
  be opened.
\<close>

fun json_value :: "nat \<Rightarrow> nat \<Rightarrow> string \<Rightarrow> (json \<times> string) option"
  and json_elems :: "nat \<Rightarrow> nat \<Rightarrow> string \<Rightarrow> ((string \<times> json) list \<times> string) option"
  and json_members :: "nat \<Rightarrow> nat \<Rightarrow> string \<Rightarrow> ((string \<times> string \<times> json) list \<times> string) option"
where
  "json_value 0 d s = None"
| "json_value (Suc n) d s =
     (case s of
        [] \<Rightarrow> None
      | c # cs \<Rightarrow>
          if c = dquote then map_option (apfst (\<lambda>r. JStr (unquote r))) (json_string cs)
          else if c = CHR ''['' then
            (if d = 0 then None
             else case skip_ws cs of
                    [] \<Rightarrow> None
                  | b # t \<Rightarrow> if b = CHR '']'' then Some (JArr [], t)
                             else map_option (apfst JArr) (json_elems n (d - 1) (b # t)))
          else if c = CHR ''{'' then
            (if d = 0 then None
             else case skip_ws cs of
                    [] \<Rightarrow> None
                  | b # t \<Rightarrow> if b = CHR ''}'' then Some (JObj [], t)
                             else map_option (apfst JObj) (json_members n (d - 1) (b # t)))
          else if has_prefix ''true'' s then Some (JBool True, drop 4 s)
          else if has_prefix ''false'' s then Some (JBool False, drop 5 s)
          else if has_prefix ''null'' s then Some (JNull, drop 4 s)
          else map_option (apfst JNum) (json_number s))"
| "json_elems 0 d s = None"
| "json_elems (Suc n) d s =
     (case json_value n d s of
        None \<Rightarrow> None
      | Some (v, t) \<Rightarrow>
          (let raw = take (length s - length t) s in
           case skip_ws t of
             [] \<Rightarrow> None
           | b # u \<Rightarrow>
               if b = CHR '','' then map_option (apfst ((#) (raw, v))) (json_elems n d (skip_ws u))
               else if b = CHR '']'' then Some ([(raw, v)], u)
               else None))"
| "json_members 0 d s = None"
| "json_members (Suc n) d s =
     (case s of
        [] \<Rightarrow> None
      | c # cs \<Rightarrow>
          if c \<noteq> dquote then None
          else case json_string cs of
                 None \<Rightarrow> None
               | Some (k, t0) \<Rightarrow>
                   (case skip_ws t0 of
                      [] \<Rightarrow> None
                    | b0 # t1 \<Rightarrow>
                        if b0 \<noteq> CHR '':'' then None
                        else
                          (let vs = skip_ws t1 in
                           case json_value n d vs of
                             None \<Rightarrow> None
                           | Some (v, t) \<Rightarrow>
                               (let raw = take (length vs - length t) vs in
                                case skip_ws t of
                                  [] \<Rightarrow> None
                                | b # u \<Rightarrow>
                                    if b = CHR '','' then
                                      map_option (apfst ((#) (unquote k, raw, v)))
                                        (json_members n d (skip_ws u))
                                    else if b = CHR ''}'' then Some ([(unquote k, raw, v)], u)
                                    else None))))"

definition json_fuel :: "string \<Rightarrow> nat" where
  "json_fuel s = 2 * length s + 2"

text \<open>A whole text: one value, white space around it, and its own bytes.\<close>

definition json_parse :: "string \<Rightarrow> (string \<times> json) option" where
  "json_parse s =
     (let t = skip_ws s in
      case json_value (json_fuel t) max_depth t of
        None \<Rightarrow> None
      | Some (v, u) \<Rightarrow> if skip_ws u = [] then Some (take (length t - length u) t, v) else None)"

section \<open>Every parser consumes a prefix\<close>

text \<open>
  The scanner's view of a text: outside strings, inside one, after a backslash. \<open>lex\<close> runs it and
  fails on a control character inside a string.
\<close>

datatype scan = Outside | InString | AfterBackslash

fun scan_next :: "scan \<Rightarrow> char \<Rightarrow> scan" where
  "scan_next Outside c = (if c = dquote then InString else Outside)"
| "scan_next InString c =
     (if c = dquote then Outside else if c = backslash then AfterBackslash else InString)"
| "scan_next AfterBackslash c = InString"

fun lex :: "scan \<Rightarrow> string \<Rightarrow> scan option" where
  "lex st [] = Some st"
| "lex st (c # cs) = (if st \<noteq> Outside \<and> byte_of c < 32 then None else lex (scan_next st c) cs)"

lemma lex_append: "lex st (s @ t) = (case lex st s of None \<Rightarrow> None | Some st' \<Rightarrow> lex st' t)"
  by (induction s arbitrary: st) auto

lemma lex_no_quote: "dquote \<notin> set s \<Longrightarrow> lex Outside s = Some Outside"
  by (induction s) auto

lemma json_ws_ne_quote: "json_ws c \<Longrightarrow> c \<noteq> dquote"
  by (auto simp: json_ws_def)

lemma simple_escape_lex: "simple_escape e \<Longrightarrow> 32 \<le> byte_of e"
  by (auto simp: simple_escape_def byte_of_def)

lemma is_hex_lex: "is_hex h \<Longrightarrow> 32 \<le> byte_of h \<and> h \<noteq> dquote \<and> h \<noteq> backslash"
  by (auto simp: is_hex_def Let_def byte_of_def)

lemma json_string_lex:
  "json_string s = Some (r, t) \<Longrightarrow> \<exists>p. p \<noteq> [] \<and> s = p @ t \<and> lex InString p = Some Outside"
proof (induction s arbitrary: r t rule: json_string.induct)
  case 1
  then show ?case by simp
next
  case (2 c cs)
  show ?case
  proof (cases "c = dquote")
    case True
    with "2.prems" show ?thesis by (intro exI [of _ "[c]"]) (simp add: byte_of_def)
  next
    case nq: False
    show ?thesis
    proof (cases "c = backslash")
      case bs: True
      with nq "2.prems" obtain e cs' where cs: "cs = e # cs'"
        by (auto split: list.splits)
      show ?thesis
      proof (cases "simple_escape e")
        case True
        with nq bs cs "2.prems" obtain r' where "json_string cs' = Some (r', t)" by auto
        from "2.IH"(1) [OF nq bs cs True this] obtain p where "cs' = p @ t" "lex InString p = Some Outside" by blast
        with cs bs True show ?thesis
          by (intro exI [of _ "c # e # p"]) (simp add: byte_of_def [of backslash] simple_escape_lex leD)
      next
        case False
        with nq bs cs "2.prems" obtain h1 h2 h3 h4 u r' where
          u: "e = CHR ''u''" "cs' = h1 # h2 # h3 # h4 # u"
             "is_hex h1 \<and> is_hex h2 \<and> is_hex h3 \<and> is_hex h4" "json_string u = Some (r', t)"
          by (auto split: if_splits list.splits)
        from "2.IH"(2) [OF nq bs cs False u(1) u(2) refl refl refl u(3) u(4)]
        obtain p where "u = p @ t" "lex InString p = Some Outside" by blast
        with cs u bs show ?thesis
          by (intro exI [of _ "c # e # h1 # h2 # h3 # h4 # p"])
             (simp add: byte_of_def [of backslash] byte_of_def [of "CHR ''u''"] is_hex_lex leD)
      qed
    next
      case False
      with nq "2.prems" obtain r' where c: "\<not> byte_of c < 32" "json_string cs = Some (r', t)"
        by (auto split: if_splits)
      from "2.IH"(3) [OF nq False c] obtain p where "cs = p @ t" "lex InString p = Some Outside" by blast
      with c nq False show ?thesis by (intro exI [of _ "c # p"]) simp
    qed
  qed
qed

lemma json_string_suffix: "json_string s = Some (r, t) \<Longrightarrow> \<exists>p. p \<noteq> [] \<and> s = p @ t"
  using json_string_lex by blast

definition number_char :: "char \<Rightarrow> bool" where
  "number_char c \<longleftrightarrow> is_digit c \<or> c \<in> set ''+-.eE''"

lemma is_digit_number: "is_digit c \<Longrightarrow> number_char c"
  by (simp add: number_char_def)

lemma takeWhile_digit_number [simp]: "list_all number_char (takeWhile is_digit s)"
  by (auto simp: list_all_iff number_char_def dest: set_takeWhileD)

lemma json_int_part_split:
  "json_int_part s = Some (i, t) \<Longrightarrow> s = i @ t \<and> i \<noteq> [] \<and> list_all number_char i"
  using takeWhile_digit_number [of s]
  by (cases s) (auto simp: json_int_part_def number_char_def is_digit_def byte_of_def simp del: takeWhile_digit_number
      split: if_splits)

lemma json_frac_part_split:
  "json_frac_part s = Some (f, t) \<Longrightarrow> s = f @ t \<and> list_all number_char f"
  by (auto simp: json_frac_part_def number_char_def [of "CHR ''.''"] split: list.splits if_splits)

lemma json_exp_part_split:
  assumes "json_exp_part s = Some (x, t)"
  shows "s = x @ t \<and> list_all number_char x"
proof (cases s)
  case Nil
  with assms show ?thesis by (simp add: json_exp_part_def)
next
  case (Cons c cs)
  then show ?thesis
    using assms
    by (cases cs)
       (auto simp: json_exp_part_def Let_def number_char_def [of "CHR ''e''"] number_char_def [of "CHR ''E''"]
         number_char_def [of "CHR ''+''"] number_char_def [of "CHR ''-''"] is_digit_number split: if_split_asm)
qed

text \<open>The number literal is exactly the bytes it was read from.\<close>

lemma json_number_split:
  assumes "json_number s = Some (l, t)"
  shows "s = l @ t \<and> l \<noteq> [] \<and> list_all number_char l"
proof -
  obtain sg u where sg: "(case s of [] \<Rightarrow> ([], []) | c # cs \<Rightarrow> if c = CHR ''-'' then ([c], cs) else ([], s)) = (sg, u)"
    by fastforce
  then have s: "s = sg @ u \<and> list_all number_char sg"
    by (cases s) (auto simp: number_char_def [of "CHR ''-''"] split: if_split_asm)
  from assms sg obtain i v f w x where
    "json_int_part u = Some (i, v)" "json_frac_part v = Some (f, w)" "json_exp_part w = Some (x, t)"
    "l = sg @ i @ f @ x"
    by (simp add: json_number_def split: option.split_asm prod.split_asm)
  with json_int_part_split [of u i v] json_frac_part_split [of v f w] json_exp_part_split [of w x t] s
  show ?thesis by simp
qed

lemma skip_ws_suffix: "\<exists>p. s = p @ skip_ws s"
  unfolding skip_ws_def by (metis takeWhile_dropWhile_id)

lemma has_prefix_append: "has_prefix p s \<Longrightarrow> s = p @ drop (length p) s"
  by (metis append_take_drop_id has_prefix_def)

text \<open>\<open>consumes s t\<close>: \<open>t\<close> is left of \<open>s\<close> after a non-empty prefix whose strings are closed and clean.\<close>

definition consumes :: "string \<Rightarrow> string \<Rightarrow> bool" where
  "consumes s t \<longleftrightarrow> (\<exists>p. p \<noteq> [] \<and> s = p @ t \<and> lex Outside p = Some Outside)"

lemma consumes_length: "consumes s t \<Longrightarrow> length t < length s"
  by (auto simp: consumes_def)

lemma consumes_raw: "consumes s t \<Longrightarrow> s = take (length s - length t) s @ t"
  by (auto simp: consumes_def)

lemma consumes_lex: "consumes s t \<Longrightarrow> lex Outside (take (length s - length t) s) = Some Outside"
  by (auto simp: consumes_def)

lemma consumes_trans:
  assumes "consumes s t" and "consumes t u"
  shows "consumes s u"
proof -
  from assms obtain p q where "s = p @ t" "p \<noteq> []" "lex Outside p = Some Outside"
    "t = q @ u" "lex Outside q = Some Outside"
    by (auto simp: consumes_def)
  then have "s = (p @ q) @ u" "p @ q \<noteq> []" "lex Outside (p @ q) = Some Outside"
    by (simp_all add: lex_append)
  then show ?thesis unfolding consumes_def by blast
qed

lemma skip_ws_lex: "\<exists>q. t = q @ skip_ws t \<and> lex Outside q = Some Outside"
proof -
  have "lex Outside (takeWhile json_ws t) = Some Outside"
    by (rule lex_no_quote) (use json_ws_ne_quote in \<open>auto dest: set_takeWhileD\<close>)
  then show ?thesis unfolding skip_ws_def by (metis takeWhile_dropWhile_id)
qed

lemma consumes_ws:
  assumes "consumes s t" and "skip_ws t = u"
  shows "consumes s u"
proof -
  from assms(1) obtain p where p: "p \<noteq> []" "s = p @ t" "lex Outside p = Some Outside"
    by (auto simp: consumes_def)
  obtain q where "t = q @ u" "lex Outside q = Some Outside" using skip_ws_lex [of t] assms(2) by blast
  with p have "p @ q \<noteq> []" and "s = (p @ q) @ u" and "lex Outside (p @ q) = Some Outside"
    by (simp_all add: lex_append)
  then show ?thesis unfolding consumes_def by blast
qed

lemma consumes_hd: "c \<noteq> dquote \<Longrightarrow> consumes (c # s) s"
  unfolding consumes_def by (rule exI [of _ "[c]"]) simp

lemma consumes_Cons: "consumes s (c # u) \<Longrightarrow> c \<noteq> dquote \<Longrightarrow> consumes s u"
  using consumes_trans consumes_hd by blast

lemma consumes_hd_ws: "skip_ws s = b # t \<Longrightarrow> c \<noteq> dquote \<Longrightarrow> consumes (c # s) (b # t)"
  using consumes_ws [OF consumes_hd] by blast

lemma consumes_prefix:
  "has_prefix p s \<Longrightarrow> p \<noteq> [] \<Longrightarrow> dquote \<notin> set p \<Longrightarrow> length p = k \<Longrightarrow> consumes s (drop k s)"
  using has_prefix_append [of p s] lex_no_quote [of p] by (auto simp: consumes_def)

lemma json_string_consumes: "json_string s = Some (r, t) \<Longrightarrow> consumes (dquote # s) t"
proof -
  assume "json_string s = Some (r, t)"
  from json_string_lex [OF this] obtain p where "s = p @ t" "lex InString p = Some Outside" by blast
  then show "consumes (dquote # s) t"
    unfolding consumes_def by (intro exI [of _ "dquote # p"]) simp
qed

lemma json_number_consumes: "json_number s = Some (r, t) \<Longrightarrow> consumes s t"
proof -
  assume "json_number s = Some (r, t)"
  from json_number_split [OF this] have r: "s = r @ t" "r \<noteq> []" "list_all number_char r" by auto
  have "dquote \<notin> set r"
    using r(3) by (auto simp: list_all_iff number_char_def is_digit_def byte_of_def)
  with r lex_no_quote show ?thesis unfolding consumes_def by blast
qed

text \<open>
  The successful runs of the parser as relations: one rule for each way a value, the elements of an
  array or the members of an object are read, without the failing branches. What holds of every
  accepted text is proved by induction on them.
\<close>

inductive value_run :: "nat \<Rightarrow> nat \<Rightarrow> string \<Rightarrow> json \<Rightarrow> string \<Rightarrow> bool"
  and elems_run :: "nat \<Rightarrow> nat \<Rightarrow> string \<Rightarrow> (string \<times> json) list \<Rightarrow> string \<Rightarrow> bool"
  and members_run :: "nat \<Rightarrow> nat \<Rightarrow> string \<Rightarrow> (string \<times> string \<times> json) list \<Rightarrow> string \<Rightarrow> bool"
where
  run_str: "json_string cs = Some (q, t) \<Longrightarrow> value_run (Suc n) d (dquote # cs) (JStr (unquote q)) t"
| run_bool: "has_prefix (if b then ''true'' else ''false'') s \<Longrightarrow>
    value_run (Suc n) d s (JBool b) (drop (if b then 4 else 5) s)"
| run_null: "has_prefix ''null'' s \<Longrightarrow> value_run (Suc n) d s JNull (drop 4 s)"
| run_num: "json_number s = Some (l, t) \<Longrightarrow> value_run (Suc n) d s (JNum l) t"
| run_arr0: "skip_ws cs = CHR '']'' # t \<Longrightarrow> value_run (Suc n) (Suc d) (CHR ''['' # cs) (JArr []) t"
| run_arr: "skip_ws cs = b # u \<Longrightarrow> b \<noteq> CHR '']'' \<Longrightarrow> elems_run n d (b # u) es t \<Longrightarrow>
    value_run (Suc n) (Suc d) (CHR ''['' # cs) (JArr es) t"
| run_obj0: "skip_ws cs = CHR ''}'' # t \<Longrightarrow> value_run (Suc n) (Suc d) (CHR ''{'' # cs) (JObj []) t"
| run_obj: "skip_ws cs = b # u \<Longrightarrow> b \<noteq> CHR ''}'' \<Longrightarrow> members_run n d (b # u) ms t \<Longrightarrow>
    value_run (Suc n) (Suc d) (CHR ''{'' # cs) (JObj ms) t"
| run_elem1: "value_run n d s v t1 \<Longrightarrow> skip_ws t1 = CHR '']'' # t \<Longrightarrow>
    elems_run (Suc n) d s [(take (length s - length t1) s, v)] t"
| run_elem: "value_run n d s v t1 \<Longrightarrow> skip_ws t1 = CHR '','' # u \<Longrightarrow> elems_run n d (skip_ws u) es t \<Longrightarrow>
    elems_run (Suc n) d s ((take (length s - length t1) s, v) # es) t"
| run_member1: "json_string cs = Some (k, t0) \<Longrightarrow> skip_ws t0 = CHR '':'' # t1 \<Longrightarrow> s = skip_ws t1 \<Longrightarrow>
    value_run n d s v t2 \<Longrightarrow> skip_ws t2 = CHR ''}'' # t \<Longrightarrow>
    members_run (Suc n) d (dquote # cs) [(unquote k, take (length s - length t2) s, v)] t"
| run_member: "json_string cs = Some (k, t0) \<Longrightarrow> skip_ws t0 = CHR '':'' # t1 \<Longrightarrow> s = skip_ws t1 \<Longrightarrow>
    value_run n d s v t2 \<Longrightarrow> skip_ws t2 = CHR '','' # u \<Longrightarrow> members_run n d (skip_ws u) ms t \<Longrightarrow>
    members_run (Suc n) d (dquote # cs) ((unquote k, take (length s - length t2) s, v) # ms) t"

lemmas run_inducts = value_run_elems_run_members_run.inducts

lemma parser_runs:
  "json_value n d s = Some (v, t) \<Longrightarrow> value_run n d s v t"
  "json_elems n d s = Some (es, t) \<Longrightarrow> elems_run n d s es t"
  "json_members n d s = Some (ms, t) \<Longrightarrow> members_run n d s ms t"
proof (induction n d s and n d s and n d s arbitrary: v t and es t and ms t
    rule: json_value_json_elems_json_members.induct)
  case (2 n d s)
  obtain c cs where s: "s = c # cs" using "2.prems" by (cases s) auto
  consider "c = CHR ''[''" | "c = CHR ''{''" | "c \<noteq> CHR ''[''" "c \<noteq> CHR ''{''" by blast
  then show ?case
  proof cases
    case 1
    with "2.prems" s obtain b u d' where b: "skip_ws cs = b # u" "d = Suc d'"
      by (cases d) (auto split: list.splits)
    with 1 "2.prems" s "2.IH"(1) [OF s _ 1 _ b(1)] show ?thesis
      by (cases "b = CHR '']''") (auto intro: run_arr0 run_arr)
  next
    case 2
    with "2.prems" s obtain b u d' where b: "skip_ws cs = b # u" "d = Suc d'"
      by (cases d) (auto split: list.splits)
    with 2 "2.prems" s "2.IH"(2) [OF s _ _ 2 _ b(1)] show ?thesis
      by (cases "b = CHR ''}''") (auto intro: run_obj0 run_obj)
  next
    case 3
    with "2.prems" s run_bool [of True s n d] run_bool [of False s n d] run_null [of s n d] show ?thesis
      by (auto simp del: drop_Suc_Cons intro: run_str run_num split: if_splits)
  qed
next
  case (4 n d s)
  from "4.prems" obtain v t1 b u where v: "json_value n d s = Some (v, t1)" "skip_ws t1 = b # u"
    by (auto simp: Let_def split: option.splits list.splits)
  with "4.prems" "4.IH"(1) [OF v(1)] "4.IH"(2) [OF v(1) refl refl v(2)] show ?case
    by (cases "b = CHR '',''") (auto simp: Let_def intro: run_elem run_elem1 split: if_splits)
next
  case (6 n d s)
  from "6.prems" obtain cs k t0 t1 v t2 b u where
    s: "s = dquote # cs" and m: "json_string cs = Some (k, t0)" "skip_ws t0 = CHR '':'' # t1"
       "json_value n d (skip_ws t1) = Some (v, t2)" "skip_ws t2 = b # u"
    by (auto simp: Let_def split: option.splits list.splits if_splits)
  have V: "value_run n d (skip_ws t1) v t2" using "6.IH"(1) [OF s _ m(1) refl m(2) _ refl m(3)] by simp
  show ?case
    using "6.prems" s m "6.IH"(2) [OF s _ m(1) refl m(2) _ refl m(3) refl refl m(4)]
      run_member1 [OF m(1,2) refl V] run_member [OF m(1,2) refl V]
    by (cases "b = CHR '',''") (auto simp: Let_def split: if_splits)
qed simp_all

lemma consumes_punct: "consumes s t \<Longrightarrow> skip_ws t = c # u \<Longrightarrow> c \<noteq> dquote \<Longrightarrow> consumes s u"
  by (blast intro: consumes_ws consumes_Cons)

lemma consumes_key:
  assumes "json_string cs = Some (k, t0)" and "skip_ws t0 = CHR '':'' # t1" and "consumes (skip_ws t1) t2"
  shows "consumes (dquote # cs) t2"
  using consumes_punct [OF json_string_consumes [OF assms(1)] assms(2)] assms(3)
  by (auto intro: consumes_ws consumes_trans)

lemma runs_consume:
  "value_run n d s v t \<Longrightarrow> consumes s t"
  "elems_run n d s es t \<Longrightarrow> consumes s t"
  "members_run n d s ms t \<Longrightarrow> consumes s t"
proof (induction rule: run_inducts)
  case (run_str cs q t n d)
  then show ?case by (blast intro: json_string_consumes)
next
  case (run_bool b s n d)
  then show ?case by (cases b) (auto intro: consumes_prefix)
next
  case (run_null s n d)
  then show ?case by (auto intro: consumes_prefix)
next
  case (run_num s l t n d)
  then show ?case by (blast intro: json_number_consumes)
next
  case (run_member1 cs k t0 t1 s n d v t2 t)
  then show ?case using consumes_key [OF run_member1(1,2)] by (auto intro: consumes_punct)
next
  case (run_member cs k t0 t1 s n d v t2 u ms t)
  then have "consumes (dquote # cs) u" using consumes_key [OF run_member(1,2)] by (auto intro: consumes_punct)
  with run_member show ?case by (blast intro: consumes_trans consumes_ws)
next
  case (run_elem n d s v t1 u es t)
  then have "consumes s u" by (auto intro: consumes_punct)
  with run_elem show ?case by (blast intro: consumes_trans consumes_ws)
qed (auto intro: consumes_punct consumes_hd consumes_trans [OF consumes_hd_ws])


lemmas runs_length = runs_consume [THEN consumes_length]

lemma json_string_length: "json_string s = Some (r, t) \<Longrightarrow> length t \<le> length s"
  using consumes_length [OF json_string_consumes] by fastforce

lemma json_consumes:
  "json_value n d s = Some (v, t) \<Longrightarrow> consumes s t"
  "json_elems n d s = Some (es, t) \<Longrightarrow> consumes s t"
  "json_members n d s = Some (ms, t) \<Longrightarrow> consumes s t"
  by (blast dest: parser_runs runs_consume)+

section \<open>The fuel is enough\<close>

lemma length_skip_ws: "length (skip_ws s) \<le> length s"
  by (simp add: skip_ws_def length_dropWhile_le)

lemma json_number_hd:
  assumes "json_number s = Some r"
  obtains c cs where "s = c # cs" "c \<notin> {dquote, CHR ''['', CHR ''{'', CHR ''t'', CHR ''f'', CHR ''n''}"
proof -
  obtain l t where r: "r = (l, t)" by fastforce
  with json_number_split [of s l t] assms have l: "s = l @ t" "l \<noteq> []" "list_all number_char l" by auto
  then obtain c cs where "l = c # cs" by (cases l) auto
  with l(3) have "c \<notin> {dquote, CHR ''['', CHR ''{'', CHR ''t'', CHR ''f'', CHR ''n''}"
    by (auto simp: number_char_def is_digit_def byte_of_def)
  with l(1) \<open>l = c # cs\<close> that [of c "cs @ t"] show ?thesis by simp
qed

text \<open>
  A run can be repeated with other fuel, when there is at least as much or enough for the bytes it
  consumes, and with a larger bound on the nesting.
\<close>

lemma runs_parse:
  "value_run n d s v t \<Longrightarrow> n \<le> n' \<or> 2 * length s \<le> 2 * length t + n' + 1 \<Longrightarrow> d \<le> d' \<Longrightarrow>
   json_value n' d' s = Some (v, t)"
  "elems_run n d s es t \<Longrightarrow> n \<le> n' \<or> 2 * length s \<le> 2 * length t + n' \<Longrightarrow> d \<le> d' \<Longrightarrow>
   json_elems n' d' s = Some (es, t)"
  "members_run n d s ms t \<Longrightarrow> n \<le> n' \<or> 2 * length s \<le> 2 * length t + n' \<Longrightarrow> d \<le> d' \<Longrightarrow>
   json_members n' d' s = Some (ms, t)"
proof (induction arbitrary: n' d' and n' d' and n' d' rule: run_inducts)
  case (run_str cs q t n d)
  with runs_length(1) [OF value_run_elems_run_members_run.run_str [OF run_str(1)]] show ?case by (cases n') auto
next
  case (run_bool b s n d)
  then obtain u where "s = (if b then ''true'' else ''false'') @ u" using has_prefix_append by blast
  with run_bool show ?case by (cases n'; cases b) (auto simp: has_prefix_def)
next
  case (run_null s n d)
  then obtain u where "s = ''null'' @ u" using has_prefix_append by blast
  with run_null show ?case by (cases n') (auto simp: has_prefix_def)
next
  case (run_num s l t n d)
  from run_num(1) obtain c cs where "s = c # cs"
    "c \<notin> {dquote, CHR ''['', CHR ''{'', CHR ''t'', CHR ''f'', CHR ''n''}"
    by (rule json_number_hd)
  with run_num consumes_length [OF json_number_consumes [OF run_num(1)]] show ?case
    by (cases n') (auto simp: has_prefix_def)
next
  case (run_arr0 cs t n d)
  with length_skip_ws [of cs] show ?case by (cases n'; cases d') auto
next
  case (run_arr cs b u n d es t)
  with length_skip_ws [of cs] runs_length(2) [OF run_arr(3)] show ?case by (cases n'; cases d') auto
next
  case (run_obj0 cs t n d)
  with length_skip_ws [of cs] show ?case by (cases n'; cases d') auto
next
  case (run_obj cs b u n d ms t)
  with length_skip_ws [of cs] runs_length(3) [OF run_obj(3)] show ?case by (cases n'; cases d') auto
next
  case (run_elem1 n d s v t1 t)
  with length_skip_ws [of t1] runs_length(1) [OF run_elem1(1)] show ?case
    by (cases n') (auto simp: Let_def)
next
  case (run_elem n d s v t1 u es t)
  with length_skip_ws [of t1] length_skip_ws [of u] runs_length(1) [OF run_elem(1)] runs_length(2) [OF run_elem(3)]
  show ?case by (cases n') (auto simp: Let_def)
next
  case (run_member1 cs k t0 t1 s n d v t2 t)
  with length_skip_ws [of t0] length_skip_ws [of t1] length_skip_ws [of t2] runs_length(1) [OF run_member1(4)]
    json_string_length [OF run_member1(1)]
  show ?case by (cases n') (auto simp: Let_def)
next
  case (run_member cs k t0 t1 s n d v t2 u ms t)
  with length_skip_ws [of t0] length_skip_ws [of t1] length_skip_ws [of t2] length_skip_ws [of u]
    json_string_length [OF run_member(1)] runs_length(1) [OF run_member(4)] runs_length(3) [OF run_member(6)]
  show ?case by (cases n') (auto simp: Let_def)
qed

text \<open>Any larger fuel gives the same parse as \<open>json_fuel\<close>.\<close>

lemma json_fuel_enough:
  assumes "json_fuel s \<le> n"
  shows "json_value n d s = json_value (json_fuel s) d s"
proof -
  have rep: "json_value m d s = Some r" if "json_value k d s = Some r" "json_fuel s \<le> m" for k m r
  proof (cases r)
    case (Pair v t)
    with that runs_parse(1) [OF parser_runs(1), of k d s v t m d] show ?thesis
      by (simp add: json_fuel_def)
  qed
  show ?thesis
  proof (cases "json_value n d s")
    case None
    with rep [of "json_fuel s" _ n] assms show ?thesis by (cases "json_value (json_fuel s) d s") simp_all
  next
    case (Some r)
    with rep [of n r "json_fuel s"] show ?thesis by simp
  qed
qed

text \<open>The text splits into white space, the value's bytes, and white space.\<close>

lemma json_parse_split:
  assumes "json_parse s = Some (raw, v)"
  shows "\<exists>l r. s = l @ raw @ r \<and> list_all json_ws l \<and> list_all json_ws r \<and> raw \<noteq> []"
proof -
  define t where "t = skip_ws s"
  from assms obtain u where v: "json_value (json_fuel t) max_depth t = Some (v, u)"
    and u: "skip_ws u = []" and raw: "raw = take (length t - length u) t"
    by (auto simp: json_parse_def t_def Let_def split: option.splits if_splits)
  have c: "consumes t u" by (rule json_consumes(1) [OF v])
  have t: "t = raw @ u" unfolding raw by (rule consumes_raw [OF c])
  have "raw \<noteq> []"
  proof
    assume "raw = []"
    with t consumes_length [OF c] show False by simp
  qed
  moreover have "list_all json_ws u"
    using u by (simp add: skip_ws_def dropWhile_eq_Nil_conv list_all_iff)
  moreover have "s = takeWhile json_ws s @ raw @ u"
    unfolding t [symmetric] by (simp add: t_def skip_ws_def)
  moreover have "list_all json_ws (takeWhile json_ws s)"
    by (auto simp: list_all_iff dest: set_takeWhileD)
  ultimately have "s = takeWhile json_ws s @ raw @ u \<and> list_all json_ws (takeWhile json_ws s) \<and>
      list_all json_ws u \<and> raw \<noteq> []"
    by blast
  then show ?thesis by blast
qed

lemma json_parse_lex:
  assumes "json_parse s = Some (raw, v)"
  shows "lex Outside s = Some Outside"
proof -
  define t where "t = skip_ws s"
  from assms obtain u where v: "json_value (json_fuel t) max_depth t = Some (v, u)"
    and u: "skip_ws u = []"
    by (auto simp: json_parse_def t_def Let_def split: option.splits if_splits)
  have c: "consumes t u" by (rule json_consumes(1) [OF v])
  obtain q where q: "s = q @ t" "lex Outside q = Some Outside"
    using skip_ws_lex [of s] unfolding t_def by blast
  obtain p where p: "t = p @ u" "lex Outside p = Some Outside" using c by (auto simp: consumes_def)
  obtain r where "u = r @ []" "lex Outside r = Some Outside" using skip_ws_lex [of u] u by auto
  with p q show ?thesis by (simp add: lex_append)
qed

end
