(* ===== verification/GoMarshal.thy ===== *)
theory GoMarshal
  imports GoJson
begin

text \<open>
  The two directions of \<open>encoding/json\<close> between values and texts. Decoders return the new value and
  whether a type mismatch was recorded (\<open>Unmarshal\<close> then returns an error, but has already stored
  what it could). Encoders produce what \<open>json.Marshal\<close> and \<open>Encoder.Encode\<close> write, HTML escaping
  included.
\<close>

section \<open>Encoding strings and raw messages\<close>

definition html_safe :: "char \<Rightarrow> bool" where
  "html_safe c \<longleftrightarrow> 32 \<le> byte_of c \<and> byte_of c < 128 \<and>
     c \<notin> set [dquote, backslash, CHR ''<'', CHR ''>'', CHR ''&'']"

definition hex_digit :: "nat \<Rightarrow> char" where
  "hex_digit n = digit_char (n mod 16)"

text \<open>\<open>\u00XX\<close>.\<close>

definition u_escape :: "char \<Rightarrow> string" where
  "u_escape c = backslash # ''u00'' @ [hex_digit (byte_of c div 16), hex_digit (byte_of c)]"

definition escape_char :: "char \<Rightarrow> string" where
  "escape_char c =
     (if c = dquote \<or> c = backslash then [backslash, c]
      else if c = CHR 0x08 then [backslash, CHR ''b'']
      else if c = CHR 0x0C then [backslash, CHR ''f'']
      else if c = CHR 0x0A then [backslash, CHR ''n'']
      else if c = CHR 0x0D then [backslash, CHR ''r'']
      else if c = CHR 0x09 then [backslash, CHR ''t'']
      else u_escape c)"

text \<open>One step of \<open>appendString\<close>: output and bytes consumed.\<close>

definition quote_step :: "string \<Rightarrow> string \<times> nat" where
  "quote_step s =
     (case s of
        [] \<Rightarrow> ([], 0)
      | c # _ \<Rightarrow>
          if byte_of c < 128 then ((if html_safe c then [c] else escape_char c), 1)
          else (case decode_rune s of (r, w) \<Rightarrow>
                  if r = rune_error \<and> w = 1 then (backslash # ''ufffd'', 1)
                  else if r = 8232 \<or> r = 8233 then (backslash # ''u202'' @ [hex_digit r], w)
                  else (take w s, max 1 w)))"

lemma quote_step_width: "s \<noteq> [] \<Longrightarrow> 0 < snd (quote_step s)"
  using decode_rune_width [of s]
  by (cases s) (auto simp: quote_step_def split: prod.splits)

function quote_body :: "string \<Rightarrow> string" where
  "quote_body s =
     (if s = [] then [] else (case quote_step s of (out, w) \<Rightarrow> out @ quote_body (drop w s)))"
  by pat_completeness auto
termination
proof (relation "measure length", goal_cases)
  case (2 s p w)
  then have "0 < w" using quote_step_width [of s] by (metis snd_conv)
  with 2 show ?case by (cases s) auto
qed simp

declare quote_body.simps [simp del]

lemma quote_body_Nil [simp]: "quote_body [] = []"
  by (simp add: quote_body.simps)

lemma quote_body_ascii:
  "byte_of c < 128 \<Longrightarrow> quote_body (c # s) = (if html_safe c then [c] else escape_char c) @ quote_body s"
  by (subst quote_body.simps) (simp add: quote_step_def)

definition quote :: "string \<Rightarrow> string" where
  "quote s = dquote # quote_body s @ [dquote]"

text \<open>
  \<open>appendCompact\<close> with HTML escaping, on a valid text: white space outside strings goes, the three
  HTML characters and U+2028, U+2029 are escaped.
\<close>

text \<open>The bytes of U+2028 and U+2029.\<close>

definition line_sep :: "char \<Rightarrow> string \<Rightarrow> bool" where
  "line_sep c cs \<longleftrightarrow>
     (case cs of
        d # e # _ \<Rightarrow> byte_of c = 226 \<and> byte_of d = 128 \<and> (byte_of e = 168 \<or> byte_of e = 169)
      | _ \<Rightarrow> False)"

fun compact_from :: "scan \<Rightarrow> string \<Rightarrow> string" where
  "compact_from st [] = []"
| "compact_from st (c # cs) =
     (if st = Outside \<and> json_ws c then compact_from st cs
      else if c \<in> set [CHR ''<'', CHR ''>'', CHR ''&''] then u_escape c @ compact_from (scan_next st c) cs
      else if line_sep c cs
      then (backslash # ''u202'' @ [hex_digit (byte_of (cs ! 1))]) @
           compact_from (scan_next (scan_next (scan_next st c) (cs ! 0)) (cs ! 1)) (drop 2 cs)
      else c # compact_from (scan_next st c) cs)"

definition compact :: "string \<Rightarrow> string" where
  "compact s = compact_from Outside s"

text \<open>\<open>json.Unmarshal\<close> first checks the whole text; \<open>None\<close> is its syntax error.\<close>

definition json_check :: "string \<Rightarrow> json option" where
  "json_check s = map_option snd (json_parse s)"

text \<open>No encoder writes a raw newline: what keeps the worker protocol to one line per message.\<close>

lemma byte_of_newline [simp]: "byte_of (CHR 0x0A) = 10"
  by (simp add: byte_of_def)

lemma byte_of_digit_char: "d < 16 \<Longrightarrow> 48 \<le> byte_of (digit_char d)"
  by (simp add: digit_char_def)

lemma hex_digit_no_newline [simp]: "hex_digit n \<noteq> CHR 0x0A"
proof
  assume "hex_digit n = CHR 0x0A"
  then have "byte_of (digit_char (n mod 16)) = 10" by (simp add: hex_digit_def)
  with byte_of_digit_char [of "n mod 16"] show False by simp
qed

lemma u_escape_no_newline [simp]: "CHR 0x0A \<notin> set (u_escape c)"
  using hex_digit_no_newline by (auto simp: u_escape_def dest: sym)

lemma lex_ge_space: "lex st (c # cs) \<noteq> None \<Longrightarrow> \<not> (st = Outside \<and> json_ws c) \<Longrightarrow> c \<noteq> CHR 0x0A"
  by (auto simp: json_ws_def split: if_splits)

lemma compact_no_newline: "lex st s \<noteq> None \<Longrightarrow> CHR 0x0A \<notin> set (compact_from st s)"
proof (induction st s rule: compact_from.induct)
  case (1 st)
  then show ?case by simp
next
  case (2 st c cs)
  show ?case
  proof (cases "st = Outside \<and> json_ws c")
    case True
    then have "scan_next st c = Outside" using json_ws_ne_quote by auto
    with "2.IH"(1) [OF True] "2.prems" True show ?thesis by simp
  next
    case nws: False
    note c = lex_ge_space [OF "2.prems" nws]
    have rest: "lex (scan_next st c) cs \<noteq> None" using "2.prems" by (auto split: if_splits)
    show ?thesis
    proof (cases "c \<in> set [CHR ''<'', CHR ''>'', CHR ''&'']")
      case True
      with nws have "compact_from st (c # cs) = u_escape c @ compact_from (scan_next st c) cs"
        by (subst compact_from.simps(2)) (simp only: if_False if_True)
      with "2.IH"(2) [OF nws True rest] show ?thesis by simp
    next
      case html: False
      show ?thesis
      proof (cases "line_sep c cs")
        case True
        then obtain d e cs' where cs: "cs = d # e # cs'" "128 \<le> byte_of d" "128 \<le> byte_of e"
          by (auto simp: line_sep_def split: list.splits)
        with rest have "lex (scan_next (scan_next (scan_next st c) (cs ! 0)) (cs ! 1)) (drop 2 cs) \<noteq> None"
          by (auto split: if_splits)
        from "2.IH"(3) [OF nws html True this] hex_digit_no_newline nws html True show ?thesis
          by (auto dest: sym)
      next
        case False
        with "2.IH"(4) [OF nws html False rest] nws html c show ?thesis by auto
      qed
    qed
  qed
qed

text \<open>The compacted text is one line.\<close>

lemma compact_one_line: "json_check s \<noteq> None \<Longrightarrow> CHR 0x0A \<notin> set (compact s)"
  using json_parse_lex by (auto simp: json_check_def compact_def intro!: compact_no_newline)

lemma escape_char_no_newline: "CHR 0x0A \<notin> set (escape_char c)"
  by (simp add: escape_char_def)

lemma take_no_newline: "CHR 0x0A \<notin> set s \<Longrightarrow> CHR 0x0A \<notin> set (take n s)"
  by (meson in_set_takeD)

lemma quote_step_no_newline: "CHR 0x0A \<notin> set (fst (quote_step s))"
proof (cases s)
  case (Cons c t)
  show ?thesis
  proof (cases "byte_of c < 128")
    case True
    with Cons escape_char_no_newline show ?thesis by (auto simp: quote_step_def html_safe_def)
  next
    case False
    obtain r w where rw: "decode_rune s = (r, w)" by fastforce
    from False decode_rune_high [of c t] Cons rw have "list_all (\<lambda>b. 128 \<le> byte_of b) (take w s)" by simp
    then have "CHR 0x0A \<notin> set (take w s)" by (auto simp: list_all_iff)
    with False Cons rw hex_digit_no_newline show ?thesis by (auto simp: quote_step_def dest: sym)
  qed
qed (simp add: quote_step_def)

lemma quote_body_no_newline: "CHR 0x0A \<notin> set (quote_body s)"
proof (induction s rule: quote_body.induct)
  case (1 s)
  show ?case
  proof (cases "s = []")
    case False
    obtain out w where ow: "quote_step s = (out, w)" by fastforce
    from "1.IH" [OF False ow [symmetric]] quote_step_no_newline [of s] False ow show ?thesis
      by (subst quote_body.simps) simp
  qed simp
qed

lemma quote_no_newline [simp]: "CHR 0x0A \<notin> set (quote s)"
  using quote_body_no_newline by (simp add: quote_def)

section \<open>Encoding objects\<close>

definition member_text :: "string \<times> string \<Rightarrow> string" where
  "member_text kv = quote (fst kv) @ '':'' @ snd kv"

definition object_text :: "(string \<times> string) list \<Rightarrow> string" where
  "object_text kvs = ''{'' @ join_with '','' (map member_text kvs) @ ''}''"

lemma join_with_no_newline:
  "CHR 0x0A \<notin> set sep \<Longrightarrow> (\<And>p. p \<in> set ps \<Longrightarrow> CHR 0x0A \<notin> set p) \<Longrightarrow> CHR 0x0A \<notin> set (join_with sep ps)"
  by (induction sep ps rule: join_with.induct) auto

lemma object_text_no_newline:
  assumes "\<And>k v. (k, v) \<in> set kvs \<Longrightarrow> CHR 0x0A \<notin> set v"
  shows "CHR 0x0A \<notin> set (object_text kvs)"
proof -
  have "CHR 0x0A \<notin> set (join_with '','' (map member_text kvs))"
    by (rule join_with_no_newline) (use assms in \<open>auto simp: member_text_def\<close>)
  then show ?thesis by (simp add: object_text_def)
qed

definition bool_text :: "bool \<Rightarrow> string" where
  "bool_text b = (if b then ''true'' else ''false'')"

text \<open>\<open>map[string]json.RawMessage\<close>: keys sorted by bytes, each raw value compacted.\<close>

definition raw_map_text :: "string dict \<Rightarrow> string" where
  "raw_map_text m =
     object_text (map (\<lambda>k. (k, compact (the (map_of m k)))) (sort (map fst m)))"

text \<open>\<open>json.Indent\<close> with an empty prefix and an indent of two spaces.\<close>

definition newline_indent :: "nat \<Rightarrow> string" where
  "newline_indent depth = CHR 0x0A # concat (replicate depth ''  '')"

fun indent_from :: "scan \<Rightarrow> bool \<Rightarrow> nat \<Rightarrow> string \<Rightarrow> string" where
  "indent_from st need depth [] = []"
| "indent_from st need depth (c # cs) =
     (if st = Outside \<and> json_ws c then indent_from st need depth cs
      else
        let opening = need \<and> \<not> (st = Outside \<and> (c = CHR ''}'' \<or> c = CHR '']''));
            depth1 = (if opening then depth + 1 else depth);
            pre = (if opening then newline_indent depth1 else []);
            need1 = (need \<and> \<not> opening);
            st1 = scan_next st c
        in pre @
           (if st \<noteq> Outside then c # indent_from st1 need1 depth1 cs
            else if c = CHR ''{'' \<or> c = CHR ''['' then c # indent_from st1 True depth1 cs
            else if c = CHR '','' then c # newline_indent depth1 @ indent_from st1 need1 depth1 cs
            else if c = CHR '':'' then c # CHR '' '' # indent_from st1 need1 depth1 cs
            else if c = CHR ''}'' \<or> c = CHR '']'' then
              (if need1 then c # indent_from st1 False depth1 cs
               else newline_indent (depth1 - 1) @ c # indent_from st1 False (depth1 - 1) cs)
            else c # indent_from st1 need1 depth1 cs))"

definition json_indent :: "string \<Rightarrow> string" where
  "json_indent s = indent_from Outside False 0 s"

section \<open>Typed decoding\<close>

fun decode_string :: "string \<Rightarrow> json \<Rightarrow> string \<times> bool" where
  "decode_string cur (JStr s) = (s, False)"
| "decode_string cur JNull = (cur, False)"
| "decode_string cur v = (cur, True)"

fun decode_bool :: "bool \<Rightarrow> json \<Rightarrow> bool \<times> bool" where
  "decode_bool cur (JBool b) = (b, False)"
| "decode_bool cur JNull = (cur, False)"
| "decode_bool cur v = (cur, True)"

fun decode_int :: "int \<Rightarrow> json \<Rightarrow> int \<times> bool" where
  "decode_int cur (JNum l) = (case atoi l of Some i \<Rightarrow> (i, False) | None \<Rightarrow> (cur, True))"
| "decode_int cur JNull = (cur, False)"
| "decode_int cur v = (cur, True)"

fun decode_float :: "float64 \<Rightarrow> json \<Rightarrow> float64 \<times> bool" where
  "decode_float cur (JNum l) = (case parse_float l of Some f \<Rightarrow> (f, False) | None \<Rightarrow> (cur, True))"
| "decode_float cur JNull = (cur, False)"
| "decode_float cur v = (cur, True)"

text \<open>
  Into \<open>map[string]json.RawMessage\<close>: a later duplicate key wins, null is the nil map. Into
  \<open>[]json.RawMessage\<close>: the elements' bytes, null is the nil slice.
\<close>

fun decode_raw_map :: "json \<Rightarrow> string dict option" where
  "decode_raw_map (JObj ms) = Some (foldl (\<lambda>m (k, raw, v). AList.update k raw m) [] ms)"
| "decode_raw_map JNull = Some []"
| "decode_raw_map v = None"

fun decode_raw_list :: "json \<Rightarrow> string list option" where
  "decode_raw_list (JArr es) = Some (map fst es)"
| "decode_raw_list JNull = Some []"
| "decode_raw_list v = None"

text \<open>Into \<open>[]string\<close>: a null element is the empty string, another mismatch is recorded.\<close>

fun decode_string_list :: "string list \<Rightarrow> json \<Rightarrow> string list \<times> bool" where
  "decode_string_list cur (JArr es) =
     (map (\<lambda>(r, v). fst (decode_string [] v)) es, list_ex (\<lambda>(r, v). snd (decode_string [] v)) es)"
| "decode_string_list cur JNull = ([], False)"
| "decode_string_list cur v = (cur, True)"

text \<open>The struct field a member name selects: the exact name, else the first equal under folding.\<close>

definition field_for :: "string list \<Rightarrow> string \<Rightarrow> string option" where
  "field_for names k = (if k \<in> set names then Some k else find (\<lambda>n. equal_fold k n) names)"

definition decode_member ::
  "string list \<Rightarrow> (string \<Rightarrow> string \<Rightarrow> json \<Rightarrow> 's \<Rightarrow> 's \<times> bool) \<Rightarrow>
   's \<times> bool \<Rightarrow> string \<times> string \<times> json \<Rightarrow> 's \<times> bool" where
  "decode_member names step sb m =
     (case field_for names (fst m) of
        None \<Rightarrow> sb
      | Some f \<Rightarrow> (case step f (fst (snd m)) (snd (snd m)) (fst sb) of
                     (s', bad) \<Rightarrow> (s', snd sb \<or> bad)))"

definition decode_members ::
  "string list \<Rightarrow> (string \<Rightarrow> string \<Rightarrow> json \<Rightarrow> 's \<Rightarrow> 's \<times> bool) \<Rightarrow>
   (string \<times> string \<times> json) list \<Rightarrow> 's \<Rightarrow> 's \<times> bool" where
  "decode_members names step ms s0 = foldl (decode_member names step) (s0, False) ms"

fun decode_struct ::
  "string list \<Rightarrow> (string \<Rightarrow> string \<Rightarrow> json \<Rightarrow> 's \<Rightarrow> 's \<times> bool) \<Rightarrow> json \<Rightarrow> 's \<Rightarrow> 's \<times> bool"
where
  "decode_struct names step (JObj ms) s = decode_members names step ms s"
| "decode_struct names step JNull s = (s, False)"
| "decode_struct names step v s = (s, True)"

section \<open>Normalising an arbitrary value\<close>

text \<open>
  \<open>json.Unmarshal\<close> into \<open>any\<close> followed by \<open>json.Marshal\<close>: numbers go through \<open>float64\<close>, object keys
  are deduplicated (the last wins) and sorted. \<open>json_numbers_ok\<close> says no number is out of range,
  which is the only way that \<open>Unmarshal\<close> fails on a valid text.
\<close>

fun json_numbers_ok :: "json \<Rightarrow> bool" where
  "json_numbers_ok (JNum l) = (parse_float l \<noteq> None)"
| "json_numbers_ok (JArr es) = list_all (\<lambda>e. json_numbers_ok (snd e)) es"
| "json_numbers_ok (JObj ms) = list_all (\<lambda>m. json_numbers_ok (snd (snd m))) ms"
| "json_numbers_ok v = True"

fun marshal_any :: "json \<Rightarrow> string" where
  "marshal_any JNull = ''null''"
| "marshal_any (JBool b) = bool_text b"
| "marshal_any (JNum l) = (case parse_float l of None \<Rightarrow> [] | Some f \<Rightarrow> the (json_float f))"
| "marshal_any (JStr s) = quote s"
| "marshal_any (JArr es) = ''['' @ join_with '','' (map (\<lambda>e. marshal_any (snd e)) es) @ '']''"
| "marshal_any (JObj ms) =
     (let kvs = foldl (\<lambda>m kv. AList.update (fst kv) (snd kv) m) []
                  (map (\<lambda>m. (fst m, marshal_any (snd (snd m)))) ms)
      in object_text (map (\<lambda>k. (k, the (map_of kvs k))) (sort (map fst kvs))))"

section \<open>Laws\<close>

lemma decode_raw_map_distinct: "decode_raw_map v = Some m \<Longrightarrow> distinct (map fst m)"
proof (cases v)
  case (JObj ms)
  have "distinct (map fst (foldl (\<lambda>m (k, raw, v). AList.update k raw m) m0 ms))"
    if "distinct (map fst m0)" for m0 :: "string dict"
    using that by (induction ms arbitrary: m0) (auto intro: distinct_update)
  then show "decode_raw_map v = Some m \<Longrightarrow> ?thesis" using JObj by auto
qed auto

lemma decode_members_Nil [simp]: "decode_members names step [] s = (s, False)"
  by (simp add: decode_members_def)

lemma field_for_in: "field_for names k = Some f \<Longrightarrow> f \<in> set names"
  by (auto simp: field_for_def find_Some_iff split: if_splits)

lemma field_for_fold: "field_for names k = Some f \<Longrightarrow> equal_fold k f"
  by (auto simp: field_for_def find_Some_iff split: if_splits)

text \<open>
  Reasoning about decoding into a struct: \<open>selects names j f\<close> says that some member of \<open>j\<close> is stored
  in field \<open>f\<close>; an invariant kept by the steps of the selected fields is kept by the whole decoding;
  two decoders whose steps simulate each other do so on the whole text.
\<close>

fun selects :: "string list \<Rightarrow> json \<Rightarrow> string \<Rightarrow> bool" where
  "selects names (JObj ms) f = list_ex (\<lambda>m. field_for names (fst m) = Some f) ms"
| "selects names v f = False"

lemma decode_struct_inv_members:
  assumes "P s"
    and "\<And>ms k f raw v s. j = JObj ms \<Longrightarrow> (k, raw, v) \<in> set ms \<Longrightarrow> field_for names k = Some f \<Longrightarrow> P s \<Longrightarrow>
      P (fst (step f raw v s))"
  shows "P (fst (decode_struct names step j s))"
proof (cases j)
  case (JObj ms)
  have "P (fst (foldl (decode_member names step) sb ns))" if "set ns \<subseteq> set ms" "P (fst sb)" for ns sb
    using that
  proof (induction ns arbitrary: sb)
    case (Cons m ns)
    have "P (fst (decode_member names step sb m))"
      using assms(2) [OF JObj, of "fst m" "fst (snd m)" "snd (snd m)"] Cons.prems
      by (auto simp: decode_member_def split_beta split: option.split)
    with Cons show ?case by simp
  qed simp
  with assms(1) JObj show ?thesis by (simp add: decode_members_def)
qed (use assms(1) in auto)

lemma decode_struct_inv:
  assumes "P s"
    and "\<And>f raw v s. selects names j f \<Longrightarrow> P s \<Longrightarrow> P (fst (step f raw v s))"
  shows "P (fst (decode_struct names step j s))"
proof (rule decode_struct_inv_members)
  show "P (fst (step f raw v s))"
    if "j = JObj ms" "(k, raw, v) \<in> set ms" "field_for names k = Some f" "P s" for ms k f raw v s
    using assms(2) [of f s raw v] that by (force simp: list_ex_iff)
qed (rule assms(1))

lemma decode_struct_rel:
  assumes "R s t"
    and "\<And>f raw v s t. R s t \<Longrightarrow>
      R (fst (step f raw v s)) (fst (step' f raw v t)) \<and> snd (step f raw v s) = snd (step' f raw v t)"
  shows "R (fst (decode_struct names step j s)) (fst (decode_struct names step' j t)) \<and>
    snd (decode_struct names step j s) = snd (decode_struct names step' j t)"
proof (cases j)
  case (JObj ms)
  have "R (fst (foldl (decode_member names step) (s, b) ms)) (fst (foldl (decode_member names step') (t, b) ms)) \<and>
    snd (foldl (decode_member names step) (s, b) ms) = snd (foldl (decode_member names step') (t, b) ms)"
    if "R s t" for s t b
    using that
  proof (induction ms arbitrary: s t b)
    case Nil
    then show ?case by simp
  next
    case (Cons m ns)
    show ?case
    proof (cases "field_for names (fst m)")
      case None
      with Cons show ?thesis by (simp add: decode_member_def)
    next
      case (Some f)
      let ?r = "fst (snd m)" and ?v = "snd (snd m)"
      obtain s' b1 where s: "step f ?r ?v s = (s', b1)" by fastforce
      obtain t' b2 where t: "step' f ?r ?v t = (t', b2)" by fastforce
      from assms(2) [OF Cons.prems, of f ?r ?v] s t have "R s' t'" "b1 = b2" by auto
      with Cons.IH [of s' t' "b \<or> b1"] Some s t show ?thesis by (simp add: decode_member_def)
    qed
  qed
  with assms(1) JObj show ?thesis by (simp add: decode_members_def)
qed (use assms(1) in auto)

end
