(* ===== verification/JsonStrings.thy ===== *)
theory JsonStrings
  imports GoMarshal
begin

text \<open>
  Strings through JSON and back: \<open>quote\<close> followed by the parser gives the string again, for every valid
  UTF-8 text; what \<open>unquote\<close> yields is valid UTF-8; and compaction does not change what a string
  literal means.
\<close>

section \<open>Runes\<close>

definition scalar_rune :: "nat \<Rightarrow> bool" where
  "scalar_rune r \<longleftrightarrow> r \<le> 1114111 \<and> \<not> (55296 \<le> r \<and> r \<le> 57343)"

definition fix_rune :: "nat \<Rightarrow> nat" where
  "fix_rune r = (if scalar_rune r then r else rune_error)"

lemma scalar_fix [simp]: "scalar_rune (fix_rune r)"
  by (simp add: fix_rune_def scalar_rune_def rune_error_def)

lemma encode_fix: "encode_rune r = encode_rune (fix_rune r)"
  by (auto simp: encode_rune_def fix_rune_def scalar_rune_def rune_error_def)

lemma map_byte_of_chr: "list_all (\<lambda>n. n < 256) ns \<Longrightarrow> map byte_of (map byte_chr ns) = ns"
  by (induction ns) simp_all

lemma encode_bytes:
  assumes "scalar_rune r"
  shows "map byte_of (encode_rune r) =
    (if r < 128 then [r]
     else if r < 2048 then [192 + r div 64, 128 + r mod 64]
     else if r < 65536 then [224 + r div 4096, 128 + r div 64 mod 64, 128 + r mod 64]
     else [240 + r div 262144, 128 + r div 4096 mod 64, 128 + r div 64 mod 64, 128 + r mod 64])"
proof -
  have "r < 1114112" using assms by (simp add: scalar_rune_def)
  then have "240 + r div 262144 < 256" by (simp add: less_mult_imp_div_less)
  moreover have "r < 65536 \<Longrightarrow> 224 + r div 4096 < 256" by (simp add: less_mult_imp_div_less)
  moreover have "r < 2048 \<Longrightarrow> 192 + r div 64 < 256" by (simp add: less_mult_imp_div_less)
  moreover have "128 + x mod 64 < (256::nat)" for x
    using mod_less_divisor [of 64 x] by linarith
  moreover have "(if 1114111 < r \<or> (55296 \<le> r \<and> r \<le> 57343) then rune_error else r) = r"
    using assms by (auto simp: scalar_rune_def)
  ultimately show ?thesis unfolding encode_rune_def by simp
qed

lemma take4_map: "map byte_of (take 4 (a @ s)) = take 4 (map byte_of a @ map byte_of s)"
  by (simp add: take_map)

lemma rune_split3: "(r::nat) = r div 4096 * 4096 + r div 64 mod 64 * 64 + r mod 64"
proof -
  have "r = r div 64 * 64 + r mod 64" by simp
  moreover have "r div 64 = r div 64 div 64 * 64 + r div 64 mod 64" by simp
  moreover have "r div 64 div 64 = r div 4096" by (simp add: div_mult2_eq [symmetric])
  ultimately show ?thesis by linarith
qed

lemma rune_split4: "(r::nat) = r div 262144 * 262144 + r div 4096 mod 64 * 4096 + r div 64 mod 64 * 64 + r mod 64"
proof -
  have "r div 4096 = r div 4096 div 64 * 64 + r div 4096 mod 64" by simp
  moreover have "r div 4096 div 64 = r div 262144" by (simp add: div_mult2_eq [symmetric])
  ultimately show ?thesis using rune_split3 [of r] by linarith
qed

lemma decode_bytes_2:
  "2 \<le> a \<Longrightarrow> a < 32 \<Longrightarrow> b < 64 \<Longrightarrow> decode_bytes ((192 + a) # (128 + b) # t) = (a * 64 + b, 2)"
  by (simp add: decode_bytes_def is_cont_def)

lemma decode_bytes_3:
  assumes "a < 16" and "b < 64" and "c < 64" and "a = 0 \<Longrightarrow> 32 \<le> b" and "a = 13 \<Longrightarrow> b \<le> 31"
  shows "decode_bytes ((224 + a) # (128 + b) # (128 + c) # t) = (a * 4096 + b * 64 + c, 3)"
  using assms by (cases "a = 0"; cases "a = 13") (simp_all add: decode_bytes_def is_cont_def)

lemma decode_bytes_4:
  assumes "a < 5" and "b < 64" and "c < 64" and "d < 64" and "a = 0 \<Longrightarrow> 16 \<le> b" and "a = 4 \<Longrightarrow> b \<le> 15"
  shows "decode_bytes ((240 + a) # (128 + b) # (128 + c) # (128 + d) # t) = (a * 262144 + b * 4096 + c * 64 + d, 4)"
  using assms by (cases "a = 0"; cases "a = 4") (simp_all add: decode_bytes_def is_cont_def)

lemma decode_encode:
  assumes "scalar_rune r"
  shows "decode_rune (encode_rune r @ s) = (r, length (encode_rune r))"
proof -
  have len: "length (encode_rune r) = length (map byte_of (encode_rune r))" by simp
  have m: "r mod 64 < 64" "r div 64 mod 64 < 64" "r div 4096 mod 64 < 64" by simp_all
  note eb = encode_bytes [OF assms]
  let ?dec = "decode_bytes (take 4 (map byte_of (encode_rune r) @ map byte_of s))"
  consider "r < 128" | "128 \<le> r" "r < 2048" | "2048 \<le> r" "r < 65536" | "65536 \<le> r" by linarith
  then have "?dec = (r, length (map byte_of (encode_rune r)))"
  proof cases
    case 1
    then show ?thesis unfolding eb by (simp add: decode_bytes_def)
  next
    case 2
    have "2 \<le> r div 64" "r div 64 < 32" using 2 by (auto simp: less_mult_imp_div_less)
    from decode_bytes_2 [OF this m(1)] 2 show ?thesis unfolding eb by simp
  next
    case 3
    note split = rune_split3 [of r]
    have a: "r div 4096 < 16" using 3 by (simp add: less_mult_imp_div_less)
    have lo: "r div 4096 = 0 \<Longrightarrow> 32 \<le> r div 64 mod 64" using 3(1) split m by linarith
    have hi: "r div 4096 = 13 \<Longrightarrow> r div 64 mod 64 \<le> 31"
      using assms split m unfolding scalar_rune_def by linarith
    from 3 have "take 4 (map byte_of (encode_rune r) @ map byte_of s) =
        (224 + r div 4096) # (128 + r div 64 mod 64) # (128 + r mod 64) # take 1 (map byte_of s)"
      unfolding eb by simp
    with decode_bytes_3 [OF a m(2,1) lo hi] split 3 show ?thesis unfolding eb by simp
  next
    case 4
    note split = rune_split4 [of r]
    have top: "r < 1114112" using assms by (simp add: scalar_rune_def)
    then have a: "r div 262144 < 5" by (simp add: less_mult_imp_div_less)
    have lo: "r div 262144 = 0 \<Longrightarrow> 16 \<le> r div 4096 mod 64" using 4 split m by linarith
    have hi: "r div 262144 = 4 \<Longrightarrow> r div 4096 mod 64 \<le> 15" using top split m by linarith
    from 4 have "take 4 (map byte_of (encode_rune r) @ map byte_of s) =
        [240 + r div 262144, 128 + r div 4096 mod 64, 128 + r div 64 mod 64, 128 + r mod 64]"
      unfolding eb by simp
    with decode_bytes_4 [OF a m(3,2,1) lo hi] split 4 show ?thesis unfolding eb by simp
  qed
  then show ?thesis unfolding decode_rune_def take4_map len .
qed

lemma encode_ne [simp]: "encode_rune r \<noteq> []"
  by (simp add: encode_rune_def Let_def)

lemma encode_ascii: "r < 128 \<Longrightarrow> encode_rune r = [byte_chr r]"
  by (simp add: encode_rune_def)

lemma encode_high:
  assumes "scalar_rune r" and "128 \<le> r"
  shows "list_all (\<lambda>c. 128 \<le> byte_of c) (encode_rune r)" and "1 < length (encode_rune r)"
proof -
  have "list_all (\<lambda>n. 128 \<le> n) (map byte_of (encode_rune r))"
    unfolding encode_bytes [OF assms(1)] using assms(2) by simp
  then show "list_all (\<lambda>c. 128 \<le> byte_of c) (encode_rune r)" by (simp add: list_all_iff)
  have "1 < length (map byte_of (encode_rune r))"
    unfolding encode_bytes [OF assms(1)] using assms(2) by simp
  then show "1 < length (encode_rune r)" by simp
qed

definition valid_utf8 :: "string \<Rightarrow> bool" where
  "valid_utf8 s \<longleftrightarrow> (\<exists>rs. s = concat (map encode_rune rs))"

lemma valid_utf8_Nil [simp]: "valid_utf8 []"
  unfolding valid_utf8_def by (rule exI [of _ "[]"]) simp

lemma valid_utf8_rune: "valid_utf8 s \<Longrightarrow> valid_utf8 (encode_rune r @ s)"
  unfolding valid_utf8_def by (metis concat.simps(2) list.simps(9))

lemma valid_utf8_ascii_Cons: "byte_of c < 128 \<Longrightarrow> valid_utf8 s \<Longrightarrow> valid_utf8 (c # s)"
  using valid_utf8_rune [of s "byte_of c"] by (simp add: encode_ascii)

lemma valid_utf8_ascii: "list_all (\<lambda>c. byte_of c < 128) s \<Longrightarrow> valid_utf8 s"
  by (induction s) (auto intro: valid_utf8_ascii_Cons)

text \<open>A valid text is empty or a scalar rune and a valid text.\<close>

lemma valid_utf8_induct [consumes 1, case_names Nil Rune]:
  assumes "valid_utf8 s" and "P []"
    and "\<And>r s. scalar_rune r \<Longrightarrow> valid_utf8 s \<Longrightarrow> P s \<Longrightarrow> P (encode_rune r @ s)"
  shows "P s"
proof -
  have "P (concat (map encode_rune rs))" for rs
  proof (induction rs)
    case (Cons r rs)
    have "valid_utf8 (concat (map encode_rune rs))" unfolding valid_utf8_def by blast
    from assms(3) [OF scalar_fix this Cons, of r] show ?case by (simp add: encode_fix [of r, symmetric])
  qed (simp add: assms(2))
  with assms(1) show ?thesis by (auto simp: valid_utf8_def)
qed

section \<open>Quoting and reading back\<close>

lemma hex_digit_byte: "byte_of (hex_digit n) = (if n mod 16 < 10 then 48 + n mod 16 else 87 + n mod 16)"
proof -
  have "n mod 16 < 16" by simp
  then show ?thesis by (simp add: hex_digit_def digit_char_def)
qed

lemma hex_val_digit [simp]: "hex_val (hex_digit n) = n mod 16"
  by (simp add: hex_val_def Let_def hex_digit_byte)

lemma is_hex_digit [simp]: "is_hex (hex_digit n)"
proof -
  have "n mod 16 < 16" by simp
  then have "n mod 16 \<le> 15" by linarith
  then show ?thesis by (simp add: is_hex_def Let_def hex_digit_byte)
qed

text \<open>A piece of a literal's contents: the scanner passes it and goes on.\<close>

definition piece :: "string \<Rightarrow> bool" where
  "piece p \<longleftrightarrow> (\<forall>t q u. json_string t = Some (q, u) \<longrightarrow> json_string (p @ t) = Some (p @ q, u))"

lemma piece_Nil [simp]: "piece []"
  by (simp add: piece_def)

lemma piece_append: "piece p \<Longrightarrow> piece q \<Longrightarrow> piece (p @ q)"
  by (simp add: piece_def)

lemma piece_plain: "c \<noteq> dquote \<Longrightarrow> c \<noteq> backslash \<Longrightarrow> 32 \<le> byte_of c \<Longrightarrow> piece [c]"
  by (simp add: piece_def)

lemma piece_high: "list_all (\<lambda>c. 128 \<le> byte_of c) p \<Longrightarrow> piece p"
proof (induction p)
  case (Cons c p)
  then have "c \<noteq> dquote" "c \<noteq> backslash" by (auto simp: byte_of_def)
  with Cons have "piece [c]" by (intro piece_plain) auto
  with Cons piece_append [of "[c]" p] show ?case by simp
qed simp

lemma piece_escape: "simple_escape e \<Longrightarrow> piece [backslash, e]"
  by (simp add: piece_def)

lemma piece_u: "is_hex a \<Longrightarrow> is_hex b \<Longrightarrow> is_hex c \<Longrightarrow> is_hex d \<Longrightarrow> piece [backslash, CHR ''u'', a, b, c, d]"
  by (simp add: piece_def simple_escape_def)

lemma piece_json_string: "piece p \<Longrightarrow> json_string (p @ dquote # t) = Some (p, t)"
  by (simp add: piece_def)

text \<open>What \<open>unquote\<close> makes of a \<open>\u\<close> escape that is not a surrogate.\<close>

lemma unquote_u:
  assumes "is_hex a" and "is_hex b" and "is_hex c" and "is_hex d" and "scalar_rune (hex4 a b c d)"
  shows "unquote (backslash # CHR ''u'' # a # b # c # d # t) = encode_rune (hex4 a b c d) @ unquote t"
proof -
  have "get_u4 (backslash # CHR ''u'' # a # b # c # d # t) = Some (hex4 a b c d)"
    using assms(1-4) by (simp add: get_u4_def)
  moreover have "\<not> (55296 \<le> hex4 a b c d \<and> hex4 a b c d \<le> 57343)" using assms(5) by (simp add: scalar_rune_def)
  ultimately have "unquote_step (backslash # CHR ''u'' # a # b # c # d # t) = (encode_rune (hex4 a b c d), 6)"
    by (auto simp: unquote_step_def)
  then show ?thesis by (subst unquote.simps) simp
qed

lemma unquote_simple:
  "simple_escape e \<Longrightarrow> unquote (backslash # e # t) = escape_value e # unquote t"
  by (subst unquote.simps) (auto simp: unquote_step_def get_u4_def simple_escape_def split: list.split)

lemma unquote_rune:
  assumes "scalar_rune r" and "128 \<le> r"
  shows "unquote (encode_rune r @ t) = encode_rune r @ unquote t"
proof -
  obtain c cs where e: "encode_rune r = c # cs" using encode_ne by (meson neq_Nil_conv)
  have c: "128 \<le> byte_of c" using encode_high(1) [OF assms] e by simp
  then have "c \<noteq> backslash" by (auto simp: byte_of_def)
  with c decode_encode [OF assms(1), of t] e
  have "unquote_step (c # cs @ t) = (encode_rune r, length (encode_rune r))"
    by (simp add: unquote_step_def)
  then show ?thesis unfolding e by (subst unquote.simps) simp
qed

lemma hex4_u00: "b < 128 \<Longrightarrow> hex4 (CHR ''0'') (CHR ''0'') (hex_digit (b div 16)) (hex_digit b) = b"
  by (simp add: hex4_def hex_val_def [of "CHR ''0''"] byte_of_def)

lemma is_hex_zero [simp]: "is_hex (CHR ''0'')" "is_hex (CHR ''2'')"
  by (simp_all add: is_hex_def byte_of_def)

text \<open>The quoted form of one rune.\<close>

definition quoted :: "nat \<Rightarrow> string" where
  "quoted r =
     (if r < 128 then (if html_safe (byte_chr r) then [byte_chr r] else escape_char (byte_chr r))
      else if r = 8232 \<or> r = 8233 then backslash # ''u202'' @ [hex_digit r]
      else encode_rune r)"

lemma quote_body_rune:
  assumes "scalar_rune r"
  shows "quote_body (encode_rune r @ s) = quoted r @ quote_body s"
proof (cases "r < 128")
  case True
  then show ?thesis by (simp add: encode_ascii quoted_def quote_body_ascii)
next
  case False
  obtain c cs where e: "encode_rune r = c # cs" using encode_ne by (meson neq_Nil_conv)
  have c: "128 \<le> byte_of c" and w: "1 < length (encode_rune r)"
    using encode_high [OF assms] e False by auto
  have "quote_step (encode_rune r @ s) =
      (if r = 8232 \<or> r = 8233 then (backslash # ''u202'' @ [hex_digit r], length (encode_rune r))
       else (encode_rune r, length (encode_rune r)))"
    using c w e decode_encode [OF assms, of s] by (auto simp: quote_step_def)
  with False show ?thesis by (subst quote_body.simps) (simp add: quoted_def)
qed

lemma u_escape_form: "u_escape c = [backslash, CHR ''u'', CHR ''0'', CHR ''0'', hex_digit (byte_of c div 16), hex_digit (byte_of c)]"
  by (simp add: u_escape_def)

lemma unquote_escape_char:
  assumes "byte_of c < 128"
  shows "unquote (escape_char c @ t) = c # unquote t"
proof -
  have u: "unquote (u_escape c @ t) = c # unquote t"
    unfolding u_escape_form using assms
    by (simp add: unquote_u hex4_u00 scalar_rune_def encode_ascii)
  then show ?thesis
    by (auto simp: escape_char_def unquote_simple simple_escape_def escape_value_def)
qed

lemma piece_escape_char: "piece (escape_char c)"
proof -
  have "piece (u_escape c)" unfolding u_escape_form by (rule piece_u) simp_all
  moreover have "piece [backslash, e]" if "e \<in> set [dquote, backslash, CHR ''b'', CHR ''f'', CHR ''n'', CHR ''r'', CHR ''t'']" for e
    by (rule piece_escape) (use that in \<open>auto simp: simple_escape_def\<close>)
  ultimately show ?thesis unfolding escape_char_def by simp
qed

lemma html_safe_plain: "html_safe c \<Longrightarrow> c \<noteq> dquote \<and> c \<noteq> backslash \<and> 32 \<le> byte_of c \<and> byte_of c < 128"
  by (auto simp: html_safe_def)

lemma hex4_u202: "r = 8232 \<or> r = 8233 \<Longrightarrow> hex4 (CHR ''2'') (CHR ''0'') (CHR ''2'') (hex_digit r) = r"
  by (auto simp: hex4_def hex_val_def [of "CHR ''0''"] hex_val_def [of "CHR ''2''"] byte_of_def)

lemma quoted_rune:
  assumes "scalar_rune r"
  shows "piece (quoted r)" and "unquote (quoted r @ t) = encode_rune r @ unquote t"
proof -
  have "piece (quoted r) \<and> unquote (quoted r @ t) = encode_rune r @ unquote t"
  proof (cases "r < 128")
    case True
    have b: "byte_of (byte_chr r) = r" using True by simp
    show ?thesis
    proof (cases "html_safe (byte_chr r)")
      case safe: True
      with html_safe_plain [OF safe] True show ?thesis by (simp add: quoted_def piece_plain encode_ascii)
    next
      case False
      with True b piece_escape_char unquote_escape_char [of "byte_chr r" t] show ?thesis
        by (simp add: quoted_def encode_ascii)
    qed
  next
    case high: False
    show ?thesis
    proof (cases "r = 8232 \<or> r = 8233")
      case True
      with high have "quoted r = [backslash, CHR ''u'', CHR ''2'', CHR ''0'', CHR ''2'', hex_digit r]"
        by (simp add: quoted_def)
      with True assms piece_u [of "CHR ''2''" "CHR ''0''" "CHR ''2''" "hex_digit r"]
        unquote_u [of "CHR ''2''" "CHR ''0''" "CHR ''2''" "hex_digit r" t]
      show ?thesis by (simp add: hex4_u202)
    next
      case False
      with high assms piece_high [OF encode_high(1)] unquote_rune show ?thesis by (simp add: quoted_def)
    qed
  qed
  then show "piece (quoted r)" and "unquote (quoted r @ t) = encode_rune r @ unquote t" by auto
qed

lemma quote_body_piece: "valid_utf8 s \<Longrightarrow> piece (quote_body s)"
  by (induction rule: valid_utf8_induct) (simp_all add: quote_body_rune piece_append quoted_rune)

lemma unquote_quote_body: "valid_utf8 s \<Longrightarrow> unquote (quote_body s) = s"
  by (induction rule: valid_utf8_induct) (simp_all add: quote_body_rune quoted_rune)

text \<open>Everything read from a literal is valid.\<close>

lemma escape_value_ascii: "simple_escape e \<Longrightarrow> byte_of (escape_value e) < 128"
proof -
  assume "simple_escape e"
  then have "list_all (\<lambda>e. byte_of (escape_value e) < 128)
      [dquote, backslash, CHR ''/'', CHR ''b'', CHR ''f'', CHR ''n'', CHR ''r'', CHR ''t''] \<Longrightarrow> ?thesis"
    by (simp only: simple_escape_def list_all_iff)
  then show ?thesis by (simp add: escape_value_def byte_of_def)
qed

lemma unquote_step_out:
  assumes "unquote_step (c # cs) = (out, w)"
  shows "out = [] \<or> (\<exists>r. out = encode_rune r) \<or> (\<exists>d. out = [d] \<and> byte_of d < 128)"
proof (cases "c = backslash")
  case bs: True
  show ?thesis
  proof (cases "get_u4 (c # cs)")
    case None
    show ?thesis
    proof (cases cs)
      case Nil
      with bs None assms show ?thesis by (simp add: unquote_step_def)
    next
      case (Cons e t)
      with bs None assms have "out = (if simple_escape e then [escape_value e] else [])"
        by (simp add: unquote_step_def)
      then show ?thesis using escape_value_ascii by auto
    qed
  next
    case (Some r)
    obtain G where G: "get_u4 (drop 6 (c # cs)) = G" by simp
    have "\<exists>r. fst (unquote_step (c # cs)) = encode_rune r"
      unfolding unquote_step_def list.case if_P [OF bs] Some option.case G
      by (cases G) (simp_all split: if_split, blast+)
    then show ?thesis using assms by simp
  qed
next
  case False
  show ?thesis
  proof (cases "byte_of c < 128")
    case True
    with False assms have "out = [c]" by (simp add: unquote_step_def)
    with True show ?thesis by blast
  next
    case high: False
    obtain r k where "decode_rune (c # cs) = (r, k)" by fastforce
    with False high assms have "out = encode_rune r" by (simp add: unquote_step_def)
    then show ?thesis by blast
  qed
qed

lemma valid_utf8_unquote: "valid_utf8 (unquote q)"
proof (induction q rule: unquote.induct)
  case (1 s)
  show ?case
  proof (cases s)
    case (Cons c cs)
    obtain out w where ow: "unquote_step s = (out, w)" by fastforce
    from "1.IH" [OF _ ow [symmetric]] Cons have ih: "valid_utf8 (unquote (drop w s))" by simp
    have "valid_utf8 (out @ x)" if "valid_utf8 x" for x
      using unquote_step_out [of c cs out w] ow Cons that valid_utf8_rune valid_utf8_ascii_Cons by auto
    with ih ow Cons show ?thesis by (subst unquote.simps) simp
  qed simp
qed

section \<open>Every decoded string is valid UTF-8\<close>

fun utf8_json :: "json \<Rightarrow> bool" where
  "utf8_json (JStr s) = valid_utf8 s"
| "utf8_json (JArr es) = list_all (\<lambda>e. utf8_json (snd e)) es"
| "utf8_json (JObj ms) = list_all (\<lambda>m. valid_utf8 (fst m) \<and> utf8_json (snd (snd m))) ms"
| "utf8_json v = True"

lemma runs_utf8:
  "value_run n d s v t \<Longrightarrow> utf8_json v"
  "elems_run n d s es t \<Longrightarrow> utf8_json (JArr es)"
  "members_run n d s ms t \<Longrightarrow> utf8_json (JObj ms)"
  by (induction rule: run_inducts) (simp_all add: valid_utf8_unquote)

lemma parser_utf8:
  "json_value n d s = Some (v, t) \<Longrightarrow> utf8_json v"
  by (rule runs_utf8(1) [OF parser_runs(1)])

lemma check_utf8: "json_check s = Some v \<Longrightarrow> utf8_json v"
  by (auto simp: json_check_def json_parse_def Let_def split: option.splits if_splits dest: parser_utf8(1))

end
