(* ===== verification/JsonFloat.thy ===== *)
theory JsonFloat
  imports GoJson
begin

text \<open>
  A float survives \<open>encoding/json\<close>: rounding depends on the exact quotient only, the digits that
  \<open>shortest\<close> finds read back as the float, and the parser recovers those digits from both notations.
\<close>

section \<open>Rounding depends on the quotient\<close>

lemma exp_unique:
  assumes "real (2 ^ 52) \<le> x / 2 powi a" and "x / 2 powi a < real (2 ^ 53)"
    and "real (2 ^ 52) \<le> x / 2 powi b" and "x / 2 powi b < real (2 ^ 53)"
  shows "a = b"
proof -
  have less: "\<not> a < b" if "real (2 ^ 52) \<le> x / 2 powi b" "x / 2 powi a < real (2 ^ 53)" for a b :: int
  proof
    assume "a < b"
    then have "(2::real) powi (a + 1) \<le> 2 powi b" by (simp add: power_int_increasing)
    then have p: "2 * (2::real) powi a \<le> 2 powi b" by (simp add: power_int_add)
    have "real (2 ^ 52) * 2 powi b \<le> x" using that(1) by (simp add: le_divide_eq)
    moreover have "x < real (2 ^ 53) * 2 powi a" using that(2) by (simp add: divide_less_eq)
    moreover have "real (2 ^ 53) * 2 powi a = real (2 ^ 52) * (2 * 2 powi a)" by simp
    moreover have "real (2 ^ 52) * (2 * 2 powi a) \<le> real (2 ^ 52) * 2 powi b"
      using p by (intro mult_left_mono) simp_all
    ultimately show False by linarith
  qed
  from less [of b a] less [of a b] assms show ?thesis by force
qed

lemma cross_real: "0 < d \<Longrightarrow> 0 < d' \<Longrightarrow> n * d' = n' * d \<longleftrightarrow> real n / real d = real n' / real d'"
  by (simp add: frac_eq_eq flip: of_nat_mult)

lemma round_exp_cross:
  assumes "0 < n" and "0 < n'" and "0 < d" and "0 < d'" and "n * d' = n' * d"
  shows "round_exp n d = round_exp n' d'"
proof -
  have x: "real n / real d = real n' / real d'" using assms cross_real by blast
  from round_exp_spec [OF assms(1,3)] obtain e0 where e0: "round_exp n d = max e0 (- 1074)"
    "real (2 ^ 52) \<le> real n / real d / 2 powi e0" "real n / real d / 2 powi e0 < real (2 ^ 53)" .
  from round_exp_spec [OF assms(2,4)] obtain e1 where e1: "round_exp n' d' = max e1 (- 1074)"
    "real (2 ^ 52) \<le> real n' / real d' / 2 powi e1" "real n' / real d' / 2 powi e1 < real (2 ^ 53)" .
  from exp_unique [OF e0(2,3) e1(2,3) [folded x]] e0(1) e1(1) show ?thesis by simp
qed

lemma half_even_scale: "0 < c \<Longrightarrow> half_even (c * a) (c * b) = half_even a b"
proof -
  assume c: "0 < c"
  have "2 * (c * (a mod b)) < c * b \<longleftrightarrow> 2 * (a mod b) < b"
    using c by (simp add: mult.left_commute [of 2 c])
  moreover have "2 * (c * (a mod b)) = c * b \<longleftrightarrow> 2 * (a mod b) = b"
    using c by (simp add: mult.left_commute [of 2 c])
  ultimately show ?thesis using c by (simp add: half_even_def Let_def mult_mod_right [symmetric])
qed

lemma half_even_cross:
  assumes "0 < b" and "0 < b'" and "a * b' = a' * b"
  shows "half_even a b = half_even a' b'"
proof -
  have "half_even a b = half_even (b' * a) (b' * b)" using half_even_scale assms(2) by simp
  also have "\<dots> = half_even (b * a') (b * b')" using assms(3) by (simp add: mult.commute)
  also have "\<dots> = half_even a' b'" using half_even_scale assms(1) by simp
  finally show ?thesis .
qed

lemma scaled_cross:
  assumes "n * d' = n' * d"
  shows "fst (scaled n d e) * snd (scaled n' d' e) = fst (scaled n' d' e) * snd (scaled n d e)"
  using assms by (simp add: scaled_def mult.assoc mult.left_commute mult.commute)

lemma round64_cross:
  assumes "0 < d" and "0 < d'" and "n * d' = n' * d"
  shows "round64 s n d = round64 s n' d'"
proof (cases "n = 0 \<or> n' = 0")
  case True
  with assms have "n = 0" "n' = 0" by auto
  then show ?thesis by (simp add: round64_def)
next
  case False
  then have e: "round_exp n d = round_exp n' d'" using round_exp_cross assms by simp
  have "half_even (fst (scaled n d e)) (snd (scaled n d e)) = half_even (fst (scaled n' d' e)) (snd (scaled n' d' e))" for e
    by (rule half_even_cross) (use assms scaled_pos scaled_cross in auto)
  with False e show ?thesis by (simp add: round64_def Let_def case_prod_beta)
qed

text \<open>The sign only passes through.\<close>

lemma round64_sign: "round64 False n d = F_Fin False m e \<Longrightarrow> round64 s n d = F_Fin s m e"
  by (auto simp: round64_def Let_def case_prod_beta split: if_splits)

text \<open>A representable value is its own rounding.\<close>

lemma round64_exact:
  assumes "f64_canon (F_Fin s m e)" and "scaled m 1 (- e) = (n, d)"
  shows "round64 s n d = F_Fin s m e"
proof (cases "m = 0")
  case True
  with assms have "e = - 1074" "n = 0" by (auto simp: scaled_def split: if_splits)
  with True show ?thesis by (simp add: round64_def)
next
  case False
  have d: "0 < d" using scaled_pos [of 1 m "- e"] assms(2) by simp
  have n: "0 < n" using False assms(2) by (auto simp: scaled_def split: if_splits)
  have x: "real n / real d = real m * 2 powi e"
    using scaled_ratio [of 1 m "- e"] assms(2) d by (simp add: power_int_minus divide_inverse)
  from round_exp_spec [OF n d] obtain e0 where e0: "round_exp n d = max e0 (- 1074)"
    "real (2 ^ 52) \<le> real m * 2 powi e / 2 powi e0" "real m * 2 powi e / 2 powi e0 < real (2 ^ 53)"
    unfolding x .
  have m: "m < 2 ^ 53" "- 1074 \<le> e" "e \<le> 971" "2 ^ 52 \<le> m \<or> e = - 1074" using assms(1) by auto
  have re: "round_exp n d = e"
  proof (cases "2 ^ 52 \<le> m")
    case True
    then have "real (2 ^ 52) \<le> real m" by (simp only: of_nat_le_iff)
    moreover have "real m < real (2 ^ 53)" using m(1) by (simp only: of_nat_less_iff)
    ultimately have "e0 = e" by (intro exp_unique [OF e0(2,3)]) simp_all
    with e0(1) m(2) show ?thesis by simp
  next
    case sub: False
    then have e: "e = - 1074" using m(4) by simp
    have "\<not> e < e0"
    proof
      assume "e < e0"
      then have "(2::real) powi e \<le> 2 powi e0" by (simp add: power_int_increasing)
      then have "real m * 2 powi e / 2 powi e0 \<le> real m" by (simp add: divide_le_eq mult_left_mono)
      moreover have "real m < real (2 ^ 52)" using sub by (simp only: of_nat_less_iff not_le)
      ultimately show False using e0(2) by linarith
    qed
    with e0(1) e show ?thesis by simp
  qed
  have "real (fst (scaled n d e)) = real (m * snd (scaled n d e))"
    using scaled_ratio [OF d, of n e] x by simp
  then have q: "fst (scaled n d e) = m * snd (scaled n d e)" by (simp only: of_nat_eq_iff)
  have "half_even (m * b) b = m" if "0 < b" for b using that by (simp add: half_even_def)
  with q scaled_pos [OF d, of n e] have h: "half_even (fst (scaled n d e)) (snd (scaled n d e)) = m" by simp
  show ?thesis using n m(1,3) h by (simp add: round64_def re Let_def case_prod_beta)
qed

section \<open>Decimals\<close>

definition decimal :: "nat \<Rightarrow> int \<Rightarrow> nat \<times> nat" where
  "decimal q t = (if 0 \<le> t then (q * 10 ^ nat t, 1) else (q, 10 ^ nat (- t)))"

definition dec_float :: "bool \<Rightarrow> nat \<Rightarrow> int \<Rightarrow> float64" where
  "dec_float s q t = (case decimal q t of (n, d) \<Rightarrow> round64 s n d)"

lemma dec_round_float: "dec_round q t = dec_float False q t"
  by (simp add: dec_round_def dec_float_def decimal_def)

lemma decimal_ratio: "decimal q t = (n, d) \<Longrightarrow> 0 < d \<and> real n / real d = real q * 10 powi t"
  by (auto simp: decimal_def power_int_def inverse_eq_divide power_one_over split: if_splits)

lemma dec_float_cong:
  assumes "real q * 10 powi t = real q' * 10 powi t'"
  shows "dec_float s q t = dec_float s q' t'"
proof -
  obtain n d n' d' where nd: "decimal q t = (n, d)" "decimal q' t' = (n', d')" by fastforce
  note r = decimal_ratio [OF nd(1)] decimal_ratio [OF nd(2)]
  then have d: "0 < d" "0 < d'" by blast+
  have "real n / real d = real n' / real d'" using r assms by simp
  then have "n * d' = n' * d" using cross_real [OF d] by blast
  then have "round64 s n d = round64 s n' d'" by (rule round64_cross [OF d])
  with nd show ?thesis by (simp add: dec_float_def)
qed

lemma dec_float_shift: "dec_float s (q * 10 ^ k) (t - int k) = dec_float s q t"
  by (rule dec_float_cong) (simp add: power_int_diff)

lemma dec_float_sign:
  assumes "dec_float False q t = F_Fin False m e"
  shows "dec_float s q t = F_Fin s m e"
proof -
  obtain n d where nd: "decimal q t = (n, d)" by fastforce
  with assms have "round64 False n d = F_Fin False m e" by (simp add: dec_float_def)
  from round64_sign [OF this, of s] nd show ?thesis by (simp add: dec_float_def)
qed

section \<open>The digits read back\<close>

lemma half_even_neighbour: "half_even a b = a div b \<or> half_even a b = a div b + 1"
  by (simp add: half_even_def Let_def)

lemma shortest_from_reads:
  "shortest_from fuel p x n d k = Some (q, t) \<Longrightarrow> dec_round q t = x"
proof (induction fuel p x n d k rule: shortest_from.induct)
  case (2 fuel p x n d k)
  define t0 where "t0 = k - int p"
  obtain a b where ab: "(if 0 \<le> t0 then (n, d * 10 ^ nat t0) else (n * 10 ^ nat (- t0), d)) = (a, b)" by fastforce
  note r = "2.prems" [unfolded shortest_from.simps Let_def, folded t0_def, unfolded ab, simplified]
  show ?case
  proof (cases "dec_round (a div b) t0 = x \<and> dec_round (a div b + 1) t0 = x")
    case True
    with r have "q = half_even a b" "t = t0" by auto
    with True half_even_neighbour [of a b] show ?thesis by auto
  next
    case False
    with r ab "2.IH" show ?thesis by (auto simp: t0_def split: if_splits)
  qed
qed simp

lemma strip_zeros_value: "strip_zeros fuel q t = (q', t') \<Longrightarrow> \<exists>k. k \<le> fuel \<and> q = q' * 10 ^ k \<and> t' = t + int k"
proof (induction fuel q t rule: strip_zeros.induct)
  case (2 fuel q t)
  show ?case
  proof (cases "q \<noteq> 0 \<and> q mod 10 = 0")
    case True
    with "2.prems" have "strip_zeros fuel (q div 10) (t + 1) = (q', t')" by simp
    from "2.IH" [OF True this] obtain k where k: "k \<le> fuel" "q div 10 = q' * 10 ^ k" "t' = t + 1 + int k" by blast
    have "q = 10 * (q div 10)" using True by presburger
    then have "q = q' * 10 ^ Suc k" using k(2) by (simp add: ac_simps)
    with k show ?thesis by (intro exI [of _ "Suc k"]) simp
  next
    case False
    with "2.prems" show ?thesis by (intro exI [of _ 0]) auto
  qed
qed auto

lemma exact_decimal:
  assumes "f64_canon (F_Fin False m e)"
  shows "dec_float False (if 0 \<le> e then m * 2 ^ nat e else m * 5 ^ nat (- e)) (if 0 \<le> e then 0 else e) = F_Fin False m e"
proof -
  obtain n d where nd: "scaled m 1 (- e) = (n, d)" by fastforce
  let ?q = "if 0 \<le> e then m * 2 ^ nat e else m * 5 ^ nat (- e)" and ?t = "if 0 \<le> e then 0 else e"
  obtain a b where ab: "decimal ?q ?t = (a, b)" by fastforce
  have "(10 :: nat) ^ k = 5 ^ k * 2 ^ k" for k by (simp flip: power_mult_distrib)
  then have "0 < b" "a * d = n * b" "0 < d" using nd ab by (auto simp: scaled_def decimal_def split: if_splits)
  then have "round64 False a b = round64 False n d" using round64_cross by blast
  with round64_exact [OF assms nd] ab show ?thesis by (simp add: dec_float_def)
qed

lemma shortest_reads:
  assumes "f64_canon (F_Fin False m e)" and "shortest m e = (q, t)"
  shows "dec_float False q t = F_Fin False m e"
proof -
  obtain n d where nd: "scaled m 1 (- e) = (n, d)" by fastforce
  show ?thesis
  proof (cases "shortest_from 17 1 (F_Fin False m e) n d (dec_exp n d)")
    case None
    with assms nd exact_decimal [OF assms(1)] show ?thesis by (auto simp: shortest_def split: if_splits)
  next
    case (Some qt)
    obtain q0 t0 where qt: "qt = (q0, t0)" by fastforce
    with Some assms(2) nd have "strip_zeros 20 q0 t0 = (q, t)" by (simp add: shortest_def)
    from strip_zeros_value [OF this] obtain k where "q0 = q * 10 ^ k" "t = t0 + int k" by blast
    then have "dec_float False q t = dec_float False q0 t0"
      using dec_float_shift [of False q k t] by simp
    with shortest_from_reads [of 17 1 "F_Fin False m e" n d "dec_exp n d" q0 t0] Some qt show ?thesis
      by (simp add: dec_round_float)
  qed
qed

section \<open>Bounds on the digits\<close>

text \<open>The exponent field of a literal is read up to 10000, so it matters that the printed ones are small.\<close>

lemma nat_text_length: "n < 10 ^ k \<Longrightarrow> 0 < k \<Longrightarrow> length (nat_text n) \<le> k"
proof (induction n arbitrary: k rule: nat_text.induct)
  case (1 n)
  show ?case
  proof (cases "n < 10")
    case True
    with "1.prems" show ?thesis by (subst nat_text.simps) simp
  next
    case False
    then have "1 < k" using "1.prems" by (cases k) (auto simp: not_less intro: ccontr)
    then obtain j where j: "k = Suc j" "0 < j" by (cases k) auto
    then have "n div 10 < 10 ^ j" using "1.prems" by (simp add: less_mult_imp_div_less)
    with "1.IH" [OF False this j(2)] False j show ?thesis by (subst nat_text.simps) simp
  qed
qed

lemma nat_text_bound: "n < 10 ^ length (nat_text n)"
proof (induction n rule: nat_text.induct)
  case (1 n)
  show ?case
  proof (cases "n < 10")
    case True
    then show ?thesis by (subst nat_text.simps) simp
  next
    case False
    with 1 have "n div 10 < 10 ^ length (nat_text (n div 10))" by simp
    then have "n < 10 * 10 ^ length (nat_text (n div 10))" by linarith
    with False show ?thesis by (subst nat_text.simps) simp
  qed
qed

lemma neg_exp10_spec: "n < d \<Longrightarrow> n * 10 ^ neg_exp10 fuel n d < d \<and> neg_exp10 fuel n d \<le> fuel"
proof (induction fuel n d rule: neg_exp10.induct)
  case (2 fuel n d)
  show ?case
  proof (cases "n * 10 < d")
    case True
    with 2 show ?thesis by (simp add: ac_simps)
  next
    case False
    with 2 show ?thesis by simp
  qed
qed simp

lemma powi_nat: "(10::real) powi int k = 10 ^ k"
  by (simp add: power_int_def)

lemma shortest_from_bound:
  "shortest_from fuel p x n d k = Some (q, t) \<Longrightarrow> 0 < d \<Longrightarrow> real n / real d < 10 powi k \<Longrightarrow>
   q \<le> 10 ^ (p + fuel) \<and> k - int (p + fuel) \<le> t \<and> t \<le> k"
proof (induction fuel arbitrary: p)
  case (Suc fuel)
  define t0 where "t0 = k - int p"
  obtain a b where ab: "(if 0 \<le> t0 then (n, d * 10 ^ nat t0) else (n * 10 ^ nat (- t0), d)) = (a, b)" by fastforce
  note r = Suc.prems(1) [unfolded shortest_from.simps Let_def, folded t0_def, unfolded ab, simplified]
  have b: "0 < b" using ab Suc.prems(2) by (auto split: if_splits)
  have "real a / real b = real n / real d * 10 powi (- t0)"
  proof (cases "0 \<le> t0")
    case True
    then have "(10::real) powi (- t0) = inverse (10 ^ nat t0)" by (simp add: power_int_minus power_int_def power_one_over inverse_eq_divide)
    with True ab show ?thesis by (auto simp: divide_inverse)
  next
    case False
    then have "(10::real) powi (- t0) = 10 ^ nat (- t0)" by (simp add: power_int_def)
    with False ab show ?thesis by auto
  qed
  also have "\<dots> < 10 powi k * 10 powi (- t0)" using Suc.prems(3) by (intro mult_strict_right_mono) simp_all
  also have "\<dots> = 10 ^ p" unfolding t0_def by (simp flip: power_int_add add: powi_nat)
  finally have "real a < real (10 ^ p * b)" using b by (simp add: divide_less_eq)
  then have "a < 10 ^ p * b" by (simp only: of_nat_less_iff)
  then have "a div b < 10 ^ p" by (rule less_mult_imp_div_less)
  moreover have "(10::nat) ^ p \<le> 10 ^ (p + Suc fuel)" by (rule power_increasing) simp_all
  ultimately have q: "a div b \<le> 10 ^ (p + Suc fuel)" "a div b + 1 \<le> 10 ^ (p + Suc fuel)" by linarith+
  show ?case
  proof (cases "dec_round (a div b) t0 = x \<or> dec_round (a div b + 1) t0 = x")
    case True
    with r have "t = t0" "q = a div b \<or> q = a div b + 1"
      using half_even_neighbour [of a b] by (auto split: if_splits)
    with q show ?thesis by (auto simp: t0_def)
  next
    case False
    with r have "shortest_from fuel (Suc p) x n d k = Some (q, t)" by auto
    from Suc.IH [OF this Suc.prems(2,3)] show ?thesis by simp
  qed
qed simp

lemma dec_exp_spec:
  assumes "0 < d" and "n < 10 ^ 400"
  shows "real n / real d < 10 powi dec_exp n d \<and> - 400 \<le> dec_exp n d \<and> dec_exp n d \<le> 400"
proof (cases "d \<le> n")
  case True
  have "n div d < 10 ^ length (nat_text (n div d))" by (rule nat_text_bound)
  then have "n < 10 ^ length (nat_text (n div d)) * d"
    using assms(1) by (simp add: div_less_iff_less_mult)
  then have "real n < real (10 ^ length (nat_text (n div d)) * d)" by (simp only: of_nat_less_iff)
  then have "real n / real d < 10 ^ length (nat_text (n div d))" using assms(1) by (simp add: divide_less_eq)
  moreover have "n div d < 10 ^ 400" using assms(2) div_le_dividend le_less_trans by blast
  then have "length (nat_text (n div d)) \<le> 400" by (rule nat_text_length) simp
  ultimately show ?thesis using True by (simp add: dec_exp_def powi_nat)
next
  case False
  then have j: "n * 10 ^ neg_exp10 400 n d < d" "neg_exp10 400 n d \<le> 400" using neg_exp10_spec [of n d 400] by auto
  then have "real (n * 10 ^ neg_exp10 400 n d) < real d" by (simp only: of_nat_less_iff)
  then have "real n / real d < inverse (10 ^ neg_exp10 400 n d)" using assms(1)
    by (simp add: divide_simps)
  then show ?thesis using False j(2) by (simp add: dec_exp_def power_int_minus powi_nat)
qed

lemma canon_scaled_bound:
  assumes "f64_canon (F_Fin s m e)" and "scaled m 1 (- e) = (n, d)"
  shows "0 < d \<and> n < 10 ^ 400"
proof -
  have m: "m < 2 ^ 53" "e \<le> 971" using assms(1) by auto
  have "n \<le> m * 2 ^ nat e"
    using assms(2) by (auto simp: scaled_def split: if_splits)
  also have "\<dots> < 2 ^ 53 * 2 ^ nat e" using m(1) by simp
  also have "\<dots> \<le> 2 ^ 53 * 2 ^ 971" using m(2) by (intro mult_le_mono2 power_increasing) auto
  also have "\<dots> < (10::nat) ^ 400" by simp
  finally show ?thesis using assms(2) by (auto simp: scaled_def split: if_splits)
qed

lemma mult_bound: "(m::nat) < a \<Longrightarrow> x \<le> y \<Longrightarrow> 0 < y \<Longrightarrow> y \<le> b \<Longrightarrow> m * x < a * b"
  by (rule le_less_trans [OF mult_le_mono2 [of x b m]]) auto

lemma shortest_bound:
  assumes "f64_canon (F_Fin False m e)" and "shortest m e = (q, t)"
  shows "q < 10 ^ 1100 \<and> - 1100 \<le> t \<and> t \<le> 500"
proof -
  obtain n d where nd: "scaled m 1 (- e) = (n, d)" by fastforce
  note b = canon_scaled_bound [OF assms(1) nd]
  note k = dec_exp_spec [OF b [THEN conjunct1] b [THEN conjunct2]]
  have m: "m < 2 ^ 53" "- 1074 \<le> e" using assms(1) by auto
  show ?thesis
  proof (cases "shortest_from 17 1 (F_Fin False m e) n d (dec_exp n d)")
    case None
    show ?thesis
    proof (cases "0 \<le> e")
      case True
      then have "n = m * 2 ^ nat e" using nd by (cases "e = 0") (auto simp: scaled_def)
      moreover have "q = m * 2 ^ nat e" "t = 0" using None assms(2) nd True by (simp_all add: shortest_def)
      ultimately have qt: "q = n" "t = 0" by simp_all
      have "(10::nat) ^ 400 < 10 ^ 1100" by (rule power_strict_increasing) simp_all
      with b have "q < 10 ^ 1100" unfolding qt(1) by (blast intro: less_trans)
      moreover have "- 1100 \<le> t" "t \<le> 500" by (simp_all add: qt(2))
      ultimately show ?thesis by blast
    next
      case False
      with None assms(2) nd have q: "q = m * 5 ^ nat (- e)" "t = e" by (auto simp: shortest_def)
      have "m < 10 ^ 16" using m(1) by simp
      moreover have "(5::nat) ^ nat (- e) \<le> 10 ^ nat (- e)" by (rule power_mono) simp_all
      moreover have "0 < (10::nat) ^ nat (- e)" by simp
      moreover have "(10::nat) ^ nat (- e) \<le> 10 ^ 1074" using m(2) by (intro power_increasing) auto
      ultimately have "q < 10 ^ 16 * 10 ^ 1074" unfolding q(1) by (rule mult_bound)
      also have "(10::nat) ^ 16 * 10 ^ 1074 = 10 ^ 1090"
      proof -
        have "(16::nat) + 1074 = 1090" by simp
        then show ?thesis by (simp only: power_add [symmetric])
      qed
      also have "\<dots> < 10 ^ 1100" by (rule power_strict_increasing) simp_all
      finally have "q < 10 ^ 1100" .
      moreover have "- 1100 \<le> t" "t \<le> 500" using q(2) m(2) False by linarith+
      ultimately show ?thesis by blast
    qed
  next
    case (Some qt)
    obtain q0 t0 where qt: "qt = (q0, t0)" by fastforce
    with Some assms(2) nd have "strip_zeros 20 q0 t0 = (q, t)" by (simp add: shortest_def)
    from strip_zeros_value [OF this] obtain j where j: "j \<le> 20" "q0 = q * 10 ^ j" "t = t0 + int j" by blast
    from shortest_from_bound [of 17 1 _ n d _ q0 t0] Some qt b k
    have q0: "q0 \<le> 10 ^ 18" and t0: "dec_exp n d - 18 \<le> t0" "t0 \<le> dec_exp n d" by auto
    have "q \<le> q0" using j(2) by simp
    also note q0
    also have "(10::nat) ^ 18 < 10 ^ 1100" by (rule power_strict_increasing) simp_all
    finally have "q < 10 ^ 1100" .
    moreover have "- 1100 \<le> t" "t \<le> 500" using j(1,3) t0 k by linarith+
    ultimately show ?thesis by blast
  qed
qed

section \<open>Digit strings\<close>

lemma digits_val_append: "digits_val (a @ b) = digits_val a * 10 ^ length b + digits_val b"
proof (induction b rule: rev_induct)
  case (snoc c b)
  have "digits_val (a @ b @ [c]) = 10 * digits_val (a @ b) + digit_val c"
    using digits_val_snoc [of "a @ b" c] by simp
  with snoc show ?case by (simp add: algebra_simps)
qed (simp add: digits_val_def)

lemma digits_val_zeros: "digits_val (replicate k (CHR ''0'')) = 0"
proof (induction k)
  case (Suc k)
  have "digits_val (replicate k (CHR ''0'') @ [CHR ''0'']) = 0" using Suc by (simp add: digit_val_def byte_of_def)
  then show ?case by (simp add: replicate_append_same)
qed (simp add: digits_val_def)

lemma zero_digit [simp]: "is_digit (CHR ''0'')" "digit_val (CHR ''0'') = 0"
  by (simp_all add: is_digit_def digit_val_def byte_of_def)

lemma zeros_digits [simp]: "list_all is_digit (replicate k (CHR ''0''))"
  by (simp add: list_all_length)

lemma sat_digits_small:
  assumes "digits_val s < 10000"
  shows "sat_digits s = digits_val s"
proof -
  have le: "acc \<le> foldl (\<lambda>n c. 10 * n + digit_val c) acc s" for acc s
  proof (induction s arbitrary: acc)
    case (Cons c s)
    from Cons [of "10 * acc + digit_val c"] show ?case by simp
  qed simp
  have "foldl (\<lambda>n c. if n < 10000 then 10 * n + digit_val c else n) acc s = foldl (\<lambda>n c. 10 * n + digit_val c) acc s"
    if "foldl (\<lambda>n c. 10 * n + digit_val c) acc s < 10000" for acc
    using that
  proof (induction s arbitrary: acc)
    case (Cons c s)
    have "acc < 10000" using le [of acc "c # s"] Cons.prems by linarith
    with Cons show ?case by simp
  qed simp
  with assms show ?thesis by (simp add: sat_digits_def digits_val_def)
qed

lemma takeWhile_digits:
  "list_all is_digit a \<Longrightarrow> r = [] \<or> \<not> is_digit (hd r) \<Longrightarrow>
   takeWhile is_digit (a @ r) = a \<and> dropWhile is_digit (a @ r) = r"
  by (induction a) (cases r; auto)+

lemma nat_text_hd: "0 < n \<Longrightarrow> hd (nat_text n) \<noteq> CHR ''0''"
proof (induction n rule: nat_text.induct)
  case (1 n)
  have d: "digit_char k \<noteq> CHR ''0''" if "0 < k" "k < 10" for k
  proof
    assume "digit_char k = CHR ''0''"
    then have "digit_val (digit_char k) = 0" by simp
    with that show False by simp
  qed
  show ?case
  proof (cases "n < 10")
    case True
    with d 1 show ?thesis by (subst nat_text.simps) simp
  next
    case False
    with 1 show ?thesis by (subst nat_text.simps) simp
  qed
qed

section \<open>Literals put together from their parts\<close>

definition sign_text :: "bool \<Rightarrow> string" where
  "sign_text s = (if s then ''-'' else [])"

definition frac_text :: "string \<Rightarrow> string" where
  "frac_text fp = (if fp = [] then [] else CHR ''.'' # fp)"

text \<open>An exponent field, or nothing.\<close>

definition exp_field :: "string \<Rightarrow> bool" where
  "exp_field x \<longleftrightarrow>
     x = [] \<or> (\<exists>sg ds. x = CHR ''e'' # sg # ds \<and> (sg = CHR ''+'' \<or> sg = CHR ''-'') \<and> ds \<noteq> [] \<and> list_all is_digit ds)"

lemma digit_not:
  "is_digit c \<Longrightarrow> c \<noteq> CHR ''-'' \<and> c \<noteq> CHR ''+'' \<and> c \<noteq> CHR ''.'' \<and> c \<noteq> CHR ''e'' \<and> c \<noteq> CHR ''E''"
  by (auto simp: is_digit_def byte_of_def)

lemma not_digit [simp]: "\<not> is_digit (CHR ''.'')" "\<not> is_digit (CHR ''e'')" "\<not> is_digit (CHR ''-'')" "\<not> is_digit (CHR ''+'')"
  by (simp_all add: is_digit_def byte_of_def)

lemma exp_field_hd: "exp_field x \<Longrightarrow> x = [] \<or> (hd x = CHR ''e'')"
  by (auto simp: exp_field_def)

lemma frac_hd: "exp_field x \<Longrightarrow> frac_text fp @ x = [] \<or> \<not> is_digit (hd (frac_text fp @ x))"
  using exp_field_hd [of x] by (auto simp: frac_text_def hd_append)

lemma parse_float_parts:
  assumes "ip \<noteq> []" and "list_all is_digit ip" and "list_all is_digit fp" and "exp_field x"
  shows "parse_float (sign_text s @ ip @ frac_text fp @ x) =
    (let f = dec_float s (digits_val (ip @ fp)) (exp_part x - int (length fp))
     in if f64_is_inf f then None else Some f)"
proof -
  obtain c cs where ip: "ip = c # cs" "is_digit c" using assms(1,2) by (cases ip) auto
  let ?r = "ip @ frac_text fp @ x"
  have sg: "(case sign_text s @ ?r of [] \<Rightarrow> (False, []) | c # cs \<Rightarrow> if c = CHR ''-'' then (True, cs) else (False, sign_text s @ ?r)) = (s, ?r)"
    using ip digit_not [OF ip(2)] by (simp add: sign_text_def)
  have ipd: "takeWhile is_digit ?r = ip" "dropWhile is_digit ?r = frac_text fp @ x"
    using takeWhile_digits [OF assms(2) frac_hd [OF assms(4), of fp]] by blast+
  have fpd: "takeWhile is_digit (fp @ x) = fp" "dropWhile is_digit (fp @ x) = x"
    using takeWhile_digits [OF assms(3), of x] exp_field_hd [OF assms(4)] by auto
  have fr: "(case frac_text fp @ x of [] \<Rightarrow> ([], []) | c # cs \<Rightarrow>
      if c = CHR ''.'' then (takeWhile is_digit cs, dropWhile is_digit cs) else ([], frac_text fp @ x)) = (fp, x)"
    using fpd exp_field_hd [OF assms(4)] by (cases x) (auto simp: frac_text_def)
  show ?thesis
    unfolding parse_float_def sg prod.case Let_def ipd fr by (simp add: dec_float_def decimal_def)
qed

lemma json_number_parts:
  assumes "ip \<noteq> []" and "list_all is_digit ip" and "hd ip \<noteq> CHR ''0'' \<or> ip = ''0''"
    and "list_all is_digit fp" and "exp_field x"
  shows "json_number (sign_text s @ ip @ frac_text fp @ x) = Some (sign_text s @ ip @ frac_text fp @ x, [])"
proof -
  obtain c cs where ip: "ip = c # cs" "is_digit c" using assms(1,2) by (cases ip) auto
  let ?r = "ip @ frac_text fp @ x"
  have sg: "(case sign_text s @ ?r of [] \<Rightarrow> ([], []) | c # cs \<Rightarrow> if c = CHR ''-'' then ([c], cs) else ([], sign_text s @ ?r)) = (sign_text s, ?r)"
    using ip digit_not [OF ip(2)] by (simp add: sign_text_def)
  have "takeWhile is_digit ?r = ip" "dropWhile is_digit ?r = frac_text fp @ x"
    using takeWhile_digits [OF assms(2) frac_hd [OF assms(5), of fp]] by blast+
  with ip assms(3) have i: "json_int_part ?r = Some (ip, frac_text fp @ x)"
    by (auto simp: json_int_part_def)
  have "takeWhile is_digit (fp @ x) = fp" "dropWhile is_digit (fp @ x) = x"
    using takeWhile_digits [OF assms(4), of x] exp_field_hd [OF assms(5)] by auto
  then have f: "json_frac_part (frac_text fp @ x) = Some (frac_text fp, x)"
    using exp_field_hd [OF assms(5)] by (cases x; cases fp) (auto simp: json_frac_part_def frac_text_def)
  have e: "json_exp_part x = Some (x, [])"
  proof (cases "x = []")
    case False
    with assms(5) obtain sg ds where "x = CHR ''e'' # sg # ds" "sg = CHR ''+'' \<or> sg = CHR ''-''" "ds \<noteq> []" "list_all is_digit ds"
      by (auto simp: exp_field_def)
    moreover from this(4) have "takeWhile is_digit ds = ds" "dropWhile is_digit ds = []"
      by (simp_all add: takeWhile_eq_all_conv list_all_iff dropWhile_eq_Nil_conv)
    ultimately show ?thesis
      by (auto simp: json_exp_part_def Let_def simp del: takeWhile_eq_all_conv dropWhile_eq_Nil_conv takeWhile_eq_Nil_iff)
  qed (simp add: json_exp_part_def)
  show ?thesis unfolding json_number_def sg prod.case Let_def i f option.case e by simp
qed

section \<open>A float printed and read\<close>

lemma plain_text_reads:
  assumes "0 < q"
  shows "\<exists>ip fp. plain_text q t = ip @ frac_text fp \<and> ip \<noteq> [] \<and> list_all is_digit ip \<and> list_all is_digit fp \<and>
    (hd ip \<noteq> CHR ''0'' \<or> ip = ''0'') \<and> dec_float s (digits_val (ip @ fp)) (- int (length fp)) = dec_float s q t"
proof -
  define ds where "ds = nat_text q"
  have ds: "ds \<noteq> []" "list_all is_digit ds" "hd ds \<noteq> CHR ''0''" "digits_val ds = q"
    using nat_text_hd [OF assms] nat_text_digits by (simp_all add: ds_def)
  define k where "k = int (length ds) + t"
  have p: "plain_text q t = (if k \<le> 0 then ''0.'' @ replicate (nat (- k)) (CHR ''0'') @ ds
      else if int (length ds) \<le> k then ds @ replicate (nat t) (CHR ''0'')
      else take (nat k) ds @ CHR ''.'' # drop (nat k) ds)"
    by (simp add: plain_text_def Let_def ds_def k_def)
  consider "k \<le> 0" | "0 < k" "int (length ds) \<le> k" | "0 < k" "k < int (length ds)" by linarith
  then show ?thesis
  proof cases
    case 1
    have "digits_val (''0'' @ replicate (nat (- k)) (CHR ''0'') @ ds) = q"
      using digits_val_append [of "''0''" "replicate (nat (- k)) (CHR ''0'') @ ds"]
        digits_val_append [of "replicate (nat (- k)) (CHR ''0'')" ds] digits_val_zeros [of 1] digits_val_zeros ds(4)
      by simp
    with 1 p ds show ?thesis
      by (intro exI [of _ "''0''"] exI [of _ "replicate (nat (- k)) (CHR ''0'') @ ds"])
         (simp add: frac_text_def k_def)
  next
    case 2
    then have t: "0 \<le> t" by (simp add: k_def)
    have "digits_val (ds @ replicate (nat t) (CHR ''0'')) = q * 10 ^ nat t"
      using digits_val_append [of ds] digits_val_zeros ds(4) by simp
    with dec_float_shift [of s q "nat t" t] t have
      "dec_float s (digits_val (ds @ replicate (nat t) (CHR ''0''))) 0 = dec_float s q t" by simp
    with 2 p ds show ?thesis
      by (intro exI [of _ "ds @ replicate (nat t) (CHR ''0'')"] exI [of _ "[]"]) (simp add: frac_text_def)
  next
    case 3
    then have "drop (nat k) ds \<noteq> []" "take (nat k) ds \<noteq> []" "hd (take (nat k) ds) = hd ds"
      using ds(1) by (auto simp: hd_take)
    moreover have "list_all is_digit (take (nat k) ds)" "list_all is_digit (drop (nat k) ds)"
      using ds(2) by (auto simp: list_all_iff dest: in_set_takeD in_set_dropD)
    moreover have "- int (length (drop (nat k) ds)) = t" using 3 by (simp add: k_def of_nat_diff)
    ultimately show ?thesis using 3 p ds
      by (intro exI [of _ "take (nat k) ds"] exI [of _ "drop (nat k) ds"]) (simp add: frac_text_def)
  qed
qed

lemma exp_part_text:
  assumes "list_all is_digit ds" and "ds \<noteq> []" and "digits_val ds < 10000"
  shows "exp_part (CHR ''e'' # CHR ''-'' # ds) = - int (digits_val ds)"
    and "exp_part (CHR ''e'' # CHR ''+'' # ds) = int (digits_val ds)"
  using assms by (simp_all add: exp_part_def sat_digits_small)

lemma exp_text_reads:
  assumes "0 < q" and "\<bar>int (length (nat_text q)) + t - 1\<bar> < 10000"
  shows "\<exists>ip fp x. exp_text q t = ip @ frac_text fp @ x \<and> ip \<noteq> [] \<and> list_all is_digit ip \<and> list_all is_digit fp \<and>
    hd ip \<noteq> CHR ''0'' \<and> exp_field x \<and>
    dec_float s (digits_val (ip @ fp)) (exp_part x - int (length fp)) = dec_float s q t"
proof -
  define ds where "ds = nat_text q"
  have ds: "ds \<noteq> []" "list_all is_digit ds" "hd ds \<noteq> CHR ''0''" "digits_val ds = q"
    using nat_text_hd [OF assms(1)] nat_text_digits by (simp_all add: ds_def)
  define e where "e = int (length ds) + t - 1"
  define x where "x = (if e < 0 then ''e-'' @ nat_text (nat (- e)) else ''e+'' @ pad_left 2 (nat_text (nat e)))"
  have p: "exp_text q t = take 1 ds @ frac_text (drop 1 ds) @ x"
    using ds(1) by (cases ds) (auto simp: exp_text_def Let_def frac_text_def x_def e_def simp flip: ds_def)
  have e: "\<bar>e\<bar> < 10000" using assms(2) by (simp add: e_def ds_def)
  have pad: "digits_val (pad_left 2 u) = digits_val u" "list_all is_digit u \<Longrightarrow> list_all is_digit (pad_left 2 u)"
    "u \<noteq> [] \<Longrightarrow> pad_left 2 u \<noteq> []" for u
    by (simp_all add: pad_left_def digits_val_append digits_val_zeros)
  have ev: "exp_part x = e"
    using e by (auto simp: x_def exp_part_text nat_text_digits pad)
  have ef: "exp_field x" by (auto simp: x_def exp_field_def nat_text_digits pad)
  have "list_all is_digit (take 1 ds)" "list_all is_digit (drop 1 ds)" "take 1 ds \<noteq> []" "hd (take 1 ds) = hd ds"
    using ds(1,2) by (cases ds; simp)+
  moreover have "exp_part x - int (length (drop 1 ds)) = t" using ds(1) by (cases ds) (simp_all add: ev e_def)
  ultimately show ?thesis using p ds ef
    by (intro exI [of _ "take 1 ds"] exI [of _ "drop 1 ds"] exI [of _ x]) simp
qed

text \<open>What the encoder writes for a representable finite value is a number literal that reads back as the value.\<close>

theorem json_float_reads:
  assumes "f64_canon f" and "json_float f = Some l"
  shows "json_number l = Some (l, []) \<and> parse_float l = Some f"
proof -
  obtain s m e where f: "f = F_Fin s m e" using assms(2) by (cases f) auto
  show ?thesis
  proof (cases "m = 0")
    case True
    with assms f have e: "e = - 1074" and l: "l = sign_text s @ ''0'' @ frac_text [] @ []"
      by (auto simp: sign_text_def frac_text_def)
    have "dec_float s 0 0 = f" using f True e by (simp add: dec_float_def decimal_def round64_def)
    then show ?thesis
      unfolding l using parse_float_parts [of "''0''" "[]" "[]" s] json_number_parts [of "''0''" "[]" "[]" s] f
      by (simp add: exp_field_def exp_part_def digits_val_def)
  next
    case False
    obtain q t where qt: "shortest m e = (q, t)" by fastforce
    have c: "f64_canon (F_Fin False m e)" using assms(1) f by simp
    have dec: "dec_float s q t = f" using dec_float_sign [OF shortest_reads [OF c qt]] f by simp
    have q: "0 < q"
    proof (rule ccontr)
      assume "\<not> 0 < q"
      then have "dec_float s q t = F_Fin s 0 (- 1074)" by (simp add: dec_float_def decimal_def round64_def)
      with dec f False show False by simp
    qed
    have b: "\<bar>int (length (nat_text q)) + t - 1\<bar> < 10000"
    proof -
      note sb = shortest_bound [OF c qt]
      have "length (nat_text q) \<le> 1100" by (rule nat_text_length) (use sb in blast, simp)
      moreover have "- 1100 \<le> t" "t \<le> 500" using sb by blast+
      ultimately show ?thesis by linarith
    qed
    have fin: "\<not> f64_is_inf f" using f by simp
    have l: "l = sign_text s @ exp_text q t \<or> l = sign_text s @ plain_text q t"
      using assms(2) f False qt by (auto simp: sign_text_def Let_def split: if_splits)
    then show ?thesis
    proof
      assume l: "l = sign_text s @ exp_text q t"
      from exp_text_reads [OF q b, of s] obtain ip fp x where r: "exp_text q t = ip @ frac_text fp @ x" "ip \<noteq> []"
        "list_all is_digit ip" "list_all is_digit fp" "hd ip \<noteq> CHR ''0''" "exp_field x"
        "dec_float s (digits_val (ip @ fp)) (exp_part x - int (length fp)) = dec_float s q t" by blast
      have "json_number l = Some (l, [])"
        unfolding l r(1) by (rule json_number_parts) (use r in auto)
      moreover have "parse_float l = Some f"
        unfolding l r(1) parse_float_parts [OF r(2,3,4,6)] r(7) dec Let_def by (simp add: fin)
      ultimately show ?thesis ..
    next
      assume l: "l = sign_text s @ plain_text q t"
      from plain_text_reads [OF q, of t s] obtain ip fp where r: "plain_text q t = ip @ frac_text fp" "ip \<noteq> []"
        "list_all is_digit ip" "list_all is_digit fp" "hd ip \<noteq> CHR ''0'' \<or> ip = ''0''"
        "dec_float s (digits_val (ip @ fp)) (- int (length fp)) = dec_float s q t" by blast
      have x: "exp_field []" "exp_part [] = 0" by (simp_all add: exp_field_def exp_part_def)
      have l': "l = sign_text s @ ip @ frac_text fp @ []" using l r(1) by simp
      have "json_number l = Some (l, [])"
        unfolding l' by (rule json_number_parts) (use r x in auto)
      moreover have "parse_float l = Some f"
        unfolding l' parse_float_parts [OF r(2,3,4) x(1)] Let_def x(2) using r(6) dec fin by simp
      ultimately show ?thesis ..
    qed
  qed
qed

end
