(* ===== verification/JsonRender.thy ===== *)
theory JsonRender
  imports JsonStrings JsonFloat
begin

text \<open>
  The JSON grammar as a relation between values and their texts, with white space wherever it may
  stand, and the parser against it: \<open>renders d v s\<close> says that \<open>s\<close> is a text of \<open>v\<close> with at most \<open>d\<close>
  nested containers. The parser accepts every such text (\<open>parse_renders\<close>); that it accepts no other
  is \<open>parser_renders\<close> of \<open>JsonSound\<close>. A value is taken up to the raw bytes kept beside elements and members.
\<close>

section \<open>Values without their raw bytes\<close>

fun erase :: "json \<Rightarrow> json" where
  "erase (JArr es) = JArr (map (\<lambda>e. ([], erase (snd e))) es)"
| "erase (JObj ms) = JObj (map (\<lambda>m. (fst m, [], erase (snd (snd m)))) ms)"
| "erase v = v"

abbreviation erase_elem :: "string \<times> json \<Rightarrow> string \<times> json" where
  "erase_elem e \<equiv> ([], erase (snd e))"

abbreviation erase_member :: "string \<times> string \<times> json \<Rightarrow> string \<times> string \<times> json" where
  "erase_member m \<equiv> (fst m, [], erase (snd (snd m)))"

section \<open>The grammar\<close>

abbreviation blank :: "string \<Rightarrow> bool" where
  "blank w \<equiv> list_all json_ws w"

text \<open>\<open>literal q\<close>: the contents of a string literal.\<close>

inductive literal :: "string \<Rightarrow> bool" where
  empty: "literal []"
| plain: "c \<noteq> dquote \<Longrightarrow> c \<noteq> backslash \<Longrightarrow> 32 \<le> byte_of c \<Longrightarrow> literal q \<Longrightarrow> literal (c # q)"
| escape: "simple_escape e \<Longrightarrow> literal q \<Longrightarrow> literal (backslash # e # q)"
| unicode: "is_hex a \<Longrightarrow> is_hex b \<Longrightarrow> is_hex c \<Longrightarrow> is_hex d \<Longrightarrow> literal q \<Longrightarrow>
    literal (backslash # CHR ''u'' # a # b # c # d # q)"

lemma u_not_simple: "\<not> simple_escape (CHR ''u'')"
  by (simp add: simple_escape_def)

lemma literal_read: "literal q \<Longrightarrow> json_string (q @ dquote # t) = Some (q, t)"
  by (induction rule: literal.induct) (auto simp: u_not_simple)

lemma read_literal: "json_string s = Some (q, t) \<Longrightarrow> literal q \<and> s = q @ dquote # t"
proof (induction s arbitrary: q t rule: json_string.induct)
  case (2 c cs)
  show ?case
  proof (cases "c = dquote \<or> c \<noteq> backslash")
    case True
    with 2 show ?thesis by (auto intro: literal.empty literal.plain split: if_splits)
  next
    case False
    then have bs: "c \<noteq> dquote" "c = backslash" by auto
    from "2.prems" bs obtain e cs' where cs: "cs = e # cs'" by (auto split: list.splits)
    show ?thesis
    proof (cases "simple_escape e")
      case True
      with "2.prems" bs cs obtain q' where q': "json_string cs' = Some (q', t)" "q = c # e # q'" by auto
      from "2.IH"(1) [OF bs cs True q'(1)] have "literal q'" "cs' = q' @ dquote # t" by auto
      with True bs cs q' show ?thesis by (auto intro: literal.escape)
    next
      case False
      from "2.prems" bs cs False obtain a b x d u where u: "e = CHR ''u''" "cs' = a # b # x # d # u"
        "is_hex a \<and> is_hex b \<and> is_hex x \<and> is_hex d"
        by (auto split: list.splits if_splits)
      with "2.prems" bs cs False obtain q' where q': "json_string u = Some (q', t)"
        "q = backslash # CHR ''u'' # a # b # x # d # q'" by auto
      from "2.IH"(2) [OF bs cs False u(1,2) refl refl refl u(3) q'(1)] have "literal q'" "u = q' @ dquote # t" by auto
      with bs cs u q' show ?thesis by (auto intro: literal.unicode)
    qed
  qed
qed simp

inductive renders :: "nat \<Rightarrow> json \<Rightarrow> string \<Rightarrow> bool"
  and rend_elems :: "nat \<Rightarrow> (string \<times> json) list \<Rightarrow> string \<Rightarrow> bool"
  and rend_members :: "nat \<Rightarrow> (string \<times> string \<times> json) list \<Rightarrow> string \<Rightarrow> bool"
where
  null: "renders d JNull ''null''"
| bool: "renders d (JBool b) (bool_text b)"
| num: "json_number l = Some (l, []) \<Longrightarrow> renders d (JNum l) l"
| str: "literal q \<Longrightarrow> renders d (JStr (unquote q)) (dquote # q @ [dquote])"
| arr0: "blank w \<Longrightarrow> renders (Suc d) (JArr []) (CHR ''['' # w @ [CHR '']''])"
| arr: "rend_elems d es t \<Longrightarrow> blank w \<Longrightarrow> renders (Suc d) (JArr es) (CHR ''['' # w @ t)"
| obj0: "blank w \<Longrightarrow> renders (Suc d) (JObj []) (CHR ''{'' # w @ [CHR ''}''])"
| obj: "rend_members d ms t \<Longrightarrow> blank w \<Longrightarrow> renders (Suc d) (JObj ms) (CHR ''{'' # w @ t)"
| elem1: "renders d v s \<Longrightarrow> blank w \<Longrightarrow> rend_elems d [(raw, v)] (s @ w @ [CHR '']''])"
| elem: "renders d v s \<Longrightarrow> blank w \<Longrightarrow> blank w' \<Longrightarrow> rend_elems d es t \<Longrightarrow>
    rend_elems d ((raw, v) # es) (s @ w @ CHR '','' # w' @ t)"
| member1: "literal q \<Longrightarrow> blank w1 \<Longrightarrow> blank w2 \<Longrightarrow> renders d v s \<Longrightarrow> blank w \<Longrightarrow>
    rend_members d [(unquote q, raw, v)]
      (dquote # q @ dquote # w1 @ CHR '':'' # w2 @ s @ w @ [CHR ''}''])"
| member: "literal q \<Longrightarrow> blank w1 \<Longrightarrow> blank w2 \<Longrightarrow> renders d v s \<Longrightarrow> blank w \<Longrightarrow> blank w' \<Longrightarrow>
    rend_members d ms t \<Longrightarrow>
    rend_members d ((unquote q, raw, v) # ms)
      (dquote # q @ dquote # w1 @ CHR '':'' # w2 @ s @ w @ CHR '','' # w' @ t)"

section \<open>Tokens in context\<close>

lemma skip_ws_blank: "blank w \<Longrightarrow> skip_ws (w @ t) = skip_ws t"
  by (induction w) (simp_all add: skip_ws_def)

lemma skip_ws_Cons [simp]: "\<not> json_ws c \<Longrightarrow> skip_ws (c # t) = c # t"
  by (simp add: skip_ws_def)

lemma json_ws_chars [simp]:
  "\<not> json_ws (CHR '','')" "\<not> json_ws (CHR '']'')" "\<not> json_ws (CHR ''}'')" "\<not> json_ws (CHR '':'')"
  "\<not> json_ws (CHR ''['')" "\<not> json_ws (CHR ''{'')" "\<not> json_ws dquote" "\<not> json_ws (CHR ''n'')"
  "\<not> json_ws (CHR ''t'')" "\<not> json_ws (CHR ''f'')"
  by (simp_all add: json_ws_def)

text \<open>What follows a number must not extend it.\<close>

definition stops :: "string \<Rightarrow> bool" where
  "stops t \<longleftrightarrow> (case t of [] \<Rightarrow> True | c # _ \<Rightarrow> \<not> number_char c)"

lemma stops_simps [simp]:
  "stops []" "stops (c # t) \<longleftrightarrow> \<not> number_char c"
  by (simp_all add: stops_def)

lemma not_number_chars [simp]:
  "\<not> number_char (CHR '','')" "\<not> number_char (CHR '']'')" "\<not> number_char (CHR ''}'')"
  by (simp_all add: number_char_def is_digit_def byte_of_def)

lemma ws_not_number: "json_ws c \<Longrightarrow> \<not> number_char c"
  by (auto simp: json_ws_def number_char_def is_digit_def byte_of_def)

lemma stops_blank: "blank w \<Longrightarrow> stops t \<Longrightarrow> stops (w @ t)"
  using ws_not_number by (cases w) auto

lemma stops_digit: "stops t \<Longrightarrow> t = [] \<or> \<not> is_digit (hd t)"
  using is_digit_number by (cases t) auto

lemma takeWhile_more:
  "dropWhile P s \<noteq> [] \<or> r = [] \<or> \<not> P (hd r) \<Longrightarrow>
   takeWhile P (s @ r) = takeWhile P s \<and> dropWhile P (s @ r) = dropWhile P s @ r"
  by (induction s) (auto simp: takeWhile_eq_Nil_iff dropWhile_eq_self_iff)

lemma int_part_more:
  assumes "json_int_part s = Some (i, u)" and "u \<noteq> [] \<or> stops r"
  shows "json_int_part (s @ r) = Some (i, u @ r)"
proof -
  from assms(1) obtain c cs where s: "s = c # cs" by (cases s) (auto simp: json_int_part_def)
  have "dropWhile is_digit s \<noteq> [] \<or> r = [] \<or> \<not> is_digit (hd r)" if "u = dropWhile is_digit s"
    using assms(2) stops_digit that by blast
  with assms(1) s takeWhile_more [of is_digit s r] show ?thesis
    by (auto simp: json_int_part_def split: if_splits)
qed

lemma frac_part_more:
  assumes "json_frac_part s = Some (f, u)" and "u \<noteq> [] \<or> stops r"
  shows "json_frac_part (s @ r) = Some (f, u @ r)"
proof (cases s)
  case Nil
  with assms have "f = []" "u = []" "stops r" by (auto simp: json_frac_part_def)
  moreover have "r \<noteq> [] \<Longrightarrow> hd r \<noteq> CHR ''.''" using calculation(3)
    by (cases r) (auto simp: number_char_def)
  ultimately show ?thesis using Nil by (cases r) (auto simp: json_frac_part_def)
next
  case (Cons c cs)
  have "dropWhile is_digit cs \<noteq> [] \<or> r = [] \<or> \<not> is_digit (hd r)" if "u = dropWhile is_digit cs"
    using assms(2) stops_digit that by blast
  with assms(1) Cons takeWhile_more [of is_digit cs r] show ?thesis
    by (auto simp: json_frac_part_def split: if_splits)
qed

lemma exp_part_more:
  assumes "json_exp_part s = Some (x, u)" and "u \<noteq> [] \<or> stops r"
  shows "json_exp_part (s @ r) = Some (x, u @ r)"
proof (cases s)
  case Nil
  with assms have "x = []" "u = []" "stops r" by (auto simp: json_exp_part_def)
  moreover have "r \<noteq> [] \<Longrightarrow> hd r \<noteq> CHR ''e'' \<and> hd r \<noteq> CHR ''E''" using calculation(3)
    by (cases r) (auto simp: number_char_def)
  ultimately show ?thesis using Nil by (cases r) (auto simp: json_exp_part_def)
next
  case (Cons c cs)
  show ?thesis
  proof (cases "c = CHR ''e'' \<or> c = CHR ''E''")
    case False
    with assms(1) Cons have "x = []" "u = c # cs" by (auto simp: json_exp_part_def)
    with False Cons show ?thesis by (auto simp: json_exp_part_def)
  next
    case True
    define sp where "sp = (\<lambda>cs. case cs of [] \<Rightarrow> ([], []) | d # t \<Rightarrow>
      if d = CHR ''+'' \<or> d = CHR ''-'' then ([d], t) else ([], cs))"
    obtain sg ds where sg: "sp cs = (sg, ds)" by fastforce
    have e: "json_exp_part (c # y) = (case sp y of (sg, ds) \<Rightarrow>
        if takeWhile is_digit ds = [] then None
        else Some (c # sg @ takeWhile is_digit ds, dropWhile is_digit ds))" for y
      using True by (auto simp: json_exp_part_def sp_def Let_def)
    from assms(1) e [of cs] sg Cons have ne: "takeWhile is_digit ds \<noteq> []"
      and x: "x = c # sg @ takeWhile is_digit ds" "u = dropWhile is_digit ds" by (auto split: if_splits)
    then have "cs \<noteq> []" using sg by (auto simp: sp_def)
    with sg have "sp (cs @ r) = (sg, ds @ r)" by (cases cs) (auto simp: sp_def split: if_splits)
    moreover have "dropWhile is_digit ds \<noteq> [] \<or> r = [] \<or> \<not> is_digit (hd r)"
      using assms(2) stops_digit x by blast
    ultimately show ?thesis using takeWhile_more [of is_digit ds r] ne x e [of "cs @ r"] Cons by simp
  qed
qed

lemma number_more:
  assumes "json_number l = Some (l, [])" and "stops r"
  shows "json_number (l @ r) = Some (l, r)"
proof -
  define sp where "sp = (\<lambda>s :: string. case s of [] \<Rightarrow> ([], []) | c # cs \<Rightarrow> if c = CHR ''-'' then ([c], cs) else ([], s))"
  obtain sg t where sg: "sp l = (sg, t)" by fastforce
  have e: "json_number s = (case sp s of (sg, t) \<Rightarrow>
      case json_int_part t of None \<Rightarrow> None | Some (i, u) \<Rightarrow>
        (case json_frac_part u of None \<Rightarrow> None | Some (f, v) \<Rightarrow>
          (case json_exp_part v of None \<Rightarrow> None | Some (x, w) \<Rightarrow> Some (sg @ i @ f @ x, w))))" for s
    by (simp add: json_number_def sp_def Let_def)
  from assms(1) e [of l] sg obtain i u f v x where
    i: "json_int_part t = Some (i, u)" and f: "json_frac_part u = Some (f, v)"
    and x: "json_exp_part v = Some (x, [])" and l: "l = sg @ i @ f @ x"
    by (auto split: option.splits prod.splits)
  from assms(1) json_number_split have "l \<noteq> []" by blast
  with sg have "sp (l @ r) = (sg, t @ r)" by (cases l) (auto simp: sp_def split: if_splits)
  moreover have "json_exp_part (v @ r) = Some (x, [] @ r)" by (rule exp_part_more [OF x]) (simp add: assms(2))
  moreover have "json_frac_part (u @ r) = Some (f, v @ r)" by (rule frac_part_more [OF f]) (simp add: assms(2))
  moreover have "json_int_part (t @ r) = Some (i, u @ r)" by (rule int_part_more [OF i]) (simp add: assms(2))
  ultimately show ?thesis using e [of "l @ r"] l by simp
qed

section \<open>The parser accepts every text of a value\<close>

text \<open>A text of a value starts with a character that is neither white space nor a closing bracket.\<close>

definition starts_value :: "string \<Rightarrow> bool" where
  "starts_value s \<longleftrightarrow> (\<exists>c cs. s = c # cs \<and> \<not> json_ws c \<and> c \<noteq> CHR '']'' \<and> c \<noteq> CHR ''}'')"

lemma number_start: "json_number l = Some (l, []) \<Longrightarrow> \<exists>c cs. l = c # cs \<and> (is_digit c \<or> c = CHR ''-'')"
  by (cases l) (auto simp: json_number_def json_int_part_def Let_def split: if_splits option.splits)

lemma digit_start: "is_digit c \<or> c = CHR ''-'' \<Longrightarrow>
  \<not> json_ws c \<and> c \<noteq> dquote \<and> c \<notin> set [CHR ''['', CHR ''{'', CHR '']'', CHR ''}'', CHR ''t'', CHR ''f'', CHR ''n'']"
  by (auto simp: is_digit_def byte_of_def json_ws_def)

lemma renders_starts:
  "renders d v s \<Longrightarrow> starts_value (s @ r)"
proof (induction rule: renders.cases)
  case (num l d)
  with number_start [of l] digit_start show ?case by (fastforce simp: starts_value_def)
qed (auto simp: starts_value_def bool_text_def)

lemma starts_skip: "starts_value s \<Longrightarrow> skip_ws s = s"
  by (auto simp: starts_value_def)

lemma renders_skip: "renders d v s \<Longrightarrow> blank w \<Longrightarrow> skip_ws (w @ s @ r) = s @ r"
  by (simp add: skip_ws_blank starts_skip renders_starts)

text \<open>Enough fuel parses the text and leaves the rest.\<close>

definition reads_value :: "nat \<Rightarrow> json \<Rightarrow> string \<Rightarrow> bool" where
  "reads_value d v s \<longleftrightarrow>
     (\<forall>r. stops r \<longrightarrow> (\<exists>v' N. erase v' = erase v \<and> (\<forall>n \<ge> N. json_value n d (s @ r) = Some (v', r))))"

lemma reads_valueI:
  assumes "\<And>r. stops r \<Longrightarrow> \<exists>v' N. erase v' = erase v \<and> (\<forall>n \<ge> N. json_value (Suc n) d (s @ r) = Some (v', r))"
  shows "reads_value d v s"
  unfolding reads_value_def
proof (intro allI impI)
  fix r
  assume "stops r"
  from assms [OF this] obtain v' N where "erase v' = erase v" "\<forall>n \<ge> N. json_value (Suc n) d (s @ r) = Some (v', r)" by blast
  then have "json_value n d (s @ r) = Some (v', r)" if "Suc N \<le> n" for n using that by (cases n) auto
  with \<open>erase v' = erase v\<close> show "\<exists>v' N. erase v' = erase v \<and> (\<forall>n \<ge> N. json_value n d (s @ r) = Some (v', r))" by blast
qed

lemma reads_valueD:
  assumes "reads_value d v s" and "stops r"
  obtains v' N where "erase v' = erase v" "\<And>n. N \<le> n \<Longrightarrow> json_value n d (s @ r) = Some (v', r)"
  using assms unfolding reads_value_def by blast

definition reads_elems :: "nat \<Rightarrow> (string \<times> json) list \<Rightarrow> string \<Rightarrow> bool" where
  "reads_elems d es s \<longleftrightarrow>
     (\<forall>r. \<exists>es' N. map erase_elem es' = map erase_elem es \<and> (\<forall>n \<ge> N. json_elems n d (s @ r) = Some (es', r)))"

definition reads_members :: "nat \<Rightarrow> (string \<times> string \<times> json) list \<Rightarrow> string \<Rightarrow> bool" where
  "reads_members d ms s \<longleftrightarrow>
     (\<forall>r. \<exists>ms' N. map erase_member ms' = map erase_member ms \<and> (\<forall>n \<ge> N. json_members n d (s @ r) = Some (ms', r)))"

lemma reads_scalar:
  assumes "\<And>n r. stops r \<Longrightarrow> json_value (Suc n) d (s @ r) = Some (v, r)"
  shows "reads_value d v s"
  by (rule reads_valueI) (use assms in blast)

lemma stops_after: "blank w \<Longrightarrow> \<not> number_char c \<Longrightarrow> stops (w @ c # r)"
  by (simp add: stops_blank)

lemma skip_after: "blank w \<Longrightarrow> \<not> json_ws c \<Longrightarrow> skip_ws (w @ c # r) = c # r"
  by (simp add: skip_ws_blank)

lemma reads_number:
  assumes "json_number l = Some (l, [])"
  shows "reads_value d (JNum l) l"
proof (rule reads_scalar)
  fix n r
  assume r: "stops r"
  from number_start [OF assms] obtain c cs where l: "l = c # cs" and c: "is_digit c \<or> c = CHR ''-''" by blast
  note dc = digit_start [OF c]
  have "\<not> has_prefix ''true'' (l @ r)" "\<not> has_prefix ''false'' (l @ r)" "\<not> has_prefix ''null'' (l @ r)"
    using dc l by (auto simp: has_prefix_def)
  with dc number_more [OF assms r] l show "json_value (Suc n) d (l @ r) = Some (JNum l, r)" by simp
qed

lemma reads_array:
  assumes "reads_elems d es t" and "blank w" and "starts_value t"
  shows "reads_value (Suc d) (JArr es) (CHR ''['' # w @ t)"
proof (rule reads_valueI)
  fix r
  from assms(1) obtain es' N where e: "map erase_elem es' = map erase_elem es"
    and p: "\<And>n. N \<le> n \<Longrightarrow> json_elems n d (t @ r) = Some (es', r)" unfolding reads_elems_def by meson
  from assms(3) obtain c cs where t: "t = c # cs" "\<not> json_ws c" "c \<noteq> CHR '']''" by (auto simp: starts_value_def)
  have "skip_ws (w @ t @ r) = t @ r" using t assms(2) by (simp add: skip_ws_blank)
  with t p have "json_value (Suc n) (Suc d) ((CHR ''['' # w @ t) @ r) = Some (JArr es', r)" if "N \<le> n" for n
    using that by simp
  moreover have "erase (JArr es') = erase (JArr es)" using e by simp
  ultimately show "\<exists>v' N. erase v' = erase (JArr es) \<and>
      (\<forall>n \<ge> N. json_value (Suc n) (Suc d) ((CHR ''['' # w @ t) @ r) = Some (v', r))" by blast
qed

lemma reads_object:
  assumes "reads_members d ms t" and "blank w" and "\<exists>cs. t = dquote # cs"
  shows "reads_value (Suc d) (JObj ms) (CHR ''{'' # w @ t)"
proof (rule reads_valueI)
  fix r
  from assms(1) obtain ms' N where e: "map erase_member ms' = map erase_member ms"
    and p: "\<And>n. N \<le> n \<Longrightarrow> json_members n d (t @ r) = Some (ms', r)" unfolding reads_members_def by meson
  from assms(3) obtain cs where t: "t = dquote # cs" by blast
  have "skip_ws (w @ t @ r) = t @ r" using t assms(2) by (simp add: skip_ws_blank)
  with t p have "json_value (Suc n) (Suc d) ((CHR ''{'' # w @ t) @ r) = Some (JObj ms', r)" if "N \<le> n" for n
    using that by simp
  moreover have "erase (JObj ms') = erase (JObj ms)" using e by simp
  ultimately show "\<exists>v' N. erase v' = erase (JObj ms) \<and>
      (\<forall>n \<ge> N. json_value (Suc n) (Suc d) ((CHR ''{'' # w @ t) @ r) = Some (v', r))" by blast
qed

text \<open>One element or member, and then what the separator leads to.\<close>

lemma fuel_Suc: "(\<And>n. N \<le> n \<Longrightarrow> P (Suc n)) \<Longrightarrow> Suc N \<le> n \<Longrightarrow> P n"
  by (cases n) auto

lemma reads_elem1:
  assumes "reads_value d v s" and "blank w"
  shows "reads_elems d [(raw, v)] (s @ w @ [CHR '']''])"
  unfolding reads_elems_def
proof
  fix r
  from reads_valueD [OF assms(1) stops_after [OF assms(2), of "CHR '']''" r]] obtain v' N where
    e: "erase v' = erase v" and p: "\<And>n. N \<le> n \<Longrightarrow> json_value n d (s @ w @ CHR '']'' # r) = Some (v', w @ CHR '']'' # r)"
    by auto
  let ?raw = "take (length (s @ w @ CHR '']'' # r) - length (w @ CHR '']'' # r)) (s @ w @ CHR '']'' # r)"
  have "json_elems n d (s @ w @ CHR '']'' # r) = Some ([(?raw, v')], r)" if "Suc N \<le> n" for n
    using that by (rule fuel_Suc [rotated]) (simp add: p skip_after [OF assms(2)])
  moreover have "map erase_elem [(?raw, v')] = map erase_elem [(raw, v)]" using e by simp
  ultimately show "\<exists>es' N. map erase_elem es' = map erase_elem [(raw, v)] \<and>
      (\<forall>n \<ge> N. json_elems n d ((s @ w @ [CHR '']'']) @ r) = Some (es', r))"
    unfolding append.assoc append_Cons append_Nil by blast
qed

lemma reads_elem:
  assumes "reads_value d v s" and "blank w" and "blank w'" and "reads_elems d es t" and "starts_value t"
  shows "reads_elems d ((raw, v) # es) (s @ w @ CHR '','' # w' @ t)"
  unfolding reads_elems_def
proof
  fix r
  let ?u = "CHR '','' # w' @ t @ r"
  from reads_valueD [OF assms(1) stops_after [OF assms(2), of "CHR '',''"  "w' @ t @ r"]] obtain v' N where
    e: "erase v' = erase v" and p: "\<And>n. N \<le> n \<Longrightarrow> json_value n d (s @ w @ ?u) = Some (v', w @ ?u)" by auto
  from assms(4) obtain es' M where es: "map erase_elem es' = map erase_elem es"
    and q: "\<And>n. M \<le> n \<Longrightarrow> json_elems n d (t @ r) = Some (es', r)" unfolding reads_elems_def by meson
  from assms(5) obtain c cs where "t = c # cs" "\<not> json_ws c" by (auto simp: starts_value_def)
  then have sk: "skip_ws (w' @ t @ r) = t @ r" using assms(3) by (simp add: skip_ws_blank)
  let ?raw = "take (length (s @ w @ ?u) - length (w @ ?u)) (s @ w @ ?u)"
  have "json_elems n d (s @ w @ ?u) = Some ((?raw, v') # es', r)" if "Suc (max N M) \<le> n" for n
    using that by (rule fuel_Suc [rotated]) (simp add: p q skip_after [OF assms(2)] sk)
  moreover have "map erase_elem ((?raw, v') # es') = map erase_elem ((raw, v) # es)" using e es by simp
  ultimately show "\<exists>es' N. map erase_elem es' = map erase_elem ((raw, v) # es) \<and>
      (\<forall>n \<ge> N. json_elems n d ((s @ w @ CHR '','' # w' @ t) @ r) = Some (es', r))"
    unfolding append.assoc append_Cons by blast
qed

lemma reads_member1:
  assumes "literal q" and "blank w1" and "blank w2" and "reads_value d v s" and "starts_value s" and "blank w"
  shows "reads_members d [(unquote q, raw, v)] (dquote # q @ dquote # w1 @ CHR '':'' # w2 @ s @ w @ [CHR ''}''])"
  unfolding reads_members_def
proof
  fix r
  let ?t = "dquote # q @ dquote # w1 @ CHR '':'' # w2 @ s @ w @ CHR ''}'' # r"
  let ?vs = "s @ w @ CHR ''}'' # r"
  from reads_valueD [OF assms(4) stops_after [OF assms(6), of "CHR ''}''" r]] obtain v' N where
    e: "erase v' = erase v" and p: "\<And>n. N \<le> n \<Longrightarrow> json_value n d ?vs = Some (v', w @ CHR ''}'' # r)" by auto
  from assms(5) obtain c cs where "s = c # cs" "\<not> json_ws c" by (auto simp: starts_value_def)
  then have sk: "skip_ws (w2 @ ?vs) = ?vs" using assms(3) by (simp add: skip_ws_blank)
  let ?raw = "take (length ?vs - length (w @ CHR ''}'' # r)) ?vs"
  have "json_members n d ?t = Some ([(unquote q, ?raw, v')], r)" if "Suc N \<le> n" for n
    using that by (rule fuel_Suc [rotated])
      (simp add: p literal_read [OF assms(1)] skip_after [OF assms(2)] skip_after [OF assms(6)] sk)
  moreover have "map erase_member [(unquote q, ?raw, v')] = map erase_member [(unquote q, raw, v)]" using e by simp
  ultimately show "\<exists>ms' N. map erase_member ms' = map erase_member [(unquote q, raw, v)] \<and>
      (\<forall>n \<ge> N. json_members n d ((dquote # q @ dquote # w1 @ CHR '':'' # w2 @ s @ w @ [CHR ''}'']) @ r) = Some (ms', r))"
    unfolding append.assoc append_Cons append_Nil by blast
qed

lemma reads_member:
  assumes "literal q" and "blank w1" and "blank w2" and "reads_value d v s" and "starts_value s" and "blank w"
    and "blank w'" and "reads_members d ms t" and "\<exists>cs. t = dquote # cs"
  shows "reads_members d ((unquote q, raw, v) # ms) (dquote # q @ dquote # w1 @ CHR '':'' # w2 @ s @ w @ CHR '','' # w' @ t)"
  unfolding reads_members_def
proof
  fix r
  let ?u = "CHR '','' # w' @ t @ r"
  let ?vs = "s @ w @ ?u"
  let ?t = "dquote # q @ dquote # w1 @ CHR '':'' # w2 @ ?vs"
  from reads_valueD [OF assms(4) stops_after [OF assms(6), of "CHR '',''" "w' @ t @ r"]] obtain v' N where
    e: "erase v' = erase v" and p: "\<And>n. N \<le> n \<Longrightarrow> json_value n d ?vs = Some (v', w @ ?u)" by auto
  from assms(8) obtain ms' M where ms: "map erase_member ms' = map erase_member ms"
    and m: "\<And>n. M \<le> n \<Longrightarrow> json_members n d (t @ r) = Some (ms', r)" unfolding reads_members_def by meson
  from assms(5) obtain c cs where "s = c # cs" "\<not> json_ws c" by (auto simp: starts_value_def)
  then have sk: "skip_ws (w2 @ ?vs) = ?vs" using assms(3) by (simp add: skip_ws_blank)
  from assms(9) have sk': "skip_ws (w' @ t @ r) = t @ r" using assms(7) by (auto simp: skip_ws_blank)
  let ?raw = "take (length ?vs - length (w @ ?u)) ?vs"
  have "json_members n d ?t = Some ((unquote q, ?raw, v') # ms', r)" if "Suc (max N M) \<le> n" for n
    using that by (rule fuel_Suc [rotated])
      (simp add: p m literal_read [OF assms(1)] skip_after [OF assms(2)] skip_after [OF assms(6)] sk sk')
  moreover have "map erase_member ((unquote q, ?raw, v') # ms') = map erase_member ((unquote q, raw, v) # ms)" using e ms by simp
  ultimately show "\<exists>ms' N. map erase_member ms' = map erase_member ((unquote q, raw, v) # ms) \<and>
      (\<forall>n \<ge> N. json_members n d ((dquote # q @ dquote # w1 @ CHR '':'' # w2 @ s @ w @ CHR '','' # w' @ t) @ r) = Some (ms', r))"
    unfolding append.assoc append_Cons by blast
qed

lemma renders_starts': "renders d v s \<Longrightarrow> starts_value s"
  using renders_starts [of d v s "[]"] by simp

lemma elems_starts: "rend_elems d es t \<Longrightarrow> starts_value t"
  by (induction rule: rend_elems.cases) (auto dest: renders_starts)

lemma members_starts: "rend_members d ms t \<Longrightarrow> \<exists>cs. t = dquote # cs"
  by (induction rule: rend_members.cases) auto

text \<open>Every text of a value parses to it, up to the raw bytes.\<close>

lemma renders_reads:
  "renders d v s \<Longrightarrow> reads_value d v s"
  "rend_elems d es t \<Longrightarrow> reads_elems d es t"
  "rend_members d ms u \<Longrightarrow> reads_members d ms u"
proof (induction rule: renders_rend_elems_rend_members.inducts)
  case (num l d)
  then show ?case by (rule reads_number)
next
  case (arr d es t w)
  with reads_array elems_starts show ?case by blast
next
  case (obj d ms t w)
  with reads_object members_starts show ?case by blast
next
  case (elem1 d v s w raw)
  with reads_elem1 show ?case by blast
next
  case (elem d v s w w' es t raw)
  with reads_elem elems_starts show ?case by blast
next
  case (member1 q w1 w2 d v s w raw)
  then show ?case by (intro reads_member1 renders_starts')
next
  case (member q w1 w2 d v s w w' ms t raw)
  then show ?case by (intro reads_member renders_starts' members_starts)
next
  case (bool d b)
  show ?case by (rule reads_scalar) (cases b; simp add: bool_text_def has_prefix_def)
qed (auto intro!: reads_scalar simp: has_prefix_def literal_read skip_ws_blank)

text \<open>A whole text, with white space around it.\<close>

lemma parse_renders:
  assumes "renders max_depth v s" and "blank w1" and "blank w2"
  shows "\<exists>v'. json_parse (w1 @ s @ w2) = Some (s, v') \<and> erase v' = erase v"
proof -
  have sk: "skip_ws (w1 @ s @ w2) = s @ w2" by (rule renders_skip [OF assms(1,2)])
  have "stops w2" using stops_blank [OF assms(3), of "[]"] by simp
  from reads_valueD [OF renders_reads(1) [OF assms(1)] this] obtain v' N where v': "erase v' = erase v"
    and p: "\<And>n. N \<le> n \<Longrightarrow> json_value n max_depth (s @ w2) = Some (v', w2)" by blast
  have "json_value (json_fuel (s @ w2)) max_depth (s @ w2) = Some (v', w2)"
    using json_fuel_enough [of "s @ w2" "max N (json_fuel (s @ w2))" max_depth] p by simp
  moreover have "skip_ws w2 = []" using skip_ws_blank [OF assms(3), of "[]"] by (simp add: skip_ws_def)
  ultimately show ?thesis using v' by (simp add: json_parse_def sk)
qed

lemma check_renders:
  "renders max_depth v s \<Longrightarrow> blank w1 \<Longrightarrow> blank w2 \<Longrightarrow> \<exists>v'. json_check (w1 @ s @ w2) = Some v' \<and> erase v' = erase v"
  using parse_renders by (fastforce simp: json_check_def)

section \<open>Texts of objects\<close>

lemma literal_pieces: "valid_utf8 s \<Longrightarrow> literal (quote_body s)"
  using read_literal [of "quote_body s @ [dquote]" "quote_body s" "[]"] quote_body_piece piece_json_string by simp

lemma renders_quote: "valid_utf8 s \<Longrightarrow> renders d (JStr s) (quote s)"
  using renders_rend_elems_rend_members.str [OF literal_pieces, of s d] by (simp add: unquote_quote_body quote_def)

lemma renders_int: "renders d (JNum (int_text i)) (int_text i)"
proof -
  have nz: "hd (nat_text n) \<noteq> CHR ''0'' \<or> nat_text n = ''0''" for n
  proof (cases "n = 0")
    case True
    moreover have "nat_text 0 = ''0''" by code_simp
    ultimately show ?thesis by simp
  qed (use nat_text_hd in simp)
  have "int_text i = sign_text (i < 0) @ nat_text (nat \<bar>i\<bar>) @ frac_text [] @ []"
    by (simp add: int_text_def sign_text_def frac_text_def)
  moreover have "exp_field []" by (simp add: exp_field_def)
  ultimately have "json_number (int_text i) = Some (int_text i, [])"
    using json_number_parts [of "nat_text (nat \<bar>i\<bar>)" "[]" "[]" "i < 0"] nat_text_digits nz by simp
  then show ?thesis by (rule renders_rend_elems_rend_members.num)
qed

lemma renders_members:
  assumes "ms \<noteq> []" and "list_all (\<lambda>(k, x, v). valid_utf8 k \<and> renders d v x) ms"
  shows "rend_members d (map (\<lambda>(k, x, v). (k, x, v)) ms)
    (join_with '','' (map (\<lambda>(k, x, v). member_text (k, x)) ms) @ ''}'')"
  using assms
proof (induction ms)
  case (Cons m ms)
  obtain k x v where m: "m = (k, x, v)" by (cases m) auto
  with Cons.prems have k: "valid_utf8 k" "renders d v x" by auto
  note lit = literal_pieces [OF k(1)]
  show ?case
  proof (cases ms)
    case Nil
    with m renders_rend_elems_rend_members.member1 [OF lit, of "[]" "[]" d v x "[]" x] k show ?thesis
      by (simp add: member_text_def quote_def unquote_quote_body)
  next
    case (Cons m' ms')
    with Cons.IH Cons.prems have "rend_members d (map (\<lambda>(k, x, v). (k, x, v)) ms)
        (join_with '','' (map (\<lambda>(k, x, v). member_text (k, x)) ms) @ ''}'')" by simp
    with m Cons renders_rend_elems_rend_members.member [OF lit _ _ k(2) _ _ this, of "[]" "[]" "[]" "[]" x] k(1)
    show ?thesis by (simp add: member_text_def quote_def unquote_quote_body)
  qed
qed simp

lemma renders_object:
  assumes "list_all (\<lambda>(k, x, v). valid_utf8 k \<and> renders d v x) ms"
  shows "renders (Suc d) (JObj ms) (object_text (map (\<lambda>(k, x, v). (k, x)) ms))"
proof (cases "ms = []")
  case True
  then show ?thesis using renders_rend_elems_rend_members.obj0 [of "[]" d] by (simp add: object_text_def)
next
  case False
  from renders_rend_elems_rend_members.obj [OF renders_members [OF this assms], of "[]"]
  show ?thesis by (simp add: object_text_def o_def split_def)
qed

section \<open>Indenting only adds white space\<close>

definition opened :: "bool \<Rightarrow> nat \<Rightarrow> nat" where
  "opened need depth = (if need then depth + 1 else depth)"

definition break_text :: "bool \<Rightarrow> nat \<Rightarrow> string" where
  "break_text need depth = (if need then newline_indent (depth + 1) else [])"

lemma opened_simps [simp]: "opened False k = k" "opened True k = Suc k" "break_text False k = []"
  "break_text True k = newline_indent (Suc k)"
  by (simp_all add: opened_def break_text_def)

lemma blank_newline [simp]: "blank (newline_indent k)"
  by (induction k) (simp_all add: newline_indent_def json_ws_def)

lemma indent_blank: "blank w \<Longrightarrow> indent_from Outside need depth (w @ r) = indent_from Outside need depth r"
  by (induction w) simp_all

lemma indent_inside:
  "st \<noteq> Outside \<Longrightarrow> indent_from st False depth (c # r) = c # indent_from (scan_next st c) False depth r"
  by (subst indent_from.simps(2)) (simp add: Let_def)

lemma indent_literal:
  "literal q \<Longrightarrow> indent_from InString False depth (q @ dquote # r) = q @ dquote # indent_from Outside False depth r"
proof (induction rule: literal.induct)
  case (unicode a b c d q)
  then show ?case by (simp add: indent_inside is_hex_lex del: indent_from.simps)
qed (simp_all add: indent_inside del: indent_from.simps)

definition token_char :: "char \<Rightarrow> bool" where
  "token_char c \<longleftrightarrow> \<not> json_ws c \<and> c \<noteq> dquote \<and> c \<notin> set ''{}[],:''"

lemma indent_token:
  "list_all token_char s \<Longrightarrow> s \<noteq> [] \<Longrightarrow>
   indent_from Outside need depth (s @ r) = break_text need depth @ s @ indent_from Outside False (opened need depth) r"
proof (induction s arbitrary: need depth)
  case (Cons c s)
  then have "indent_from Outside need depth (c # s @ r) =
      break_text need depth @ c # indent_from Outside False (opened need depth) (s @ r)"
    by (subst indent_from.simps(2)) (simp add: token_char_def Let_def opened_def break_text_def del: indent_from.simps)
  with Cons show ?case by (cases "s = []") (simp_all del: indent_from.simps)
qed simp

lemma indent_string:
  "literal q \<Longrightarrow> indent_from Outside need depth (dquote # q @ dquote # r) =
     break_text need depth @ dquote # q @ dquote # indent_from Outside False (opened need depth) r"
  by (subst indent_from.simps(2)) (simp add: Let_def opened_def break_text_def indent_literal json_ws_def del: indent_from.simps)

lemma indent_structure:
  "indent_from Outside need depth (CHR ''['' # r) =
     break_text need depth @ CHR ''['' # indent_from Outside True (opened need depth) r"
  "indent_from Outside need depth (CHR ''{'' # r) =
     break_text need depth @ CHR ''{'' # indent_from Outside True (opened need depth) r"
  "indent_from Outside True depth (CHR '']'' # r) = CHR '']'' # indent_from Outside False depth r"
  "indent_from Outside True depth (CHR ''}'' # r) = CHR ''}'' # indent_from Outside False depth r"
  "indent_from Outside False depth (CHR '']'' # r) = newline_indent (depth - 1) @ CHR '']'' # indent_from Outside False (depth - 1) r"
  "indent_from Outside False depth (CHR ''}'' # r) = newline_indent (depth - 1) @ CHR ''}'' # indent_from Outside False (depth - 1) r"
  "indent_from Outside False depth (CHR '','' # r) = CHR '','' # newline_indent depth @ indent_from Outside False depth r"
  "indent_from Outside False depth (CHR '':'' # r) = CHR '':'' # CHR '' '' # indent_from Outside False depth r"
  by (subst indent_from.simps(2), simp add: Let_def opened_def break_text_def del: indent_from.simps)+

lemma number_tokens: "json_number l = Some (l, []) \<Longrightarrow> list_all token_char l \<and> l \<noteq> []"
proof -
  have "number_char c \<Longrightarrow> token_char c" for c
    by (auto simp: number_char_def token_char_def is_digit_def byte_of_def json_ws_def)
  then show "json_number l = Some (l, []) \<Longrightarrow> ?thesis"
    using json_number_split [of l l "[]"] by (auto simp: list_all_iff)
qed

text \<open>
  The indented form of a text is a text of the same value. \<open>indents\<close> says so in the middle of a text;
  after the elements or members of a container the depth is one less.
\<close>

definition indents :: "(string \<Rightarrow> bool) \<Rightarrow> nat \<Rightarrow> string \<Rightarrow> bool" where
  "indents P k s \<longleftrightarrow>
     (\<forall>need depth. \<exists>s'. P s' \<and>
        (\<forall>r. indent_from Outside need depth (s @ r) =
           break_text need depth @ s' @ indent_from Outside False (opened need depth - k) r))"

lemma indentsD:
  assumes "indents P k s"
  obtains s' where "P s'" "\<And>r. indent_from Outside need depth (s @ r) =
           break_text need depth @ s' @ indent_from Outside False (opened need depth - k) r"
  using assms unfolding indents_def by meson

lemma indents_token: "list_all token_char s \<Longrightarrow> s \<noteq> [] \<Longrightarrow> P s \<Longrightarrow> indents P 0 s"
  unfolding indents_def using indent_token by fastforce

lemma indents_container:
  assumes "indents P 1 t" and "blank w" and "c = CHR ''['' \<or> c = CHR ''{''"
    and "\<And>w t. blank w \<Longrightarrow> P t \<Longrightarrow> Q (c # w @ t)"
  shows "indents Q 0 (c # w @ t)"
  unfolding indents_def
proof (intro allI)
  fix need depth
  from indentsD [OF assms(1), of True "opened need depth"] obtain t' where t': "P t'"
    "\<And>r. indent_from Outside True (opened need depth) (t @ r) =
       newline_indent (Suc (opened need depth)) @ t' @ indent_from Outside False (opened need depth) r" by auto
  have "indent_from Outside need depth ((c # w @ t) @ r) =
      break_text need depth @ (c # newline_indent (Suc (opened need depth)) @ t') @
      indent_from Outside False (opened need depth - 0) r" for r
    using assms(3) by (auto simp: indent_structure indent_blank [OF assms(2)] t'(2) simp del: indent_from.simps)
  with assms(4) [OF blank_newline t'(1)] show "\<exists>s'. Q s' \<and> (\<forall>r. indent_from Outside need depth ((c # w @ t) @ r) =
      break_text need depth @ s' @ indent_from Outside False (opened need depth - 0) r)" by blast
qed

lemma indents_empty:
  assumes "blank w" and "(c, e) = (CHR ''['', CHR '']'') \<or> (c, e) = (CHR ''{'', CHR ''}'')" and "P [c, e]"
  shows "indents P 0 (c # w @ [e])"
  unfolding indents_def
proof (intro allI exI [of _ "[c, e]"] conjI)
  fix need depth r
  show "indent_from Outside need depth ((c # w @ [e]) @ r) =
      break_text need depth @ [c, e] @ indent_from Outside False (opened need depth - 0) r"
    using assms(2) by (auto simp: indent_structure indent_blank [OF assms(1)] simp del: indent_from.simps)
qed (rule assms(3))

lemma indents_last:
  assumes "indents P 0 s" and "blank w" and "e = CHR '']'' \<or> e = CHR ''}''"
    and "\<And>s w. P s \<Longrightarrow> blank w \<Longrightarrow> Q (s @ w @ [e])"
  shows "indents Q 1 (s @ w @ [e])"
  unfolding indents_def
proof (intro allI)
  fix need depth
  from indentsD [OF assms(1), of need depth] obtain s' where s': "P s'"
    "\<And>r. indent_from Outside need depth (s @ r) =
       break_text need depth @ s' @ indent_from Outside False (opened need depth) r" by auto
  have "indent_from Outside need depth ((s @ w @ [e]) @ r) =
      break_text need depth @ (s' @ newline_indent (opened need depth - 1) @ [e]) @
      indent_from Outside False (opened need depth - 1) r" for r
    using assms(3) by (auto simp: s'(2) indent_structure indent_blank [OF assms(2)] simp del: indent_from.simps)
  with assms(4) [OF s'(1) blank_newline] show "\<exists>t. Q t \<and> (\<forall>r. indent_from Outside need depth ((s @ w @ [e]) @ r) =
      break_text need depth @ t @ indent_from Outside False (opened need depth - 1) r)" by blast
qed

lemma indents_comma:
  assumes "indents P 0 s" and "blank w" and "blank w'" and "indents R 1 t"
    and "\<And>s w t. P s \<Longrightarrow> blank w \<Longrightarrow> R t \<Longrightarrow> Q (s @ CHR '','' # w @ t)"
  shows "indents Q 1 (s @ w @ CHR '','' # w' @ t)"
  unfolding indents_def
proof (intro allI)
  fix need depth
  from indentsD [OF assms(1), of need depth] obtain s' where s': "P s'"
    "\<And>r. indent_from Outside need depth (s @ r) =
       break_text need depth @ s' @ indent_from Outside False (opened need depth) r" by auto
  from indentsD [OF assms(4), of False "opened need depth"] obtain t' where t': "R t'"
    "\<And>r. indent_from Outside False (opened need depth) (t @ r) =
       t' @ indent_from Outside False (opened need depth - 1) r" by auto
  have "indent_from Outside need depth ((s @ w @ CHR '','' # w' @ t) @ r) =
      break_text need depth @ (s' @ CHR '','' # newline_indent (opened need depth) @ t') @
      indent_from Outside False (opened need depth - 1) r" for r
    by (simp add: s'(2) t'(2) indent_structure indent_blank [OF assms(2)] indent_blank [OF assms(3)] del: indent_from.simps)
  with assms(5) [OF s'(1) blank_newline t'(1)] show "\<exists>u. Q u \<and> (\<forall>r. indent_from Outside need depth ((s @ w @ CHR '','' # w' @ t) @ r) =
      break_text need depth @ u @ indent_from Outside False (opened need depth - 1) r)" by blast
qed

lemma indents_key:
  assumes "literal q" and "blank w1" and "blank w2" and "indents P 0 s"
    and "\<And>s. P s \<Longrightarrow> Q (dquote # q @ dquote # CHR '':'' # CHR '' '' # s)"
  shows "indents Q 0 (dquote # q @ dquote # w1 @ CHR '':'' # w2 @ s)"
  unfolding indents_def
proof (intro allI)
  fix need depth
  from indentsD [OF assms(4), of False "opened need depth"] obtain s' where s': "P s'"
    "\<And>r. indent_from Outside False (opened need depth) (s @ r) =
       s' @ indent_from Outside False (opened need depth) r" by auto
  have "indent_from Outside need depth ((dquote # q @ dquote # w1 @ CHR '':'' # w2 @ s) @ r) =
      break_text need depth @ (dquote # q @ dquote # CHR '':'' # CHR '' '' # s') @
      indent_from Outside False (opened need depth - 0) r" for r
    by (simp add: indent_string [OF assms(1)] s'(2) indent_structure indent_blank [OF assms(2)]
        indent_blank [OF assms(3)] del: indent_from.simps)
  with assms(5) [OF s'(1)] show "\<exists>u. Q u \<and> (\<forall>r. indent_from Outside need depth
      ((dquote # q @ dquote # w1 @ CHR '':'' # w2 @ s) @ r) =
      break_text need depth @ u @ indent_from Outside False (opened need depth - 0) r)" by blast
qed

lemma renders_indents:
  "renders d v s \<Longrightarrow> indents (renders d v) 0 s"
  "rend_elems d es t \<Longrightarrow> indents (rend_elems d es) 1 t"
  "rend_members d ms u \<Longrightarrow> indents (rend_members d ms) 1 u"
proof (induction rule: renders_rend_elems_rend_members.inducts)
  case (null d)
  show ?case by (rule indents_token)
    (simp_all add: token_char_def json_ws_def renders_rend_elems_rend_members.null)
next
  case (bool d b)
  show ?case by (rule indents_token)
    (simp_all add: token_char_def json_ws_def bool_text_def renders_rend_elems_rend_members.bool [unfolded bool_text_def])
next
  case (num l d)
  with number_tokens [OF num] show ?case by (blast intro: indents_token renders_rend_elems_rend_members.num)
next
  case (str q d)
  then show ?case
    unfolding indents_def using indent_string [OF str] renders_rend_elems_rend_members.str [OF str]
    by (intro allI exI [of _ "dquote # q @ [dquote]"]) (simp del: indent_from.simps)
next
  case (arr0 w d)
  with indents_empty [of w "CHR ''[''" "CHR '']''" "renders (Suc d) (JArr [])"]
    renders_rend_elems_rend_members.arr0 [of "[]" d] show ?case by simp
next
  case (obj0 w d)
  with indents_empty [of w "CHR ''{''" "CHR ''}''" "renders (Suc d) (JObj [])"]
    renders_rend_elems_rend_members.obj0 [of "[]" d] show ?case by simp
next
  case (arr d es t w)
  show ?case by (rule indents_container [OF arr.IH arr.hyps(2)]) (auto intro: renders_rend_elems_rend_members.arr)
next
  case (obj d ms t w)
  show ?case by (rule indents_container [OF obj.IH obj.hyps(2)]) (auto intro: renders_rend_elems_rend_members.obj)
next
  case (elem1 d v s w raw)
  show ?case by (rule indents_last [OF elem1.IH elem1.hyps(2)]) (auto intro: renders_rend_elems_rend_members.elem1)
next
  case (elem d v s w w' es t raw)
  show ?case
    by (rule indents_comma [OF elem.IH(1) elem.hyps(2,3) elem.IH(2)])
      (use renders_rend_elems_rend_members.elem [of d v _ "[]" _ es _ raw] in simp)
next
  case (member1 q w1 w2 d v s w raw)
  have "indents (\<lambda>s. \<exists>x. renders d v x \<and> s = dquote # q @ dquote # CHR '':'' # CHR '' '' # x) 0
      (dquote # q @ dquote # w1 @ CHR '':'' # w2 @ s)"
    by (rule indents_key [OF member1.hyps(1,2,3) member1.IH]) blast
  then have "indents (rend_members d [(unquote q, raw, v)]) 1 ((dquote # q @ dquote # w1 @ CHR '':'' # w2 @ s) @ w @ [CHR ''}''])"
  proof (rule indents_last [OF _ member1.hyps(5)])
    fix s w
    assume "\<exists>x. renders d v x \<and> s = dquote # q @ dquote # CHR '':'' # CHR '' '' # x" and w: "blank w"
    then obtain x where x: "renders d v x" "s = dquote # q @ dquote # CHR '':'' # CHR '' '' # x" by blast
    from renders_rend_elems_rend_members.member1 [OF member1.hyps(1), of "[]" "'' ''" d v x w raw] x w
    show "rend_members d [(unquote q, raw, v)] (s @ w @ [CHR ''}''])" by (simp add: json_ws_def)
  qed simp
  then show ?case by simp
next
  case (member q w1 w2 d v s w w' ms t raw)
  have "indents (\<lambda>s. \<exists>x. renders d v x \<and> s = dquote # q @ dquote # CHR '':'' # CHR '' '' # x) 0
      (dquote # q @ dquote # w1 @ CHR '':'' # w2 @ s)"
    by (rule indents_key [OF member.hyps(1,2,3) member.IH(1)]) blast
  then have "indents (rend_members d ((unquote q, raw, v) # ms)) 1
      ((dquote # q @ dquote # w1 @ CHR '':'' # w2 @ s) @ w @ CHR '','' # w' @ t)"
  proof (rule indents_comma [OF _ member.hyps(5,6) member.IH(2)])
    fix s w t
    assume "\<exists>x. renders d v x \<and> s = dquote # q @ dquote # CHR '':'' # CHR '' '' # x" and w: "blank w" "rend_members d ms t"
    then obtain x where x: "renders d v x" "s = dquote # q @ dquote # CHR '':'' # CHR '' '' # x" by blast
    from renders_rend_elems_rend_members.member [OF member.hyps(1), of "[]" "'' ''" d v x "[]" w ms t raw] x w
    show "rend_members d ((unquote q, raw, v) # ms) (s @ CHR '','' # w @ t)" by (simp add: json_ws_def)
  qed
  then show ?case by simp
qed

lemma renders_json_indent: "renders d v s \<Longrightarrow> renders d v (json_indent s)"
  using indentsD [OF renders_indents(1), of d v s False 0]
  by (metis json_indent_def append_Nil append_Nil2 indent_from.simps(1) opened_simps(3))

end
