(* ===== verification/JsonCompact.thy ===== *)
theory JsonCompact
  imports JsonRender
begin

text \<open>
  Compaction keeps the value: \<open>compact\<close>, which drops white space and escapes HTML characters and
  U+2028 and U+2029, turns a text of a value into a text of the same value (\<open>renders_compact\<close>).
  For strings this is the invariance of \<open>unquote\<close> under those escapes (\<open>unquote_compact\<close>), on every
  byte string, valid UTF-8 or not.
\<close>

section \<open>Compacting the contents of a string\<close>

abbreviation html_char :: "char \<Rightarrow> bool" where
  "html_char c \<equiv> c = CHR ''<'' \<or> c = CHR ''>'' \<or> c = CHR ''&''"

definition compact_body :: "string \<Rightarrow> string" where
  "compact_body q = compact_from InString q"

lemma line_sep_iff:
  "line_sep c s \<longleftrightarrow> (\<exists>d e t. s = d # e # t \<and> byte_of c = 226 \<and> byte_of d = 128 \<and> (byte_of e = 168 \<or> byte_of e = 169))"
  by (auto simp: line_sep_def split: list.splits)

lemma line_sep_append: "byte_of (hd r) < 128 \<Longrightarrow> r \<noteq> [] \<Longrightarrow> line_sep c (s @ r) \<longleftrightarrow> line_sep c s"
  by (cases s; cases "tl s"; cases r; cases "tl r") (auto simp: line_sep_def split: list.splits)

lemma line_sep_low: "byte_of c < 128 \<Longrightarrow> \<not> line_sep c s"
  by (auto simp: line_sep_iff)

lemma html_low: "html_char c \<Longrightarrow> byte_of c < 128"
  by (auto simp: byte_of_def)

lemma compact_body_plain:
  "c \<noteq> dquote \<Longrightarrow> c \<noteq> backslash \<Longrightarrow> \<not> html_char c \<Longrightarrow> \<not> line_sep c s \<Longrightarrow>
   compact_from InString (c # s) = c # compact_from InString s"
  by simp

lemma compact_body_html: "html_char c \<Longrightarrow> compact_from InString (c # s) = u_escape c @ compact_from InString s"
  by auto

lemma compact_body_sep:
  assumes "byte_of c = 226" and "byte_of d = 128" and "byte_of e = 168 \<or> byte_of e = 169"
  shows "compact_from InString (c # d # e # s) = (backslash # ''u202'' @ [hex_digit (byte_of e)]) @ compact_from InString s"
proof -
  have "c \<notin> set [CHR ''<'', CHR ''>'', CHR ''&'', dquote, backslash]" "d \<noteq> dquote" "d \<noteq> backslash" "e \<noteq> dquote" "e \<noteq> backslash"
    using assms by (auto simp: byte_of_def)
  moreover have "line_sep c (d # e # s)" using assms by (simp add: line_sep_def)
  ultimately show ?thesis by simp
qed

lemma compact_body_escape:
  assumes "byte_of e < 128" and "\<not> html_char e"
  shows "compact_from InString (backslash # e # s) = backslash # e # compact_from InString s"
  using line_sep_low assms by (simp add: byte_of_def [of backslash])

lemma hex_plain: "is_hex h \<Longrightarrow> byte_of h < 128 \<and> h \<noteq> dquote \<and> h \<noteq> backslash \<and> \<not> html_char h"
  by (auto simp: is_hex_def Let_def byte_of_def)

lemma compact_body_u:
  assumes "is_hex a" and "is_hex b" and "is_hex c" and "is_hex d"
  shows "compact_from InString (backslash # CHR ''u'' # a # b # c # d # s) =
    backslash # CHR ''u'' # a # b # c # d # compact_from InString s"
proof -
  have "compact_from InString (h # s) = h # compact_from InString s" if "is_hex h" for h s
    using hex_plain [OF that] line_sep_low by (intro compact_body_plain) auto
  with assms show ?thesis using compact_body_escape [of "CHR ''u''"] by (simp add: byte_of_def)
qed

text \<open>\<open>compacting q\<close> is how the contents of a literal are read item by item.\<close>

inductive compacting :: "string \<Rightarrow> string \<Rightarrow> bool" where
  empty: "compacting [] []"
| plain: "c \<noteq> dquote \<Longrightarrow> c \<noteq> backslash \<Longrightarrow> 32 \<le> byte_of c \<Longrightarrow> \<not> html_char c \<Longrightarrow> \<not> line_sep c q \<Longrightarrow>
    compacting q q' \<Longrightarrow> compacting (c # q) (c # q')"
| html: "html_char c \<Longrightarrow> compacting q q' \<Longrightarrow> compacting (c # q) (u_escape c @ q')"
| sep: "byte_of c = 226 \<Longrightarrow> byte_of d = 128 \<Longrightarrow> byte_of e = 168 \<or> byte_of e = 169 \<Longrightarrow> compacting q q' \<Longrightarrow>
    compacting (c # d # e # q) ((backslash # ''u202'' @ [hex_digit (byte_of e)]) @ q')"
| escape: "simple_escape e \<Longrightarrow> compacting q q' \<Longrightarrow> compacting (backslash # e # q) (backslash # e # q')"
| unicode: "is_hex a \<Longrightarrow> is_hex b \<Longrightarrow> is_hex c \<Longrightarrow> is_hex d \<Longrightarrow> compacting q q' \<Longrightarrow>
    compacting (backslash # CHR ''u'' # a # b # c # d # q) (backslash # CHR ''u'' # a # b # c # d # q')"

inductive_cases literal_ConsE: "literal (c # q)"

lemma literal_tail: "literal (c # q) \<Longrightarrow> c \<noteq> backslash \<Longrightarrow> literal q"
  by (auto elim: literal_ConsE)

lemma literal_compacting: "literal q \<Longrightarrow> \<exists>q'. compacting q q'"
proof (induction q rule: length_induct)
  case (1 q)
  from "1.prems" show ?case
  proof (cases rule: literal.cases)
    case empty
    then show ?thesis by (auto intro: compacting.empty)
  next
    case (plain c p)
    show ?thesis
    proof (cases "line_sep c p")
      case True
      then obtain d e t where t: "p = d # e # t" "byte_of c = 226" "byte_of d = 128" "byte_of e = 168 \<or> byte_of e = 169"
        by (auto simp: line_sep_iff)
      have "literal t" using plain(5) t by (auto intro: literal_tail simp: byte_of_def dest!: literal_tail)
      then obtain t' where "compacting t t'" using "1.IH" [rule_format, of t] plain(1) t(1) by auto
      from compacting.sep [OF t(2-4) this] plain(1) t(1) show ?thesis by blast
    next
      case False
      from "1.IH" plain obtain p' where "compacting p p'" by auto
      with plain False show ?thesis by (metis compacting.plain compacting.html)
    qed
  next
    case (escape e p)
    then obtain p' where "compacting p p'" using "1.IH" [rule_format, of p] by auto
    with escape show ?thesis by (metis compacting.escape)
  next
    case (unicode a b c d p)
    then obtain p' where "compacting p p'" using "1.IH" [rule_format, of p] by auto
    with unicode show ?thesis by (metis compacting.unicode)
  qed
qed

lemma compacting_compact:
  "compacting q q' \<Longrightarrow> compact_from InString (q @ dquote # r) = q' @ dquote # compact_from Outside r"
proof (induction rule: compacting.induct)
  case empty
  then show ?case using line_sep_low [of dquote] by (simp add: byte_of_def)
next
  case (plain c q q')
  moreover have "\<not> line_sep c (q @ dquote # r)"
    using plain(5) line_sep_append [of "dquote # r" c q] by (simp add: byte_of_def)
  ultimately show ?case by (simp add: compact_body_plain del: compact_from.simps)
next
  case (html c q q')
  then show ?case by (simp add: compact_body_html del: compact_from.simps)
next
  case (sep c d e q q')
  then show ?case using compact_body_sep [OF sep(1-3)] by (simp del: compact_from.simps)
next
  case (escape e q q')
  moreover have "byte_of e < 128 \<and> \<not> html_char e" using escape(1) by (auto simp: simple_escape_def byte_of_def)
  ultimately show ?case by (simp add: compact_body_escape del: compact_from.simps)
next
  case (unicode a b c d q q')
  then show ?case by (simp add: compact_body_u del: compact_from.simps)
qed

lemma compacting_literal: "compacting q q' \<Longrightarrow> literal q'"
proof (induction rule: compacting.induct)
  case (sep c d e q q')
  then show ?case using literal.unicode [of "CHR ''2''" "CHR ''0''" "CHR ''2''" "hex_digit (byte_of e)" q'] by simp
next
  case (html c q q')
  then show ?case unfolding u_escape_form by (simp add: literal.unicode)
qed (auto intro: literal.intros)

section \<open>Unquoting does not see the escapes\<close>

abbreviation cont_char :: "char \<Rightarrow> bool" where
  "cont_char c \<equiv> is_cont (byte_of c)"

lemma decode_rune_cont:
  assumes "takeWhile cont_char s = takeWhile cont_char s'"
  shows "decode_rune (c # s) = decode_rune (c # s')"
proof -
  have t: "takeWhile cont_char (take 3 x) = take 3 (takeWhile cont_char x)" for x
    by (cases x; cases "tl x"; cases "tl (tl x)"; cases "tl (tl (tl x))") auto
  have "decode_rune (c # x) = decode_bytes (byte_of c # map byte_of (takeWhile cont_char (take 3 x)))" for x
    by (cases x; cases "tl x"; cases "tl (tl x)") (auto simp: decode_rune_def decode_bytes_def)
  then show ?thesis by (simp add: t assms)
qed

lemma decode_rune_cont_width: "snd (decode_rune (c # s)) \<le> Suc (length (takeWhile cont_char s))"
  by (cases s; cases "tl s"; cases "tl (tl s)") (auto simp: decode_rune_def decode_bytes_def)

lemma cont_char_plain: "cont_char c \<Longrightarrow> c \<noteq> dquote \<and> c \<noteq> backslash \<and> \<not> html_char c \<and> byte_of c \<noteq> 226"
  by (auto simp: is_cont_def byte_of_def)

lemma not_cont_ascii [simp]: "\<not> cont_char backslash" "\<not> cont_char (CHR ''u'')"
  by (simp_all add: is_cont_def byte_of_def)

lemma compacting_cont: "compacting q q' \<Longrightarrow> takeWhile cont_char q' = takeWhile cont_char q"
proof (induction rule: compacting.induct)
  case (html c q q')
  then have "\<not> cont_char c" using html_low [of c] by (simp add: is_cont_def)
  then show ?case by (simp add: u_escape_form)
qed (simp_all add: is_cont_def byte_of_def [of backslash])

inductive_cases compacting_ConsE: "compacting (c # q) q'"

lemma compacting_drop:
  "compacting q q' \<Longrightarrow> k \<le> length (takeWhile cont_char q) \<Longrightarrow> compacting (drop k q) (drop k q')"
proof (induction k arbitrary: q q')
  case (Suc k)
  then obtain c p where q: "q = c # p" "cont_char c" by (cases q) (auto split: if_splits)
  from Suc.prems(1) [unfolded q(1)] obtain p' where "compacting p p'" "q' = c # p'"
    by (rule compacting_ConsE) (use cont_char_plain [OF q(2)] q(2) in auto)
  with Suc q show ?case by simp
qed simp

lemma get_u4_compacting:
  assumes "compacting q q'"
  shows "get_u4 q' = get_u4 q \<or> get_u4 q = None \<and> (\<exists>r. get_u4 q' = Some r \<and> r < 56320)"
  using assms
proof (cases rule: compacting.cases)
  case (html c p p')
  then show ?thesis using html_low [OF html(3)]
    by (auto simp: u_escape_form get_u4_def byte_of_def hex4_u00 split: list.splits)
next
  case (sep c d e p p')
  then have "c \<noteq> backslash" by (auto simp: byte_of_def)
  with sep show ?thesis
    by (auto simp: get_u4_def hex4_def hex_val_def [of "CHR ''2''"] hex_val_def [of "CHR ''0''"] byte_of_def split: list.splits)
next
  case (escape e p p')
  then show ?thesis by (auto simp: get_u4_def simple_escape_def split: list.splits)
qed (auto simp: get_u4_def split: list.splits)

lemma get_u4_form:
  "get_u4 q = Some r \<Longrightarrow> \<exists>a b c d t. q = backslash # CHR ''u'' # a # b # c # d # t \<and> is_hex a \<and> is_hex b \<and> is_hex c \<and> is_hex d"
  by (auto simp: get_u4_def split: list.splits if_splits)

inductive_cases compacting_uE: "compacting (backslash # CHR ''u'' # a # b # c # d # t) q'"

lemma unquote_surrogate:
  assumes "is_hex a" and "is_hex b" and "is_hex c" and "is_hex d"
    and "55296 \<le> hex4 a b c d" and "hex4 a b c d \<le> 57343"
  shows "unquote (backslash # CHR ''u'' # a # b # c # d # t) =
    (case get_u4 t of
       Some r \<Rightarrow> if hex4 a b c d < 56320 \<and> 56320 \<le> r \<and> r \<le> 57343
         then encode_rune ((hex4 a b c d - 55296) * 1024 + (r - 56320) + 65536) @ unquote (drop 6 t)
         else encode_rune rune_error @ unquote t
     | None \<Rightarrow> encode_rune rune_error @ unquote t)"
proof -
  have "get_u4 (backslash # CHR ''u'' # a # b # c # d # t) = Some (hex4 a b c d)"
    using assms(1-4) by (simp add: get_u4_def)
  with assms(5,6) show ?thesis
    by (subst unquote.simps) (simp add: unquote_step_def split: option.split)
qed

lemma unquote_high:
  assumes "128 \<le> byte_of c" and "decode_rune (c # s) = (r, w)"
  shows "unquote (c # s) = encode_rune r @ unquote (drop (w - 1) s)"
proof -
  have "c \<noteq> backslash" using assms(1) by (auto simp: byte_of_def)
  moreover have "0 < w" using decode_rune_width [of "c # s"] assms(2) by simp
  ultimately show ?thesis using assms by (subst unquote.simps) (simp add: unquote_step_def drop_Cons')
qed

lemma unquote_sep:
  assumes "byte_of c = 226" and "byte_of d = 128" and "byte_of e = 168 \<or> byte_of e = 169"
  shows "unquote (c # d # e # q) = c # d # e # unquote q"
    "unquote ((backslash # ''u202'' @ [hex_digit (byte_of e)]) @ q) = c # d # e # unquote q"
proof -
  define r where "r = byte_of e + 8064"
  have r: "scalar_rune r" "128 \<le> r" using assms(3) by (auto simp: r_def scalar_rune_def)
  have "map byte_of [c, d, e] = map byte_of (encode_rune r)"
    using assms by (auto simp: r_def encode_rune_def Let_def)
  then have enc: "[c, d, e] = encode_rune r"
    by (metis (no_types, opaque_lifting) byte_chr_of list.map_comp comp_apply list.map_ident_strong)
  with unquote_rune [OF r, of q] show "unquote (c # d # e # q) = c # d # e # unquote q"
    by (metis append_Cons append_Nil)
  have h: "hex4 (CHR ''2'') (CHR ''0'') (CHR ''2'') (hex_digit (byte_of e)) = r"
    using assms(3) by (auto simp: r_def hex4_def hex_val_def [of "CHR ''2''"] hex_val_def [of "CHR ''0''"] byte_of_def)
  have "scalar_rune (hex4 (CHR ''2'') (CHR ''0'') (CHR ''2'') (hex_digit (byte_of e)))" by (simp only: h r)
  from unquote_u [OF _ _ _ _ this, of q] h enc
  show "unquote ((backslash # ''u202'' @ [hex_digit (byte_of e)]) @ q) = c # d # e # unquote q"
    by (metis (no_types, lifting) append_Cons append_Nil is_hex_digit is_hex_zero)
qed

lemma unquote_html: "html_char c \<Longrightarrow> unquote (u_escape c @ q) = c # unquote q"
  using html_low [of c] by (simp add: u_escape_form unquote_u hex4_u00 scalar_rune_def encode_ascii)

lemma hex_val_bound: "is_hex c \<Longrightarrow> hex_val c < 16"
  by (auto simp: is_hex_def hex_val_def Let_def)

text \<open>
  One unit of a string literal and what follows it, given that what is shorter decodes to the same.
\<close>

lemma unquote_compacting_high:
  assumes IH: "\<And>r r'. length r \<le> length p \<Longrightarrow> compacting r r' \<Longrightarrow> unquote r' = unquote r"
    and c: "\<not> byte_of c < 128" and p: "compacting p p'"
  shows "unquote (c # p') = unquote (c # p)"
proof -
  obtain r w where w: "decode_rune (c # p) = (r, w)" by fastforce
  then have w': "decode_rune (c # p') = (r, w)"
    using decode_rune_cont [of p' p c] compacting_cont [OF p] by simp
  have "w - 1 \<le> length (takeWhile cont_char p)" using decode_rune_cont_width [of c p] w by simp
  from IH [OF _ compacting_drop [OF p this]]
  have "unquote (drop (w - 1) p') = unquote (drop (w - 1) p)" by simp
  with c unquote_high [OF _ w] unquote_high [OF _ w'] show ?thesis by simp
qed

lemma unquote_compacting_u:
  assumes IH: "\<And>r r'. length r \<le> length p \<Longrightarrow> compacting r r' \<Longrightarrow> unquote r' = unquote r"
    and hex: "is_hex a" "is_hex b" "is_hex c" "is_hex d"
    and p: "compacting p p'"
  shows "unquote (backslash # CHR ''u'' # a # b # c # d # p') = unquote (backslash # CHR ''u'' # a # b # c # d # p)"
proof (cases "55296 \<le> hex4 a b c d \<and> hex4 a b c d \<le> 57343")
  case sur: True
  note s = unquote_surrogate [OF hex sur [THEN conjunct1] sur [THEN conjunct2]]
  have eq: "unquote p' = unquote p" using IH p by simp
  consider (same) "get_u4 p' = get_u4 p"
    | (new) r where "get_u4 p = None" "get_u4 p' = Some r" "r < 56320"
    using get_u4_compacting [OF p] by blast
  then show ?thesis
  proof cases
    case new
    with s [of p] s [of p'] eq show ?thesis by simp
  next
    case same
    have "unquote (drop 6 p') = unquote (drop 6 p)" if "get_u4 p = Some r" for r
    proof -
      from get_u4_form [OF that] obtain a b c d t where
        t: "p = backslash # CHR ''u'' # a # b # c # d # t" by blast
      from p [unfolded t] obtain t' where "compacting t t'" "drop 6 p' = t'"
        by (rule compacting_uE) (simp_all add: u_not_simple byte_of_def [of backslash])
      with IH [of t t'] t show ?thesis by simp
    qed
    with same s [of p] s [of p'] eq show ?thesis by (simp split: option.split)
  qed
next
  case False
  have "hex4 a b c d < 65536"
    using hex [THEN hex_val_bound] by (simp add: hex4_def)
  with False have "scalar_rune (hex4 a b c d)" by (auto simp: scalar_rune_def)
  with unquote_u [OF hex] IH p show ?thesis by simp
qed

lemma unquote_compacting: "compacting q q' \<Longrightarrow> unquote q' = unquote q"
proof (induction q arbitrary: q' rule: length_induct)
  case (1 q)
  then have IH: "\<And>p p'. length p < length q \<Longrightarrow> compacting p p' \<Longrightarrow> unquote p' = unquote p" by blast
  from "1.prems" show ?case
  proof (cases rule: compacting.cases)
    case (plain c p p')
    with IH show ?thesis by (cases "byte_of c < 128") (simp_all add: unquote_compacting_high)
  next
    case (html c p p')
    with IH [of p p'] html_low [OF html(3)] show ?thesis by (auto simp: unquote_html)
  next
    case (sep c d e p p')
    with IH [of p p'] unquote_sep [OF sep(3-5)] show ?thesis by simp
  next
    case (escape e p p')
    with IH [of p p'] show ?thesis by (simp add: unquote_simple)
  next
    case (unicode a b c d p p')
    show ?thesis unfolding unicode(1,2)
      by (rule unquote_compacting_u [OF _ unicode(3-7)]) (use IH unicode(1) in simp)
  qed simp
qed

section \<open>Compacting the text of a value\<close>

lemma compact_blank: "blank w \<Longrightarrow> compact_from Outside (w @ r) = compact_from Outside r"
  by (induction w) simp_all

definition keeps_char :: "char \<Rightarrow> bool" where
  "keeps_char c \<longleftrightarrow> \<not> json_ws c \<and> c \<noteq> dquote \<and> \<not> html_char c \<and> byte_of c < 128"

lemma compact_keeps: "keeps_char c \<Longrightarrow> compact_from Outside (c # r) = c # compact_from Outside r"
  using line_sep_low by (auto simp: keeps_char_def)

lemma compact_token: "list_all keeps_char s \<Longrightarrow> compact_from Outside (s @ r) = s @ compact_from Outside r"
  by (induction s) (simp_all add: compact_keeps del: compact_from.simps)

lemma keeps_structure [simp]:
  "keeps_char (CHR ''['')" "keeps_char (CHR '']'')" "keeps_char (CHR ''{'')" "keeps_char (CHR ''}'')"
  "keeps_char (CHR '','')" "keeps_char (CHR '':'')"
  by (simp_all add: keeps_char_def json_ws_def byte_of_def)

lemma number_keeps: "json_number l = Some (l, []) \<Longrightarrow> list_all keeps_char l"
proof -
  have "number_char c \<Longrightarrow> keeps_char c" for c
    by (auto simp: number_char_def keeps_char_def is_digit_def byte_of_def json_ws_def)
  then show "json_number l = Some (l, []) \<Longrightarrow> ?thesis"
    using json_number_split [of l l "[]"] by (auto simp: list_all_iff)
qed

definition compacts :: "(string \<Rightarrow> bool) \<Rightarrow> string \<Rightarrow> bool" where
  "compacts P s \<longleftrightarrow> (\<exists>s'. P s' \<and> (\<forall>r. compact_from Outside (s @ r) = s' @ compact_from Outside r))"

lemma compactsI: "P s' \<Longrightarrow> (\<And>r. compact_from Outside (s @ r) = s' @ compact_from Outside r) \<Longrightarrow> compacts P s"
  unfolding compacts_def by blast

lemma compactsE:
  assumes "compacts P s"
  obtains s' where "P s'" "\<And>r. compact_from Outside (s @ r) = s' @ compact_from Outside r"
  using assms unfolding compacts_def by blast

lemma compacts_token: "list_all keeps_char s \<Longrightarrow> P s \<Longrightarrow> compacts P s"
  by (rule compactsI) (simp_all add: compact_token)

lemma compacts_string:
  assumes "literal q"
  obtains q' where "literal q'" "unquote q' = unquote q"
    "\<And>r. compact_from Outside (dquote # q @ dquote # r) = dquote # q' @ dquote # compact_from Outside r"
proof -
  obtain q' where q': "compacting q q'" using literal_compacting [OF assms] by blast
  have "compact_from Outside (dquote # q @ dquote # r) = dquote # q' @ dquote # compact_from Outside r" for r
    using compacting_compact [OF q', of r] line_sep_low [of dquote]
    by (simp add: json_ws_def byte_of_def [of dquote])
  with that compacting_literal [OF q'] unquote_compacting [OF q'] show ?thesis by blast
qed

lemmas compact_parts = compact_blank compact_keeps

lemma renders_compacts:
  "renders d v s \<Longrightarrow> compacts (renders d v) s"
  "rend_elems d es t \<Longrightarrow> compacts (rend_elems d es) t"
  "rend_members d ms u \<Longrightarrow> compacts (rend_members d ms) u"
proof (induction rule: renders_rend_elems_rend_members.inducts)
  case (null d)
  show ?case by (rule compacts_token)
    (simp_all add: keeps_char_def json_ws_def byte_of_def renders_rend_elems_rend_members.null)
next
  case (bool d b)
  show ?case by (rule compacts_token)
    (simp_all add: keeps_char_def json_ws_def byte_of_def bool_text_def
      renders_rend_elems_rend_members.bool [unfolded bool_text_def])
next
  case (num l d)
  then show ?case by (blast intro: compacts_token number_keeps renders_rend_elems_rend_members.num)
next
  case (str q d)
  then obtain q' where q': "literal q'" "unquote q' = unquote q"
    "\<And>r. compact_from Outside (dquote # q @ dquote # r) = dquote # q' @ dquote # compact_from Outside r"
    by (rule compacts_string) blast
  show ?case
    by (rule compactsI [of _ "dquote # q' @ [dquote]"])
      (use renders_rend_elems_rend_members.str [OF q'(1), of d] q' in \<open>simp_all del: compact_from.simps\<close>)
next
  case (arr0 w d)
  show ?case
    by (rule compactsI [of _ "''[]''"])
      (use renders_rend_elems_rend_members.arr0 [of "[]" d] arr0 in \<open>simp_all add: compact_parts del: compact_from.simps\<close>)
next
  case (obj0 w d)
  show ?case
    by (rule compactsI [of _ "''{}''"])
      (use renders_rend_elems_rend_members.obj0 [of "[]" d] obj0 in \<open>simp_all add: compact_parts del: compact_from.simps\<close>)
next
  case (arr d es t w)
  from arr.IH obtain t' where t': "rend_elems d es t'" "\<And>r. compact_from Outside (t @ r) = t' @ compact_from Outside r"
    by (rule compactsE) blast
  show ?case
    by (rule compactsI [of _ "CHR ''['' # t'"])
      (use renders_rend_elems_rend_members.arr [OF t'(1), of "[]"] t'(2) arr.hyps in \<open>simp_all add: compact_parts del: compact_from.simps\<close>)
next
  case (obj d ms t w)
  from obj.IH obtain t' where t': "rend_members d ms t'" "\<And>r. compact_from Outside (t @ r) = t' @ compact_from Outside r"
    by (rule compactsE) blast
  show ?case
    by (rule compactsI [of _ "CHR ''{'' # t'"])
      (use renders_rend_elems_rend_members.obj [OF t'(1), of "[]"] t'(2) obj.hyps in \<open>simp_all add: compact_parts del: compact_from.simps\<close>)
next
  case (elem1 d v s w raw)
  from elem1.IH obtain s' where s': "renders d v s'" "\<And>r. compact_from Outside (s @ r) = s' @ compact_from Outside r"
    by (rule compactsE) blast
  show ?case
    by (rule compactsI [of _ "s' @ '']''"])
      (use renders_rend_elems_rend_members.elem1 [OF s'(1), of "[]" raw] s'(2) elem1.hyps in \<open>simp_all add: compact_parts del: compact_from.simps\<close>)
next
  case (elem d v s w w' es t raw)
  from elem.IH(1) obtain s' where s': "renders d v s'" "\<And>r. compact_from Outside (s @ r) = s' @ compact_from Outside r"
    by (rule compactsE) blast
  from elem.IH(2) obtain t' where t': "rend_elems d es t'" "\<And>r. compact_from Outside (t @ r) = t' @ compact_from Outside r"
    by (rule compactsE) blast
  show ?case
    by (rule compactsI [of _ "s' @ CHR '','' # t'"])
      (use renders_rend_elems_rend_members.elem [OF s'(1) _ _ t'(1), of "[]" "[]" raw] s'(2) t'(2) elem.hyps
        in \<open>simp_all add: compact_parts del: compact_from.simps\<close>)
next
  case (member1 q w1 w2 d v s w raw)
  from member1.hyps(1) obtain q' where q': "literal q'" "unquote q' = unquote q"
    "\<And>r. compact_from Outside (dquote # q @ dquote # r) = dquote # q' @ dquote # compact_from Outside r"
    by (rule compacts_string) blast
  from member1.IH obtain s' where s': "renders d v s'" "\<And>r. compact_from Outside (s @ r) = s' @ compact_from Outside r"
    by (rule compactsE) blast
  show ?case
    by (rule compactsI [of _ "dquote # q' @ dquote # CHR '':'' # s' @ ''}''"])
      (use renders_rend_elems_rend_members.member1 [OF q'(1) _ _ s'(1), of "[]" "[]" "[]" raw] q'(2,3) s'(2) member1.hyps
        in \<open>simp_all add: compact_parts del: compact_from.simps\<close>)
next
  case (member q w1 w2 d v s w w' ms t raw)
  from member.hyps(1) obtain q' where q': "literal q'" "unquote q' = unquote q"
    "\<And>r. compact_from Outside (dquote # q @ dquote # r) = dquote # q' @ dquote # compact_from Outside r"
    by (rule compacts_string) blast
  from member.IH(1) obtain s' where s': "renders d v s'" "\<And>r. compact_from Outside (s @ r) = s' @ compact_from Outside r"
    by (rule compactsE) blast
  from member.IH(2) obtain t' where t': "rend_members d ms t'" "\<And>r. compact_from Outside (t @ r) = t' @ compact_from Outside r"
    by (rule compactsE) blast
  show ?case
    by (rule compactsI [of _ "dquote # q' @ dquote # CHR '':'' # s' @ CHR '','' # t'"])
      (use renders_rend_elems_rend_members.member [OF q'(1) _ _ s'(1) _ _ t'(1), of "[]" "[]" "[]" "[]" raw]
        q'(2,3) s'(2) t'(2) member.hyps
        in \<open>simp_all add: compact_parts del: compact_from.simps\<close>)
qed

text \<open>A whole text, with white space around it.\<close>

lemma renders_compact:
  assumes "renders d v s" and "blank w1" and "blank w2"
  shows "renders d v (compact (w1 @ s @ w2))"
proof -
  from renders_compacts(1) [OF assms(1)] obtain s' where s': "renders d v s'"
    "\<And>r. compact_from Outside (s @ r) = s' @ compact_from Outside r" by (rule compactsE) blast
  moreover have "compact_from Outside w2 = []" using compact_blank [OF assms(3), of "[]"] by simp
  ultimately show ?thesis by (simp add: compact_def compact_blank assms(2) del: compact_from.simps)
qed

end
