(* ===== verification/JsonSound.thy ===== *)
theory JsonSound
  imports JsonCompact
begin

text \<open>
  The other half of the parser's specification: whatever it accepts is a text of the value it
  returns, and so are the raw bytes it keeps beside elements and members (\<open>parser_renders\<close>). With
  \<open>parse_renders\<close> the accepted texts are exactly those of the grammar (\<open>json_check_iff\<close>). \<open>reads d s v\<close>
  says that \<open>s\<close> is a bare text of \<open>v\<close> at nesting depth \<open>d\<close>; it is what moves a raw message from one
  text into another.
\<close>

section \<open>A number literal on its own\<close>

lemma takeWhile_all_digits: "list_all is_digit (takeWhile is_digit s)"
  by (auto simp: list_all_iff dest: set_takeWhileD)

lemma int_part_alone:
  assumes "json_int_part s = Some (i, u)" and "y = [] \<or> \<not> is_digit (hd y)"
  shows "json_int_part (i @ y) = Some (i, y)"
proof (cases s)
  case Nil
  with assms(1) show ?thesis by (simp add: json_int_part_def)
next
  case (Cons c cs)
  show ?thesis
  proof (cases "c = CHR ''0''")
    case True
    with assms(1) Cons show ?thesis by (auto simp: json_int_part_def)
  next
    case False
    with assms(1) Cons have i: "i = takeWhile is_digit (c # cs)" "is_digit c"
      by (auto simp: json_int_part_def split: if_splits)
    then have "takeWhile is_digit (i @ y) = i" "dropWhile is_digit (i @ y) = y"
      using takeWhile_digits [OF _ assms(2)] takeWhile_all_digits by blast+
    with i False show ?thesis by (auto simp: json_int_part_def)
  qed
qed

lemma frac_part_alone:
  assumes "json_frac_part s = Some (f, u)" and "y = [] \<or> \<not> is_digit (hd y) \<and> hd y \<noteq> CHR ''.''"
  shows "json_frac_part (f @ y) = Some (f, y) \<and> (f = [] \<or> hd f = CHR ''.'')"
proof (cases f)
  case Nil
  with assms show ?thesis by (cases y) (auto simp: json_frac_part_def)
next
  case (Cons c ds)
  with assms(1) have c: "c = CHR ''.''" "ds \<noteq> []" "list_all is_digit ds"
    using takeWhile_all_digits by (auto simp: json_frac_part_def split: list.splits if_splits)
  then obtain e es where "ds = e # es" "is_digit e" by (cases ds) auto
  with takeWhile_digits [OF c(3), of y] assms(2) Cons c(1) show ?thesis by (auto simp: json_frac_part_def)
qed

lemma exp_part_alone:
  assumes "json_exp_part s = Some (x, u)"
  shows "json_exp_part x = Some (x, []) \<and> (x = [] \<or> hd x = CHR ''e'' \<or> hd x = CHR ''E'')"
proof (cases x)
  case Nil
  then show ?thesis by (simp add: json_exp_part_def)
next
  case (Cons c y)
  define sp where "sp = (\<lambda>cs :: string. case cs of [] \<Rightarrow> ([], []) | d # t \<Rightarrow>
    if d = CHR ''+'' \<or> d = CHR ''-'' then ([d], t) else ([], cs))"
  from assms Cons obtain c0 cs where s: "s = c0 # cs" by (cases s) (auto simp: json_exp_part_def)
  obtain sg r where sg: "sp cs = (sg, r)" by fastforce
  have "json_exp_part s = (if c0 = CHR ''e'' \<or> c0 = CHR ''E'' then
      (if takeWhile is_digit r = [] then None else Some (c0 # sg @ takeWhile is_digit r, dropWhile is_digit r))
      else Some ([], s))"
    using sg by (simp add: json_exp_part_def s sp_def Let_def)
  with assms Cons have x: "c0 = CHR ''e'' \<or> c0 = CHR ''E''" "takeWhile is_digit r \<noteq> []" "c = c0" "y = sg @ takeWhile is_digit r"
    by (auto split: if_splits)
  define ds where "ds = takeWhile is_digit r"
  have y: "y = sg @ ds" "c = CHR ''e'' \<or> c = CHR ''E''" "ds \<noteq> []" "list_all is_digit ds"
    using x takeWhile_all_digits by (auto simp: ds_def)
  have "sg = [] \<or> sg = [CHR ''+''] \<or> sg = [CHR ''-'']" using sg by (auto simp: sp_def split: list.splits if_splits)
  moreover have "takeWhile is_digit ds = ds" "dropWhile is_digit ds = []" using takeWhile_digits [OF y(4), of "[]"] by simp_all
  moreover have "\<not> is_digit (CHR ''+'')" "\<not> is_digit (CHR ''-'')" by (simp_all add: is_digit_def byte_of_def)
  moreover obtain e es where "ds = e # es" "is_digit e" using y(3,4) by (cases ds) auto
  ultimately show ?thesis using y Cons by (auto simp: json_exp_part_def)
qed

lemma number_alone:
  assumes "json_number s = Some (l, t)"
  shows "json_number l = Some (l, [])"
proof -
  define sp where "sp = (\<lambda>s :: string. case s of [] \<Rightarrow> ([], []) | c # cs \<Rightarrow> if c = CHR ''-'' then ([c], cs) else ([], s))"
  obtain sg r where sg: "sp s = (sg, r)" by fastforce
  have e: "json_number s = (case sp s of (sg, t) \<Rightarrow>
      case json_int_part t of None \<Rightarrow> None | Some (i, u) \<Rightarrow>
        (case json_frac_part u of None \<Rightarrow> None | Some (f, v) \<Rightarrow>
          (case json_exp_part v of None \<Rightarrow> None | Some (x, w) \<Rightarrow> Some (sg @ i @ f @ x, w))))" for s
    by (simp add: json_number_def sp_def Let_def)
  from assms e [of s] sg obtain i u f v x where
    i: "json_int_part r = Some (i, u)" and f: "json_frac_part u = Some (f, v)"
    and x: "json_exp_part v = Some (x, t)" and l: "l = sg @ i @ f @ x"
    by (auto split: option.splits prod.splits)
  note x' = exp_part_alone [OF x]
  have xd: "x = [] \<or> \<not> is_digit (hd x) \<and> hd x \<noteq> CHR ''.''" using x' by (auto simp: is_digit_def byte_of_def)
  note f' = frac_part_alone [OF f xd]
  have "f @ x = [] \<or> \<not> is_digit (hd (f @ x))"
    using f' xd by (cases f) (auto simp: is_digit_def byte_of_def)
  note i' = int_part_alone [OF i this]
  have "i \<noteq> []" "hd i \<noteq> CHR ''-''"
    using i by (auto simp: json_int_part_def is_digit_def byte_of_def split: list.splits if_splits)
  moreover have "sg = [] \<or> sg = [CHR ''-'']" using sg by (auto simp: sp_def split: list.splits if_splits)
  ultimately have "sp l = (sg, i @ f @ x)" using l by (cases i) (auto simp: sp_def)
  with e [of l] i' f' x' l show ?thesis by simp
qed

section \<open>The parser accepts only texts of the value\<close>

lemma skip_ws_split: obtains w where "blank w" "s = w @ skip_ws s"
proof -
  have "blank (takeWhile json_ws s)" by (auto simp: list_all_iff dest: set_takeWhileD)
  then show ?thesis using that [of "takeWhile json_ws s"] by (simp add: skip_ws_def)
qed

lemma has_prefix_split: "has_prefix p s \<Longrightarrow> length p = k \<Longrightarrow> s = p @ drop k s"
  using has_prefix_append by blast

text \<open>The raw bytes kept inside a value, all the way down, are texts of what they stand beside.\<close>

fun containers_ok :: "nat \<Rightarrow> json \<Rightarrow> bool" where
  "containers_ok d (JArr es) = list_all (\<lambda>e. renders (d - 1) (snd e) (fst e) \<and> containers_ok (d - 1) (snd e)) es"
| "containers_ok d (JObj ms) =
     list_all (\<lambda>m. renders (d - 1) (snd (snd m)) (fst (snd m)) \<and> containers_ok (d - 1) (snd (snd m))) ms"
| "containers_ok d v = True"

abbreviation elems_ok :: "nat \<Rightarrow> (string \<times> json) list \<Rightarrow> bool" where
  "elems_ok d es \<equiv> containers_ok (Suc d) (JArr es)"

abbreviation members_ok :: "nat \<Rightarrow> (string \<times> string \<times> json) list \<Rightarrow> bool" where
  "members_ok d ms \<equiv> containers_ok (Suc d) (JObj ms)"

lemma runs_rendered:
  "value_run n d s v t \<Longrightarrow> \<exists>p. s = p @ t \<and> renders d v p \<and> containers_ok d v"
  "elems_run n d s es t \<Longrightarrow> \<exists>p. s = p @ t \<and> rend_elems d es p \<and> elems_ok d es"
  "members_run n d s ms t \<Longrightarrow> \<exists>p. s = p @ t \<and> rend_members d ms p \<and> members_ok d ms"
proof (induction rule: run_inducts)
  case (run_str cs q t n d)
  with read_literal [OF run_str] show ?case
    by (intro exI [of _ "dquote # q @ [dquote]"]) (auto intro: renders_rend_elems_rend_members.str)
next
  case (run_bool b s n d)
  with renders_rend_elems_rend_members.bool [of d b] has_prefix_split [of "''true''" s 4]
    has_prefix_split [of "''false''" s 5] show ?case
    by (intro exI [of _ "bool_text b"]) (cases b; simp add: bool_text_def)
next
  case (run_null s n d)
  with renders_rend_elems_rend_members.null [of d] has_prefix_split [of "''null''" s 4] show ?case
    by (intro exI [of _ "''null''"]) simp
next
  case (run_num s l t n d)
  with json_number_split [OF run_num] number_alone [OF run_num] show ?case
    by (intro exI [of _ l]) (auto intro: renders_rend_elems_rend_members.num)
next
  case (run_arr0 cs t n d)
  then obtain w where "blank w" "cs = w @ CHR '']'' # t" using skip_ws_split [of cs] by metis
  then show ?case
    by (intro exI [of _ "CHR ''['' # w @ '']''"]) (auto intro: renders_rend_elems_rend_members.arr0)
next
  case (run_arr cs b u n d es t)
  then obtain w p where "blank w" "cs = w @ p @ t" "rend_elems d es p" "elems_ok d es"
    using skip_ws_split [of cs] by metis
  then show ?case
    by (intro exI [of _ "CHR ''['' # w @ p"]) (auto intro: renders_rend_elems_rend_members.arr)
next
  case (run_obj0 cs t n d)
  then obtain w where "blank w" "cs = w @ CHR ''}'' # t" using skip_ws_split [of cs] by metis
  then show ?case
    by (intro exI [of _ "CHR ''{'' # w @ ''}''"]) (auto intro: renders_rend_elems_rend_members.obj0)
next
  case (run_obj cs b u n d ms t)
  then obtain w p where "blank w" "cs = w @ p @ t" "rend_members d ms p" "members_ok d ms"
    using skip_ws_split [of cs] by metis
  then show ?case
    by (intro exI [of _ "CHR ''{'' # w @ p"]) (auto intro: renders_rend_elems_rend_members.obj)
next
  case (run_elem1 n d s v t1 t)
  then obtain p w where "blank w" "t1 = w @ CHR '']'' # t" "s = p @ t1" "renders d v p" "containers_ok d v"
    using skip_ws_split [of t1] by metis
  then show ?case
    by (intro exI [of _ "p @ w @ '']''"]) (auto intro: renders_rend_elems_rend_members.elem1)
next
  case (run_elem n d s v t1 u es t)
  then obtain p w where p: "blank w" "t1 = w @ CHR '','' # u" "s = p @ t1" "renders d v p" "containers_ok d v"
    using skip_ws_split [of t1] by metis
  from run_elem obtain p' w' where "blank w'" "u = w' @ p' @ t" "rend_elems d es p'" "elems_ok d es"
    using skip_ws_split [of u] by metis
  with p show ?case
    by (intro exI [of _ "p @ w @ CHR '','' # w' @ p'"]) (auto intro: renders_rend_elems_rend_members.elem)
next
  case (run_member1 cs k t0 t1 s n d v t2 t)
  note k = read_literal [OF run_member1(1)]
  from run_member1 obtain w1 where w1: "blank w1" "t0 = w1 @ CHR '':'' # t1" using skip_ws_split [of t0] by metis
  from run_member1 obtain w2 p where w2: "blank w2" "t1 = w2 @ p @ t2" "s = p @ t2" "renders d v p" "containers_ok d v"
    using skip_ws_split [of t1] by metis
  from run_member1 obtain w where w: "blank w" "t2 = w @ CHR ''}'' # t" using skip_ws_split [of t2] by metis
  from renders_rend_elems_rend_members.member1 [OF conjunct1 [OF k] w1(1) w2(1) w2(4) w(1), of p] w1 w2 w k
  show ?case by (intro exI [of _ "dquote # k @ dquote # w1 @ CHR '':'' # w2 @ p @ w @ ''}''"]) auto
next
  case (run_member cs k t0 t1 s n d v t2 u ms t)
  note k = read_literal [OF run_member(1)]
  from run_member obtain w1 where w1: "blank w1" "t0 = w1 @ CHR '':'' # t1" using skip_ws_split [of t0] by metis
  from run_member obtain w2 p where w2: "blank w2" "t1 = w2 @ p @ t2" "s = p @ t2" "renders d v p" "containers_ok d v"
    using skip_ws_split [of t1] by metis
  from run_member obtain w where w: "blank w" "t2 = w @ CHR '','' # u" using skip_ws_split [of t2] by metis
  from run_member obtain w' p' where p': "blank w'" "u = w' @ p' @ t" "rend_members d ms p'" "members_ok d ms"
    using skip_ws_split [of u] by metis
  from renders_rend_elems_rend_members.member [OF conjunct1 [OF k] w1(1) w2(1) w2(4) w(1) p'(1,3), of p] w1 w2 w k p'
  show ?case
    by (intro exI [of _ "dquote # k @ dquote # w1 @ CHR '':'' # w2 @ p @ w @ CHR '','' # w' @ p'"]) auto
qed

lemma parser_renders:
  "json_value n d s = Some (v, t) \<Longrightarrow> \<exists>p. s = p @ t \<and> renders d v p \<and> containers_ok d v"
  "json_elems n d s = Some (es, t) \<Longrightarrow> \<exists>p. s = p @ t \<and> rend_elems d es p \<and> elems_ok d es"
  "json_members n d s = Some (ms, t) \<Longrightarrow> \<exists>p. s = p @ t \<and> rend_members d ms p \<and> members_ok d ms"
  by (blast dest: parser_runs runs_rendered)+

section \<open>Depth and fuel\<close>

lemma parser_mono:
  "json_value n d s = Some r \<Longrightarrow> n \<le> n' \<Longrightarrow> d \<le> d' \<Longrightarrow> json_value n' d' s = Some r"
  by (cases r) (auto dest!: parser_runs(1) intro: runs_parse(1))

section \<open>Texts and their values\<close>

text \<open>
  A text within a depth is read within that depth: the raw bytes inside it are texts of smaller depth,
  which is why they may be put inside another text.
\<close>

lemma check_within:
  assumes "renders d v s" and "blank w1" and "blank w2" and "d \<le> max_depth"
  obtains v' where "json_check (w1 @ s @ w2) = Some v'" "erase v' = erase v" "containers_ok d v'"
proof -
  have "stops w2" using stops_blank [OF assms(3), of "[]"] by simp
  from reads_valueD [OF renders_reads(1) [OF assms(1)] this] obtain v' N where
    v': "erase v' = erase v" "json_value N d (s @ w2) = Some (v', w2)" by blast
  let ?m = "max N (json_fuel (s @ w2))"
  have "json_value ?m max_depth (s @ w2) = Some (v', w2)"
    by (rule parser_mono(1) [OF v'(2) _ assms(4)]) simp
  then have "json_value (json_fuel (s @ w2)) max_depth (s @ w2) = Some (v', w2)"
    using json_fuel_enough [of "s @ w2" ?m max_depth] by simp
  moreover have "skip_ws w2 = []" using skip_ws_blank [OF assms(3), of "[]"] by (simp add: skip_ws_def)
  ultimately have "json_check (w1 @ s @ w2) = Some v'"
    by (simp add: json_check_def json_parse_def renders_skip [OF assms(1,2)])
  moreover have "containers_ok d v'" using parser_renders(1) [OF v'(2)] by blast
  ultimately show ?thesis using that v'(1) by blast
qed

lemma check_text:
  assumes "json_check s = Some v"
  obtains w1 t w2 where "s = w1 @ t @ w2" "blank w1" "blank w2" "renders max_depth v t" "containers_ok max_depth v"
proof -
  from assms obtain u where p: "json_value (json_fuel (skip_ws s)) max_depth (skip_ws s) = Some (v, u)" "skip_ws u = []"
    by (auto simp: json_check_def json_parse_def Let_def split: option.splits if_splits)
  from parser_renders(1) [OF p(1)] obtain t where t: "skip_ws s = t @ u" "renders max_depth v t" "containers_ok max_depth v"
    by blast
  obtain w1 where w1: "blank w1" "s = w1 @ skip_ws s" by (rule skip_ws_split)
  have "blank u" by (rule skip_ws_split [of u]) (simp add: p(2))
  with that [of w1 t u] t w1 show ?thesis by metis
qed

text \<open>The accepted texts are those of the grammar, with white space around them.\<close>

lemma json_check_iff:
  "json_check s \<noteq> None \<longleftrightarrow> (\<exists>w1 t w2 v. s = w1 @ t @ w2 \<and> blank w1 \<and> blank w2 \<and> renders max_depth v t)"
proof
  assume "json_check s \<noteq> None"
  then obtain v where "json_check s = Some v" by blast
  from check_text [OF this] show "\<exists>w1 t w2 v. s = w1 @ t @ w2 \<and> blank w1 \<and> blank w2 \<and> renders max_depth v t" by metis
next
  assume "\<exists>w1 t w2 v. s = w1 @ t @ w2 \<and> blank w1 \<and> blank w2 \<and> renders max_depth v t"
  then show "json_check s \<noteq> None" using check_renders by fastforce
qed

section \<open>Maps of raw messages\<close>

definition value_at :: "string dict \<Rightarrow> string \<Rightarrow> json option" where
  "value_at m k = (case map_of m k of None \<Rightarrow> None | Some raw \<Rightarrow> map_option erase (json_check raw))"

fun last_member :: "json \<Rightarrow> string \<Rightarrow> json option" where
  "last_member (JObj ms) k = map_option (\<lambda>m. erase (snd m)) (map_of (rev ms) k)"
| "last_member v k = None"

lemma raw_map_of:
  "map_of (foldl (\<lambda>m (k, raw, v). AList.update k raw m) m0 ms) k =
   (case map_of (rev ms) k of None \<Rightarrow> map_of m0 k | Some (raw, v) \<Rightarrow> Some raw)"
  by (induction ms arbitrary: m0) (auto simp: update_conv' split_beta map_add_def split: option.splits)

lemma erase_idem [simp]: "erase (erase v) = erase v"
  by (induction v rule: erase.induct) auto

lemma last_member_erase: "last_member (erase j) k = last_member j k"
proof (cases j)
  case (JObj ms)
  have "rev (map erase_member ms) = map (\<lambda>(k, x). (k, [], erase (snd x))) (rev ms)"
    by (simp add: rev_map split_beta)
  with JObj show ?thesis by (simp add: map_of_map option.map_comp o_def)
qed simp_all

lemma value_at_decoded:
  assumes "decode_raw_map j = Some m" and "containers_ok (Suc d) j" and "d \<le> max_depth"
  shows "value_at m k = last_member j k"
proof (cases j)
  case (JObj ms)
  with assms(1) have m: "map_of m k = (case map_of (rev ms) k of None \<Rightarrow> None | Some (raw, v) \<Rightarrow> Some raw)"
    using raw_map_of [of "[]" ms k] by (simp split: option.split)
  show ?thesis
  proof (cases "map_of (rev ms) k")
    case None
    with m JObj show ?thesis by (simp add: value_at_def)
  next
    case (Some x)
    obtain raw v where x: "x = (raw, v)" by fastforce
    with Some have "(k, raw, v) \<in> set ms" using map_of_SomeD by fastforce
    with assms(2) JObj have "renders d v raw" by (auto simp: list_all_iff)
    from check_within [OF this, of "[]" "[]"] assms(3) obtain v' where
      "json_check raw = Some v'" "erase v' = erase v" by auto
    with m JObj Some x show ?thesis by (simp add: value_at_def)
  qed
qed (use assms(1) in \<open>auto simp: value_at_def\<close>)

end
