(* ===== verification/GoHttp.thy ===== *)
theory GoHttp
  imports GoText
begin

text \<open>
  What the handlers use of \<open>net/http\<close> and \<open>io\<close>: a request with its headers and a body that yields
  bytes and then ends or fails, a response with status, headers and body, \<open>http.Error\<close>, and
  \<open>io.ReadAll\<close> over an \<open>io.LimitReader\<close>. A header map holds one value per canonical name.
\<close>

text \<open>The bytes a reader yields, then \<open>None\<close> for end of file or the error it fails with.\<close>

type_synonym reader = "bytes \<times> string option"

record http_request =
  rq_method :: string
  rq_path :: string
  rq_header :: "string dict"
  rq_body :: reader

record http_response =
  rs_status :: nat
  rs_header :: "string dict"
  rs_body :: bytes

text \<open>\<open>http.Header.Get\<close>: the empty string when the header is absent.\<close>

definition header_get :: "string dict \<Rightarrow> string \<Rightarrow> string" where
  "header_get h k = (case map_of h k of None \<Rightarrow> [] | Some v \<Rightarrow> v)"

definition header_set :: "string \<Rightarrow> string \<Rightarrow> string dict \<Rightarrow> string dict" where
  "header_set k v h = AList.update k v h"

definition header_del :: "string \<Rightarrow> string dict \<Rightarrow> string dict" where
  "header_del k h = AList.delete k h"

lemma header_get_set [simp]: "header_get (header_set k v h) k' = (if k' = k then v else header_get h k')"
  by (simp add: header_get_def header_set_def update_conv')

lemma header_get_del [simp]: "header_get (header_del k h) k' = (if k' = k then [] else header_get h k')"
  by (simp add: header_get_def header_del_def delete_conv')

lemma header_get_Nil [simp]: "header_get [] k = []"
  by (simp add: header_get_def)

text \<open>\<open>io.ReadAll(io.LimitReader(r, n))\<close>: an error past the limit is never seen.\<close>

definition read_limited :: "nat \<Rightarrow> reader \<Rightarrow> bytes \<times> string option" where
  "read_limited n r = (take n (fst r), if length (fst r) < n then snd r else None)"

lemma read_limited_length: "length (fst (read_limited n r)) \<le> n"
  by (simp add: read_limited_def)

lemma read_limited_whole:
  "length b < n \<Longrightarrow> read_limited n (b, e) = (b, e)"
  by (simp add: read_limited_def)

definition http_ok :: nat where "http_ok = 200"
definition http_bad_request :: nat where "http_bad_request = 400"
definition http_method_not_allowed :: nat where "http_method_not_allowed = 405"
definition http_unsupported_media :: nat where "http_unsupported_media = 415"

lemmas http_codes [simp] =
  http_ok_def http_bad_request_def http_method_not_allowed_def http_unsupported_media_def

text \<open>\<open>http.Error\<close> on top of the headers set so far.\<close>

definition http_error :: "string dict \<Rightarrow> string \<Rightarrow> nat \<Rightarrow> http_response" where
  "http_error h msg code =
     \<lparr>rs_status = code,
      rs_header =
        header_set ''X-Content-Type-Options'' ''nosniff''
          (header_set ''Content-Type'' ''text/plain; charset=utf-8'' (header_del ''Content-Length'' h)),
      rs_body = msg @ [CHR 0x0A]\<rparr>"

lemma http_error_status [simp]: "rs_status (http_error h m c) = c"
  by (simp add: http_error_def)

end
