(* ===== verification/HeadroomVersion.thy ===== *)
theory HeadroomVersion
  imports GoText
begin

text \<open>
  The headroom-ai version gate of \<open>pool.go\<close> (\<open>supportsSavingsProfile\<close>) and an ordered type of
  major/minor versions as its specification.
\<close>

definition supportsSavingsProfile :: "string \<Rightarrow> bool" where
  "supportsSavingsProfile ver =
     (case split_n 3 (CHR ''.'') ver of
        p0 # p1 # _ \<Rightarrow>
          (case (atoi p0, atoi p1) of
             (Some major, Some minor) \<Rightarrow> major > 0 \<or> minor \<ge> 26
           | _ \<Rightarrow> True)
      | _ \<Rightarrow> True)"

section \<open>Versions as an order\<close>

datatype version = Version int int

fun major_of :: "version \<Rightarrow> int" where
  "major_of (Version a b) = a"

fun minor_of :: "version \<Rightarrow> int" where
  "minor_of (Version a b) = b"

instantiation version :: linorder
begin

definition less_eq_version :: "version \<Rightarrow> version \<Rightarrow> bool" where
  "less_eq_version v w \<longleftrightarrow>
     major_of v < major_of w \<or> (major_of v = major_of w \<and> minor_of v \<le> minor_of w)"

definition less_version :: "version \<Rightarrow> version \<Rightarrow> bool" where
  "less_version v w \<longleftrightarrow>
     major_of v < major_of w \<or> (major_of v = major_of w \<and> minor_of v < minor_of w)"

instance
proof (standard, goal_cases)
  case (4 x y)
  then show ?case by (cases x; cases y) (auto simp: less_eq_version_def)
qed (auto simp: less_eq_version_def less_version_def)

end

text \<open>The leading two components of a version text, when both are integers.\<close>

definition parse_version :: "string \<Rightarrow> version option" where
  "parse_version ver =
     (case split_n 3 (CHR ''.'') ver of
        p0 # p1 # _ \<Rightarrow>
          (case (atoi p0, atoi p1) of
             (Some a, Some b) \<Rightarrow> Some (Version a b)
           | _ \<Rightarrow> None)
      | _ \<Rightarrow> None)"

lemma supportsSavingsProfile_order:
  assumes "\<And>v. parse_version ver = Some v \<Longrightarrow> 0 \<le> major_of v"
  shows "supportsSavingsProfile ver \<longleftrightarrow>
    (case parse_version ver of None \<Rightarrow> True | Some v \<Rightarrow> Version 0 26 \<le> v)"
proof (cases "parse_version ver")
  case None
  then show ?thesis
    by (auto simp: parse_version_def supportsSavingsProfile_def split: list.splits option.splits)
next
  case (Some v)
  obtain a b where v: "v = Version a b" by (cases v)
  with Some assms have "0 \<le> a" by fastforce
  with Some v show ?thesis
    by (auto simp: parse_version_def supportsSavingsProfile_def less_eq_version_def
        split: list.splits option.splits)
qed

text \<open>A version text rendered from its components reads back.\<close>

lemma dropWhile_ne_append: "c \<notin> set a \<Longrightarrow> dropWhile (\<lambda>x. x \<noteq> c) (a @ c # b) = c # b"
  by (induction a) auto

lemma takeWhile_ne_append: "c \<notin> set a \<Longrightarrow> takeWhile (\<lambda>x. x \<noteq> c) (a @ c # b) = a"
  by (induction a) auto

lemma split_n_at:
  "c \<notin> set a \<Longrightarrow> split_n (Suc (Suc n)) c (a @ c # b) = a # split_n (Suc n) c b"
  by (simp add: dropWhile_ne_append takeWhile_ne_append del: split_n.simps(2) add: split_n.simps(2) [of "Suc n"])

lemma int_text_no_dot: "CHR ''.'' \<notin> set (int_text i)"
  by (auto simp: int_text_def is_digit_def byte_of_def intro!: nat_text_no_char)

lemma parse_version_text:
  assumes "int64_range a" and "int64_range b"
  shows "parse_version (int_text a @ ''.'' @ int_text b @ ''.'' @ rest) = Some (Version a b)"
proof -
  have "split_n 3 (CHR ''.'') (int_text a @ CHR ''.'' # int_text b @ CHR ''.'' # rest) =
      [int_text a, int_text b, rest]"
    by (simp only: numeral_3_eq_3 split_n_at [OF int_text_no_dot]) simp
  then show ?thesis using assms by (simp add: parse_version_def atoi_int_text)
qed



end
