(* ===== verification/Encoding.thy ===== *)
theory Encoding
  imports GoHttp
begin

text \<open>
  \<open>encoding.go\<close>: the table of accepted request-body codings, the \<open>Accept-Encoding\<close> value built from
  it, and the dispatch that decodes a body. The decompressors themselves (\<open>compress/gzip\<close>, whose
  output is a stream that may fail late, and klauspost's \<open>zstd\<close>, which decodes in one call under a
  memory cap) and the table of \<open>unicode.ToLower\<close> are the fields of the record \<open>coders\<close>.
\<close>

definition maxBody :: nat where
  "maxBody = 50 * 2 ^ 20"

record coders =
  gunzip :: "bytes \<Rightarrow> string + reader"
  zstd_decode_all :: "bytes \<Rightarrow> bytes result"
  unicode_lower :: "nat \<Rightarrow> nat"

datatype decode_error = ErrUnsupportedEncoding string | ErrDecode string

record reqCodec =
  codec_name :: string
  codec_decode :: "bytes \<Rightarrow> decode_error + bytes"

definition decodeZstd :: "coders \<Rightarrow> bytes \<Rightarrow> decode_error + bytes" where
  "decodeZstd cd body =
     (case zstd_decode_all cd body of
        Inl e \<Rightarrow> Inl (ErrDecode (''zstd decode: '' @ e))
      | Inr out \<Rightarrow> Inr out)"

definition decodeGzip :: "coders \<Rightarrow> bytes \<Rightarrow> decode_error + bytes" where
  "decodeGzip cd body =
     (case gunzip cd body of
        Inl e \<Rightarrow> Inl (ErrDecode (''gzip reader: '' @ e))
      | Inr zr \<Rightarrow>
          (case read_limited (maxBody + 1) zr of
             (_, Some e) \<Rightarrow> Inl (ErrDecode (''gzip decode: '' @ e))
           | (out, None) \<Rightarrow>
               if length out > maxBody
               then Inl (ErrDecode (''gzip decode: decompressed body exceeds '' @
                      nat_text maxBody @ '' bytes''))
               else Inr out))"

definition reqCodecs :: "coders \<Rightarrow> reqCodec list" where
  "reqCodecs cd =
     [\<lparr>codec_name = ''zstd'', codec_decode = decodeZstd cd\<rparr>,
      \<lparr>codec_name = ''gzip'', codec_decode = decodeGzip cd\<rparr>]"

definition acceptEncoding :: "coders \<Rightarrow> string" where
  "acceptEncoding cd = join_with '', '' (map codec_name (reqCodecs cd))"

definition normalizeCoding :: "coders \<Rightarrow> string \<Rightarrow> string" where
  "normalizeCoding cd encoding =
     (let enc = to_lower (unicode_lower cd) (trim_space (hd (split_n 2 (CHR '';'') encoding)))
      in if enc = ''identity'' then '''' else enc)"

text \<open>Returns the decoded body or the error, and the coding name matched on.\<close>

definition decodeRequestBody :: "coders \<Rightarrow> bytes \<Rightarrow> string \<Rightarrow> (decode_error + bytes) \<times> string" where
  "decodeRequestBody cd body encoding =
     (let coding = normalizeCoding cd encoding in
      if coding = '''' then (Inr body, '''')
      else case find (\<lambda>c. codec_name c = coding) (reqCodecs cd) of
             Some c \<Rightarrow> (codec_decode c body, coding)
           | None \<Rightarrow> (Inl (ErrUnsupportedEncoding coding), coding))"

section \<open>Laws\<close>

lemma split_n_2_ne [simp]: "split_n 2 c s \<noteq> []"
  by (simp add: numeral_2_eq_2 split: list.split)

lemma acceptEncoding_text: "acceptEncoding cd = ''zstd, gzip''"
  by (simp add: acceptEncoding_def reqCodecs_def)

lemma decodeGzip_cases:
  assumes "decodeGzip cd body = Inr out"
  shows "gunzip cd body = Inr (out, None) \<and> length out \<le> maxBody"
proof -
  from assms obtain zr where g: "gunzip cd body = Inr zr"
    by (auto simp: decodeGzip_def split: sum.splits)
  obtain b e where zr: "zr = (b, e)" by (cases zr)
  show ?thesis
    using assms g zr
    by (auto simp: decodeGzip_def read_limited_def split: if_splits option.splits)
qed

lemma decodeGzip_ok:
  "gunzip cd body = Inr (out, None) \<Longrightarrow> length out \<le> maxBody \<Longrightarrow> decodeGzip cd body = Inr out"
  by (simp add: decodeGzip_def read_limited_def)

lemma find_reqCodecs:
  "find (\<lambda>c. codec_name c = k) (reqCodecs cd) =
     (if k = ''zstd'' then Some \<lparr>codec_name = ''zstd'', codec_decode = decodeZstd cd\<rparr>
      else if k = ''gzip'' then Some \<lparr>codec_name = ''gzip'', codec_decode = decodeGzip cd\<rparr>
      else None)"
  by (auto simp: reqCodecs_def)

lemma decodeRequestBody_coding [simp]:
  "snd (decodeRequestBody cd body enc) = normalizeCoding cd enc"
  by (simp add: decodeRequestBody_def Let_def split: option.split)

lemma decodeRequestBody_identity:
  "normalizeCoding cd enc = '''' \<Longrightarrow> decodeRequestBody cd body enc = (Inr body, '''')"
  by (simp add: decodeRequestBody_def)

lemma decodeZstd_not_unsupported: "decodeZstd cd body \<noteq> Inl (ErrUnsupportedEncoding k)"
  by (simp add: decodeZstd_def split: sum.split)

lemma decodeGzip_not_unsupported: "decodeGzip cd body \<noteq> Inl (ErrUnsupportedEncoding k)"
  by (auto simp: decodeGzip_def split: sum.split option.split prod.split)

lemma decodeRequestBody_unsupported_iff:
  "fst (decodeRequestBody cd body enc) = Inl (ErrUnsupportedEncoding k) \<longleftrightarrow>
     k = normalizeCoding cd enc \<and> k \<notin> set ['''', ''zstd'', ''gzip'']"
  by (auto simp: decodeRequestBody_def Let_def find_reqCodecs decodeZstd_not_unsupported
      decodeGzip_not_unsupported)

text \<open>
  A decoder whose output is bounded is what the handler relies on; the locale states the contract of
  one table entry and \<open>reqCodecs\<close> is shown to keep it.
\<close>

locale bounded_decoder =
  fixes dec :: "bytes \<Rightarrow> decode_error + bytes"
    and cap :: nat
  assumes dec_bound: "dec b = Inr out \<Longrightarrow> length out \<le> cap"
    and dec_supported: "dec b \<noteq> Inl (ErrUnsupportedEncoding k)"
begin

lemma dec_outcomes: "(\<exists>out. dec b = Inr out \<and> length out \<le> cap) \<or> (\<exists>e. dec b = Inl (ErrDecode e))"
proof (cases "dec b")
  case (Inl e)
  then show ?thesis using dec_supported [of b] by (cases e) auto
next
  case (Inr out)
  then show ?thesis using dec_bound by blast
qed

end

interpretation gzip_dec: bounded_decoder "decodeGzip cd" maxBody for cd
  by unfold_locales (auto dest: decodeGzip_cases simp: decodeGzip_not_unsupported)

text \<open>The contract of klauspost's \<open>WithDecoderMaxMemory(maxBody)\<close>: \<open>DecodeAll\<close> never returns more.\<close>

definition zstd_capped :: "coders \<Rightarrow> bool" where
  "zstd_capped cd \<longleftrightarrow> (\<forall>b out. zstd_decode_all cd b = Inr out \<longrightarrow> length out \<le> maxBody)"

lemma zstd_bounded: "zstd_capped cd \<Longrightarrow> bounded_decoder (decodeZstd cd) maxBody"
  by unfold_locales
    (auto simp: zstd_capped_def decodeZstd_def decodeZstd_not_unsupported split: sum.splits)

text \<open>
  What is advertised is what can be decoded: a body is refused as unsupported exactly when its
  normalized coding is neither empty nor the name of an entry of the table behind Accept-Encoding, and
  then the error carries that coding.
\<close>

theorem advertised_iff_decoded:
  "((\<exists>k. fst (decodeRequestBody cd body enc) = Inl (ErrUnsupportedEncoding k)) \<longleftrightarrow>
     normalizeCoding cd enc \<noteq> '''' \<and> normalizeCoding cd enc \<notin> set (map codec_name (reqCodecs cd))) \<and>
   acceptEncoding cd = ''zstd, gzip''"
  using decodeRequestBody_unsupported_iff [of cd body enc]
  by (auto simp: acceptEncoding_text reqCodecs_def)


definition copying_coders :: coders where
  "copying_coders =
     \<lparr>gunzip = (\<lambda>b. Inr (b, None)),
      zstd_decode_all = (\<lambda>b. if length b \<le> maxBody then Inr b else Inl ''decompressed size exceeds configured limit''),
      unicode_lower = (\<lambda>c. c)\<rparr>"


end
