(* ===== verification/Config.thy ===== *)
theory Config
  imports GoMarshal GoHttp HeadroomVersion
begin

text \<open>
  \<open>config.go\<close>: the tunable settings, their validation, the store that holds the current value behind
  an atomic pointer and persists it, and the \<open>/config\<close> handler.

  The three nullable knobs are Go pointers. Copying a \<open>CompressSettings\<close> copies the pointers, and
  \<open>json.Unmarshal\<close> into a non-nil pointer field stores through the pointer, so the copy that
  \<open>merge\<close> makes shares its cells with the current settings. The model therefore has a heap of float
  and string cells, and a settings value holds addresses; \<open>view\<close> reads the values out.
\<close>

section \<open>Settings and the heap\<close>

type_synonym addr = nat

record heap =
  float_cell :: "addr \<Rightarrow> float64"
  str_cell :: "addr \<Rightarrow> string"
  next_addr :: addr

record CompressSettings =
  CompressUserMessages :: bool
  CompressSystemMessages :: bool
  ProtectRecent :: int
  ProtectAnalysisContext :: bool
  TargetRatio :: "addr option"
  MinTokensToCompress :: int
  KompressModel :: "addr option"
  SavingsProfile :: "addr option"

text \<open>What a reader of the settings sees: the same fields with the pointers followed.\<close>

record settings_view =
  vw_user :: bool
  vw_system :: bool
  vw_recent :: int
  vw_analysis :: bool
  vw_ratio :: "float64 option"
  vw_min :: int
  vw_model :: "string option"
  vw_profile :: "string option"

definition view :: "heap \<Rightarrow> CompressSettings \<Rightarrow> settings_view" where
  "view h s =
     \<lparr>vw_user = CompressUserMessages s, vw_system = CompressSystemMessages s,
      vw_recent = ProtectRecent s, vw_analysis = ProtectAnalysisContext s,
      vw_ratio = map_option (float_cell h) (TargetRatio s),
      vw_min = MinTokensToCompress s,
      vw_model = map_option (str_cell h) (KompressModel s),
      vw_profile = map_option (str_cell h) (SavingsProfile s)\<rparr>"

definition empty_heap :: heap where
  "empty_heap = \<lparr>float_cell = (\<lambda>_. f64_zero), str_cell = (\<lambda>_. []), next_addr = 0\<rparr>"

definition savingsProfiles :: "string list" where
  "savingsProfiles = [''agent-90'', ''balanced'']"

definition defaultSettings :: CompressSettings where
  "defaultSettings =
     \<lparr>CompressUserMessages = False, CompressSystemMessages = True, ProtectRecent = 4,
      ProtectAnalysisContext = True, TargetRatio = None, MinTokensToCompress = 250,
      KompressModel = None, SavingsProfile = None\<rparr>"

text \<open>Go's zero value, the target of an \<open>Unmarshal\<close> into a fresh variable.\<close>

definition zeroSettings :: CompressSettings where
  "zeroSettings =
     \<lparr>CompressUserMessages = False, CompressSystemMessages = False, ProtectRecent = 0,
      ProtectAnalysisContext = False, TargetRatio = None, MinTokensToCompress = 0,
      KompressModel = None, SavingsProfile = None\<rparr>"

definition f64_one :: float64 where
  "f64_one = F_Fin False (2 ^ 52) (- 52)"

text \<open>\<open>validate\<close>: the error text, or \<open>None\<close>.\<close>

definition validate :: "heap \<Rightarrow> CompressSettings \<Rightarrow> string option" where
  "validate h s =
     (if ProtectRecent s < 0 then Some ''protect_recent must be >= 0''
      else if MinTokensToCompress s < 0 then Some ''min_tokens_to_compress must be >= 0''
      else if (case TargetRatio s of None \<Rightarrow> False | Some p \<Rightarrow>
                 f64_le (float_cell h p) f64_zero \<or> f64_less f64_one (float_cell h p))
      then Some ''target_ratio must be in (0, 1] or null''
      else if (case KompressModel s of None \<Rightarrow> False | Some p \<Rightarrow> str_cell h p = '''')
      then Some ''kompress_model must be a non-empty string or null''
      else if (case SavingsProfile s of None \<Rightarrow> False | Some p \<Rightarrow> str_cell h p \<notin> set savingsProfiles)
      then Some ''savings_profile must be one of agent-90, balanced, or null''
      else None)"

definition textEnabled :: "CompressSettings \<Rightarrow> bool" where
  "textEnabled s \<longleftrightarrow> CompressUserMessages s \<or> CompressSystemMessages s \<or> TargetRatio s \<noteq> None"

section \<open>JSON encoding of the settings\<close>

definition null_or :: "('a \<Rightarrow> string) \<Rightarrow> 'a option \<Rightarrow> string" where
  "null_or f x = (case x of None \<Rightarrow> ''null'' | Some a \<Rightarrow> f a)"

text \<open>The members \<open>json.Marshal\<close> writes, in field order; \<open>None\<close> when the ratio is not finite.\<close>

definition settings_members :: "settings_view \<Rightarrow> (string \<times> string) list option" where
  "settings_members v =
     (case (case vw_ratio v of None \<Rightarrow> Some ''null'' | Some f \<Rightarrow> json_float f) of
        None \<Rightarrow> None
      | Some ratio \<Rightarrow> Some
         [(''compress_user_messages'', bool_text (vw_user v)),
          (''compress_system_messages'', bool_text (vw_system v)),
          (''protect_recent'', int_text (vw_recent v)),
          (''protect_analysis_context'', bool_text (vw_analysis v)),
          (''target_ratio'', ratio),
          (''min_tokens_to_compress'', int_text (vw_min v)),
          (''kompress_model'', null_or quote (vw_model v)),
          (''savings_profile'', null_or quote (vw_profile v))])"

definition settings_text :: "settings_view \<Rightarrow> string option" where
  "settings_text v = map_option object_text (settings_members v)"

section \<open>JSON decoding onto a settings value\<close>

definition settings_fields :: "string list" where
  "settings_fields =
     [''compress_user_messages'', ''compress_system_messages'', ''protect_recent'',
      ''protect_analysis_context'', ''target_ratio'', ''min_tokens_to_compress'',
      ''kompress_model'', ''savings_profile'']"

text \<open>
  Decoding into a pointer field: null stores nil; anything else decodes into the cell the pointer
  already has, or into a fresh zero cell when it is nil.
\<close>

definition decode_float_ptr :: "heap \<Rightarrow> addr option \<Rightarrow> json \<Rightarrow> heap \<times> addr option \<times> bool" where
  "decode_float_ptr h p v =
     (if v = JNull then (h, None, False)
      else
        let (h1, a) = (case p of
               Some a \<Rightarrow> (h, a)
             | None \<Rightarrow> (h\<lparr>float_cell := (float_cell h)(next_addr h := f64_zero),
                          next_addr := next_addr h + 1\<rparr>, next_addr h));
            (x, bad) = decode_float (float_cell h1 a) v
        in (h1\<lparr>float_cell := (float_cell h1)(a := x)\<rparr>, Some a, bad))"

definition decode_string_ptr :: "heap \<Rightarrow> addr option \<Rightarrow> json \<Rightarrow> heap \<times> addr option \<times> bool" where
  "decode_string_ptr h p v =
     (if v = JNull then (h, None, False)
      else
        let (h1, a) = (case p of
               Some a \<Rightarrow> (h, a)
             | None \<Rightarrow> (h\<lparr>str_cell := (str_cell h)(next_addr h := []),
                          next_addr := next_addr h + 1\<rparr>, next_addr h));
            (x, bad) = decode_string (str_cell h1 a) v
        in (h1\<lparr>str_cell := (str_cell h1)(a := x)\<rparr>, Some a, bad))"

text \<open>Storing one member; the field name has been resolved by \<open>field_for\<close>.\<close>

definition settings_step ::
  "string \<Rightarrow> string \<Rightarrow> json \<Rightarrow> heap \<times> CompressSettings \<Rightarrow> (heap \<times> CompressSettings) \<times> bool" where
  "settings_step f raw v hs =
     (case hs of (h, s) \<Rightarrow>
       if f = ''compress_user_messages'' then
         (case decode_bool (CompressUserMessages s) v of (b, e) \<Rightarrow> ((h, s\<lparr>CompressUserMessages := b\<rparr>), e))
       else if f = ''compress_system_messages'' then
         (case decode_bool (CompressSystemMessages s) v of (b, e) \<Rightarrow> ((h, s\<lparr>CompressSystemMessages := b\<rparr>), e))
       else if f = ''protect_recent'' then
         (case decode_int (ProtectRecent s) v of (i, e) \<Rightarrow> ((h, s\<lparr>ProtectRecent := i\<rparr>), e))
       else if f = ''protect_analysis_context'' then
         (case decode_bool (ProtectAnalysisContext s) v of (b, e) \<Rightarrow> ((h, s\<lparr>ProtectAnalysisContext := b\<rparr>), e))
       else if f = ''target_ratio'' then
         (case decode_float_ptr h (TargetRatio s) v of (h', p, e) \<Rightarrow> ((h', s\<lparr>TargetRatio := p\<rparr>), e))
       else if f = ''min_tokens_to_compress'' then
         (case decode_int (MinTokensToCompress s) v of (i, e) \<Rightarrow> ((h, s\<lparr>MinTokensToCompress := i\<rparr>), e))
       else if f = ''kompress_model'' then
         (case decode_string_ptr h (KompressModel s) v of (h', p, e) \<Rightarrow> ((h', s\<lparr>KompressModel := p\<rparr>), e))
       else if f = ''savings_profile'' then
         (case decode_string_ptr h (SavingsProfile s) v of (h', p, e) \<Rightarrow> ((h', s\<lparr>SavingsProfile := p\<rparr>), e))
       else (hs, False))"

definition decode_settings :: "json \<Rightarrow> heap \<times> CompressSettings \<Rightarrow> (heap \<times> CompressSettings) \<times> bool" where
  "decode_settings v hs = decode_struct settings_fields settings_step v hs"

section \<open>The store\<close>

text \<open>
  The file behind \<open>path\<close>, and whether creating its directory or writing it fails. A write through
  \<open>atomicfile.WriteFile\<close> leaves either the old or the new contents.
\<close>

datatype disk_file = NoFile | FileWith bytes | Unreadable string

record fs =
  fs_file :: disk_file
  fs_mkdir_error :: "string option"
  fs_write_error :: "string option"

record settingsStore =
  st_path :: string
  st_cur :: CompressSettings
  st_heap :: heap
  st_fs :: fs

datatype store_error = JsonSyntax | JsonType | Invalid string | PersistConfig string

definition loadSettings :: "string \<Rightarrow> heap \<Rightarrow> fs \<Rightarrow> settingsStore" where
  "loadSettings path h d =
     (let keep = \<lparr>st_path = path, st_cur = defaultSettings, st_heap = h, st_fs = d\<rparr> in
      if path = '''' then keep
      else case fs_file d of
             NoFile \<Rightarrow> keep
           | Unreadable e \<Rightarrow> keep
           | FileWith b \<Rightarrow>
               (case json_check b of
                  None \<Rightarrow> keep
                | Some v \<Rightarrow>
                    (case decode_settings v (h, zeroSettings) of
                       ((h', loaded), bad) \<Rightarrow>
                         if bad then keep
                         else case validate h' loaded of
                                Some e \<Rightarrow> keep
                              | None \<Rightarrow> keep\<lparr>st_cur := loaded, st_heap := h'\<rparr>)))"

definition store_get :: "settingsStore \<Rightarrow> CompressSettings" where
  "store_get st = st_cur st"

definition current_view :: "settingsStore \<Rightarrow> settings_view" where
  "current_view st = view (st_heap st) (store_get st)"

definition save :: "settingsStore \<Rightarrow> CompressSettings \<Rightarrow> string option \<times> fs" where
  "save st s =
     (if st_path st = '''' then (None, st_fs st)
      else case settings_text (view (st_heap st) s) of
             None \<Rightarrow> (Some ''json: unsupported value'', st_fs st)
           | Some t \<Rightarrow>
               (case fs_mkdir_error (st_fs st) of
                  Some e \<Rightarrow> (Some e, st_fs st)
                | None \<Rightarrow>
                    (case fs_write_error (st_fs st) of
                       Some e \<Rightarrow> (Some e, st_fs st)
                     | None \<Rightarrow> (None, (st_fs st)\<lparr>fs_file := FileWith (json_indent t @ [CHR 0x0A])\<rparr>))))"

definition applyLocked :: "settingsStore \<Rightarrow> CompressSettings \<Rightarrow> settingsStore \<times> store_error option" where
  "applyLocked st s =
     (case validate (st_heap st) s of
        Some e \<Rightarrow> (st, Some (Invalid e))
      | None \<Rightarrow>
          (case save st s of
             (Some e, d) \<Rightarrow> (st\<lparr>st_fs := d\<rparr>, Some (PersistConfig (''persist config: '' @ e)))
           | (None, d) \<Rightarrow> (st\<lparr>st_fs := d, st_cur := s\<rparr>, None)))"

definition store_set :: "settingsStore \<Rightarrow> CompressSettings \<Rightarrow> settingsStore \<times> store_error option" where
  "store_set st s = applyLocked st s"

definition store_merge :: "settingsStore \<Rightarrow> bytes \<Rightarrow> settingsStore \<times> (store_error + CompressSettings)" where
  "store_merge st body =
     (case json_check body of
        None \<Rightarrow> (st, Inl JsonSyntax)
      | Some v \<Rightarrow>
          (case decode_settings v (st_heap st, st_cur st) of
             ((h, merged), bad) \<Rightarrow>
               let st1 = st\<lparr>st_heap := h\<rparr> in
               if bad then (st1, Inl JsonType)
               else case applyLocked st1 merged of
                      (st2, Some e) \<Rightarrow> (st2, Inl e)
                    | (st2, None) \<Rightarrow> (st2, Inr merged)))"

section \<open>The \<open>/config\<close> handler\<close>

text \<open>
  \<open>ch_headroomVersion\<close> is the accessor: \<open>None\<close> when it is nil, \<open>Some None\<close> when no worker has
  reported a version yet. \<open>ch_json_error\<close> is \<open>encoding/json\<close>'s message for a rejected body.
\<close>

record configHandler =
  ch_headroomVersion :: "string option option"
  ch_json_error :: "bytes \<Rightarrow> string"

definition maxConfigBody :: nat where
  "maxConfigBody = 64 * 2 ^ 10"

definition writeJSON :: "nat \<Rightarrow> string option \<Rightarrow> http_response" where
  "writeJSON status text =
     \<lparr>rs_status = status, rs_header = header_set ''Content-Type'' ''application/json'' [],
      rs_body = (case text of None \<Rightarrow> [] | Some t \<Rightarrow> t @ [CHR 0x0A])\<rparr>"

definition configView_text :: "settings_view \<Rightarrow> string \<Rightarrow> string option" where
  "configView_text v ver =
     map_option (\<lambda>ms. object_text (ms @ (if ver = '''' then [] else [(''headroom_version'', quote ver)])))
       (settings_members v)"

definition settingNonNullSavingsProfile :: "bytes \<Rightarrow> bool" where
  "settingNonNullSavingsProfile body =
     (case json_check body of
        None \<Rightarrow> False
      | Some v \<Rightarrow>
          (case decode_raw_map v of
             None \<Rightarrow> False
           | Some probe \<Rightarrow>
               (case map_of probe ''savings_profile'' of
                  None \<Rightarrow> False
                | Some raw \<Rightarrow> trim_space raw \<noteq> ''null'')))"

definition detectedVersion :: "configHandler \<Rightarrow> string option" where
  "detectedVersion ch = (case ch_headroomVersion ch of None \<Rightarrow> None | Some v \<Rightarrow> v)"

definition store_error_text :: "configHandler \<Rightarrow> bytes \<Rightarrow> store_error \<Rightarrow> string" where
  "store_error_text ch body e =
     (case e of
        JsonSyntax \<Rightarrow> ch_json_error ch body
      | JsonType \<Rightarrow> ch_json_error ch body
      | Invalid m \<Rightarrow> m
      | PersistConfig m \<Rightarrow> m)"

definition serve_config :: "configHandler \<Rightarrow> settingsStore \<Rightarrow> http_request \<Rightarrow> settingsStore \<times> http_response" where
  "serve_config ch st r =
     (if rq_method r = ''GET'' then
        (st, writeJSON http_ok (configView_text (current_view st)
               (case detectedVersion ch of None \<Rightarrow> '''' | Some ver \<Rightarrow> ver)))
      else if rq_method r = ''PUT'' \<or> rq_method r = ''POST'' then
        (case read_limited maxConfigBody (rq_body r) of
           (_, Some _) \<Rightarrow> (st, http_error [] ''read body failed'' http_bad_request)
         | (body, None) \<Rightarrow>
             (case (if settingNonNullSavingsProfile body then detectedVersion ch else None) of
                Some ver \<Rightarrow>
                  if supportsSavingsProfile ver
                  then (case store_merge st body of
                          (st', Inl e) \<Rightarrow> (st', http_error [] (store_error_text ch body e) http_bad_request)
                        | (st', Inr updated) \<Rightarrow>
                            (st', writeJSON http_ok (settings_text (view (st_heap st') updated))))
                  else (st, http_error []
                          (''savings_profile requires headroom-ai >= 0.26.0 (detected '' @ ver @ '')'')
                          http_bad_request)
              | None \<Rightarrow>
                  (case store_merge st body of
                     (st', Inl e) \<Rightarrow> (st', http_error [] (store_error_text ch body e) http_bad_request)
                   | (st', Inr updated) \<Rightarrow>
                       (st', writeJSON http_ok (settings_text (view (st_heap st') updated))))))
      else (st, http_error [] ''method not allowed'' http_method_not_allowed))"

section \<open>The settings as values\<close>

text \<open>
  The abstract contract: \<open>validate\<close> and the partial update on \<open>settings_view\<close>, where nothing is
  shared. \<open>wf_settings\<close> says that the pointers are allocated and that the two string pointers differ.
\<close>

definition valid_view :: "settings_view \<Rightarrow> bool" where
  "valid_view v \<longleftrightarrow>
     0 \<le> vw_recent v \<and> 0 \<le> vw_min v \<and>
     (\<forall>f. vw_ratio v = Some f \<longrightarrow> \<not> f64_le f f64_zero \<and> \<not> f64_less f64_one f) \<and>
     vw_model v \<noteq> Some '''' \<and>
     (\<forall>p. vw_profile v = Some p \<longrightarrow> p \<in> set savingsProfiles)"

lemma validate_iff: "validate h s = None \<longleftrightarrow> valid_view (view h s)"
  by (auto simp: validate_def valid_view_def view_def split: option.splits)

definition or_null :: "('a \<Rightarrow> json \<Rightarrow> 'a \<times> bool) \<Rightarrow> 'a \<Rightarrow> 'a option \<Rightarrow> json \<Rightarrow> 'a option \<times> bool" where
  "or_null dec z cur v =
     (if v = JNull then (None, False)
      else case dec (case cur of None \<Rightarrow> z | Some x \<Rightarrow> x) v of (x, bad) \<Rightarrow> (Some x, bad))"

definition view_step :: "string \<Rightarrow> string \<Rightarrow> json \<Rightarrow> settings_view \<Rightarrow> settings_view \<times> bool" where
  "view_step f raw v s =
     (if f = ''compress_user_messages'' then
        (case decode_bool (vw_user s) v of (b, e) \<Rightarrow> (s\<lparr>vw_user := b\<rparr>, e))
      else if f = ''compress_system_messages'' then
        (case decode_bool (vw_system s) v of (b, e) \<Rightarrow> (s\<lparr>vw_system := b\<rparr>, e))
      else if f = ''protect_recent'' then
        (case decode_int (vw_recent s) v of (i, e) \<Rightarrow> (s\<lparr>vw_recent := i\<rparr>, e))
      else if f = ''protect_analysis_context'' then
        (case decode_bool (vw_analysis s) v of (b, e) \<Rightarrow> (s\<lparr>vw_analysis := b\<rparr>, e))
      else if f = ''target_ratio'' then
        (case or_null decode_float f64_zero (vw_ratio s) v of (x, e) \<Rightarrow> (s\<lparr>vw_ratio := x\<rparr>, e))
      else if f = ''min_tokens_to_compress'' then
        (case decode_int (vw_min s) v of (i, e) \<Rightarrow> (s\<lparr>vw_min := i\<rparr>, e))
      else if f = ''kompress_model'' then
        (case or_null decode_string [] (vw_model s) v of (x, e) \<Rightarrow> (s\<lparr>vw_model := x\<rparr>, e))
      else if f = ''savings_profile'' then
        (case or_null decode_string [] (vw_profile s) v of (x, e) \<Rightarrow> (s\<lparr>vw_profile := x\<rparr>, e))
      else (s, False))"

definition merge_view :: "json \<Rightarrow> settings_view \<Rightarrow> settings_view \<times> bool" where
  "merge_view j v = decode_struct settings_fields view_step j v"

definition wf_settings :: "heap \<Rightarrow> CompressSettings \<Rightarrow> bool" where
  "wf_settings h s \<longleftrightarrow>
     (\<forall>p. TargetRatio s = Some p \<longrightarrow> p < next_addr h) \<and>
     (\<forall>p. KompressModel s = Some p \<longrightarrow> p < next_addr h \<and> SavingsProfile s \<noteq> Some p) \<and>
     (\<forall>p. SavingsProfile s = Some p \<longrightarrow> p < next_addr h)"

lemmas settings_step_defs = settings_step_def view_step_def view_def wf_settings_def
  decode_float_ptr_def decode_string_ptr_def or_null_def Let_def

lemma settings_step_view:
  assumes "wf_settings h s"
  shows "wf_settings (fst (fst (settings_step f raw v (h, s)))) (snd (fst (settings_step f raw v (h, s)))) \<and>
    view_step f raw v (view h s) =
      (view (fst (fst (settings_step f raw v (h, s)))) (snd (fst (settings_step f raw v (h, s)))),
       snd (settings_step f raw v (h, s)))"
proof (cases "f \<in> set settings_fields")
  case False
  then show ?thesis using assms
    by (simp add: settings_fields_def settings_step_def view_step_def)
next
  case True
  then consider "f = ''compress_user_messages''" | "f = ''compress_system_messages''"
    | "f = ''protect_recent''" | "f = ''protect_analysis_context''" | "f = ''target_ratio''"
    | "f = ''min_tokens_to_compress''" | "f = ''kompress_model''" | "f = ''savings_profile''"
    unfolding settings_fields_def by (rule mem8_cases)
  then show ?thesis
  proof cases
    case 5
    then show ?thesis using assms
      by (cases "TargetRatio s") (auto simp: settings_step_defs split: prod.splits)
  next
    case 7
    then show ?thesis using assms
      by (cases "KompressModel s"; cases "SavingsProfile s") (auto simp: settings_step_defs split: prod.splits)
  next
    case 8
    then show ?thesis using assms
      by (cases "SavingsProfile s"; cases "KompressModel s") (auto simp: settings_step_defs split: prod.splits)
  qed (use assms in \<open>simp_all add: settings_step_def view_step_def view_def wf_settings_def split_beta\<close>)
qed

lemma decode_settings_view:
  assumes "wf_settings h s" and "decode_settings v (h, s) = ((h', s'), bad)"
  shows "wf_settings h' s' \<and> merge_view v (view h s) = (view h' s', bad)"
proof -
  let ?R = "\<lambda>(hs :: heap \<times> CompressSettings) w. wf_settings (fst hs) (snd hs) \<and> w = view (fst hs) (snd hs)"
  have "?R (fst (decode_struct settings_fields settings_step v (h, s)))
           (fst (decode_struct settings_fields view_step v (view h s))) \<and>
        snd (decode_struct settings_fields settings_step v (h, s)) =
        snd (decode_struct settings_fields view_step v (view h s))"
    by (rule decode_struct_rel) (use assms(1) settings_step_view in auto)
  with assms(2) show ?thesis
    by (auto simp: decode_settings_def merge_view_def intro: prod_eqI)
qed


section \<open>Frames: what decoding leaves alone\<close>

lemma settings_step_plain:
  assumes "f \<notin> {''target_ratio'', ''kompress_model'', ''savings_profile''}"
  shows "fst (fst (settings_step f raw v (h, s))) = h"
  using assms by (simp add: settings_step_def split_beta)

lemma decode_float_ptr_frame:
  "str_cell (fst (decode_float_ptr h p v)) = str_cell h"
  "next_addr h \<le> next_addr (fst (decode_float_ptr h p v))"
  by (cases p; simp add: decode_float_ptr_def Let_def split_beta)+

lemma decode_string_ptr_frame:
  "float_cell (fst (decode_string_ptr h p v)) = float_cell h"
  "next_addr h \<le> next_addr (fst (decode_string_ptr h p v))"
  "p \<noteq> Some a \<Longrightarrow> a < next_addr h \<Longrightarrow> str_cell (fst (decode_string_ptr h p v)) a = str_cell h a"
  "p \<noteq> Some a \<Longrightarrow> a < next_addr h \<Longrightarrow> fst (snd (decode_string_ptr h p v)) \<noteq> Some a"
  by (cases p; simp add: decode_string_ptr_def Let_def split_beta)+

lemma settings_step_float_cell:
  "f \<noteq> ''target_ratio'' \<Longrightarrow>
   float_cell (fst (fst (settings_step f raw v hs))) = float_cell (fst hs)"
  by (cases hs) (simp add: settings_step_def split_beta decode_string_ptr_frame)

lemma decode_settings_float_cell:
  assumes "\<not> selects settings_fields j ''target_ratio''"
  shows "float_cell (fst (fst (decode_settings j (h, s)))) = float_cell h"
proof -
  have "(\<lambda>hs. float_cell (fst hs) = float_cell h) (fst (decode_struct settings_fields settings_step j (h, s)))"
    by (rule decode_struct_inv) (use assms in \<open>simp, metis settings_step_float_cell\<close>)
  then show ?thesis by (simp add: decode_settings_def)
qed

text \<open>A string cell the other string pointer does not reach, and which the body does not name, is kept.\<close>

lemma settings_step_model_cell:
  assumes "f \<noteq> ''kompress_model''" and "a < next_addr (fst hs)" and "SavingsProfile (snd hs) \<noteq> Some a"
  shows "str_cell (fst (fst (settings_step f raw v hs))) a = str_cell (fst hs) a \<and>
    a < next_addr (fst (fst (settings_step f raw v hs))) \<and>
    SavingsProfile (snd (fst (settings_step f raw v hs))) \<noteq> Some a"
  using assms decode_float_ptr_frame decode_string_ptr_frame
  by (cases hs) (simp add: settings_step_def split_beta less_le_trans)

lemma settings_step_profile_cell:
  assumes "f \<noteq> ''savings_profile''" and "a < next_addr (fst hs)" and "KompressModel (snd hs) \<noteq> Some a"
  shows "str_cell (fst (fst (settings_step f raw v hs))) a = str_cell (fst hs) a \<and>
    a < next_addr (fst (fst (settings_step f raw v hs))) \<and>
    KompressModel (snd (fst (settings_step f raw v hs))) \<noteq> Some a"
  using assms decode_float_ptr_frame decode_string_ptr_frame
  by (cases hs) (simp add: settings_step_def split_beta less_le_trans)

lemma decode_settings_model_cell:
  assumes "wf_settings h s" and "KompressModel s = Some a"
    and "\<not> selects settings_fields j ''kompress_model''"
  shows "str_cell (fst (fst (decode_settings j (h, s)))) a = str_cell h a"
proof -
  let ?P = "\<lambda>hs. str_cell (fst hs) a = str_cell h a \<and> a < next_addr (fst hs) \<and> SavingsProfile (snd hs) \<noteq> Some a"
  have "?P (fst (settings_step f raw v hs))" if "selects settings_fields j f" "?P hs" for f raw v hs
  proof -
    have "f \<noteq> ''kompress_model''" using that(1) assms(3) by auto
    from settings_step_model_cell [OF this] that(2) show ?thesis by metis
  qed
  moreover have "?P (h, s)" using assms by (auto simp: wf_settings_def)
  ultimately have "?P (fst (decode_struct settings_fields settings_step j (h, s)))"
    using decode_struct_inv [where P = ?P and step = settings_step and names = settings_fields and j = j] by blast
  then show ?thesis by (simp add: decode_settings_def)
qed

lemma decode_settings_profile_cell:
  assumes "wf_settings h s" and "SavingsProfile s = Some a"
    and "\<not> selects settings_fields j ''savings_profile''"
  shows "str_cell (fst (fst (decode_settings j (h, s)))) a = str_cell h a"
proof -
  let ?P = "\<lambda>hs. str_cell (fst hs) a = str_cell h a \<and> a < next_addr (fst hs) \<and> KompressModel (snd hs) \<noteq> Some a"
  have "?P (fst (settings_step f raw v hs))" if "selects settings_fields j f" "?P hs" for f raw v hs
  proof -
    have "f \<noteq> ''savings_profile''" using that(1) assms(3) by auto
    from settings_step_profile_cell [OF this] that(2) show ?thesis by metis
  qed
  moreover have "?P (h, s)" using assms by (auto simp: wf_settings_def)
  ultimately have "?P (fst (decode_struct settings_fields settings_step j (h, s)))"
    using decode_struct_inv [where P = ?P and step = settings_step and names = settings_fields and j = j] by blast
  then show ?thesis by (simp add: decode_settings_def)
qed

end
