(* ===== verification/ConfigStore.thy ===== *)
theory ConfigStore
  imports Config
begin

text \<open>
  Correctness of the settings store and of the \<open>/config\<close> handler: an accepted update refines the
  partial update on values, a rejected one keeps the pointers and the disk, the file on disk is the
  original or a valid settings text along every run, and where the code falls short of its own
  documentation (a rejected update stores through the shared pointers; the version gate looks for
  the exact member name while the decoder folds case).
\<close>

section \<open>The store\<close>

definition wf_store :: "settingsStore \<Rightarrow> bool" where
  "wf_store st \<longleftrightarrow> wf_settings (st_heap st) (st_cur st)"

lemma wf_settings_nil:
  "TargetRatio s = None \<Longrightarrow> KompressModel s = None \<Longrightarrow> SavingsProfile s = None \<Longrightarrow> wf_settings h s"
  by (simp add: wf_settings_def)

lemma save_cases:
  obtains (kept) e where "save st s = (Some e, st_fs st)"
  | (off) "st_path st = ''''" "save st s = (None, st_fs st)"
  | (stored) t where "st_path st \<noteq> ''''" "settings_text (view (st_heap st) s) = Some t"
      "save st s = (None, (st_fs st)\<lparr>fs_file := FileWith (json_indent t @ [CHR 0x0A])\<rparr>)"
proof (cases "st_path st = ''''")
  case True
  with off show ?thesis by (simp add: save_def)
next
  case False
  show ?thesis
  proof (cases "settings_text (view (st_heap st) s)")
    case None
    with False kept show ?thesis by (simp add: save_def)
  next
    case (Some t)
    with False kept stored show ?thesis
      by (cases "fs_mkdir_error (st_fs st)"; cases "fs_write_error (st_fs st)") (simp_all add: save_def)
  qed
qed

lemma applyLocked_heap [simp]: "st_heap (fst (applyLocked st s)) = st_heap st"
  by (simp add: applyLocked_def split_beta split: option.split)

lemma applyLocked_error:
  "snd (applyLocked st s) = Some e \<Longrightarrow>
   st_cur (fst (applyLocked st s)) = st_cur st \<and> st_fs (fst (applyLocked st s)) = st_fs st"
  by (rule save_cases [of st s]) (auto simp: applyLocked_def split: option.splits)

lemma applyLocked_ok:
  assumes "snd (applyLocked st s) = None"
  shows "valid_view (view (st_heap st) s) \<and> st_cur (fst (applyLocked st s)) = s \<and>
    (if st_path st = '''' then st_fs (fst (applyLocked st s)) = st_fs st
     else \<exists>t. settings_text (view (st_heap st) s) = Some t \<and>
       fs_file (st_fs (fst (applyLocked st s))) = FileWith (json_indent t @ [CHR 0x0A]))"
proof -
  have v: "validate (st_heap st) s = None"
    using assms by (auto simp: applyLocked_def split: option.splits)
  show ?thesis
  proof (cases rule: save_cases [of st s])
    case (kept e)
    with assms v show ?thesis by (simp add: applyLocked_def)
  next
    case off
    then have "applyLocked st s = (st\<lparr>st_fs := st_fs st, st_cur := s\<rparr>, None)"
      by (simp add: applyLocked_def v)
    with off(1) v show ?thesis by (simp add: validate_iff)
  next
    case (stored t)
    from stored(3) have "applyLocked st s =
        (st\<lparr>st_fs := (st_fs st)\<lparr>fs_file := FileWith (json_indent t @ [CHR 0x0A])\<rparr>, st_cur := s\<rparr>, None)"
      by (simp add: applyLocked_def v)
    with stored(1,2) v show ?thesis by (simp add: validate_iff)
  qed
qed

lemma store_merge_ok:
  assumes "snd (store_merge st body) = Inr s"
  obtains j h where "json_check body = Some j"
    and "decode_settings j (st_heap st, st_cur st) = ((h, s), False)"
    and "snd (applyLocked (st\<lparr>st_heap := h\<rparr>) s) = None"
    and "fst (store_merge st body) = fst (applyLocked (st\<lparr>st_heap := h\<rparr>) s)"
  using assms
  by (auto simp: store_merge_def Let_def split: option.splits prod.splits if_splits)

lemma store_merge_error:
  assumes "snd (store_merge st body) = Inl e"
  shows "st_cur (fst (store_merge st body)) = st_cur st \<and>
    st_fs (fst (store_merge st body)) = st_fs st \<and>
    (st_heap (fst (store_merge st body)) = st_heap st \<or>
     (\<exists>j. json_check body = Some j \<and>
        st_heap (fst (store_merge st body)) = fst (fst (decode_settings j (st_heap st, st_cur st)))))"
proof (cases "json_check body")
  case None
  then show ?thesis by (simp add: store_merge_def)
next
  case (Some j)
  obtain h m bad where d: "decode_settings j (st_heap st, st_cur st) = ((h, m), bad)"
    by (metis prod.collapse)
  show ?thesis
  proof (cases bad)
    case True
    with Some d show ?thesis by (simp add: store_merge_def Let_def)
  next
    case False
    let ?st1 = "st\<lparr>st_heap := h\<rparr>"
    obtain st2 x where a: "applyLocked ?st1 m = (st2, x)" by fastforce
    with Some d False assms obtain e' where "x = Some e'"
      by (cases x) (auto simp: store_merge_def Let_def)
    with a applyLocked_error [of ?st1 m e'] applyLocked_heap [of ?st1 m] Some d False show ?thesis
      by (auto simp: store_merge_def Let_def)
  qed
qed

definition fresh_store :: "string \<Rightarrow> settingsStore" where
  "fresh_store path =
     loadSettings path empty_heap \<lparr>fs_file = NoFile, fs_mkdir_error = None, fs_write_error = None\<rparr>"

definition json_obj :: "(string \<times> string) list \<Rightarrow> bytes" where
  "json_obj kvs = object_text (map (\<lambda>(k, v). (k, quote v)) kvs)"

text \<open>
  C9. An accepted update is the partial update of the values: the new settings are the old ones with
  the members of the body applied, they are valid, they are what readers get, and when there is a path
  the file holds exactly their text.
\<close>

theorem merge_accepted:
  assumes "wf_store st" and "snd (store_merge st body) = Inr s"
  shows "(\<exists>j. json_check body = Some j \<and> merge_view j (current_view st) = (current_view (fst (store_merge st body)), False)) \<and>
    valid_view (current_view (fst (store_merge st body))) \<and>
    store_get (fst (store_merge st body)) = s \<and>
    wf_store (fst (store_merge st body)) \<and>
    (st_path st \<noteq> '''' \<longrightarrow>
       (\<exists>t. settings_text (current_view (fst (store_merge st body))) = Some t \<and>
          fs_file (st_fs (fst (store_merge st body))) = FileWith (json_indent t @ [CHR 0x0A])))"
proof -
  obtain j h where j: "json_check body = Some j"
    and d: "decode_settings j (st_heap st, st_cur st) = ((h, s), False)"
    and n: "snd (applyLocked (st\<lparr>st_heap := h\<rparr>) s) = None"
    and f: "fst (store_merge st body) = fst (applyLocked (st\<lparr>st_heap := h\<rparr>) s)"
    by (rule store_merge_ok [OF assms(2)])
  from decode_settings_view [OF assms(1) [unfolded wf_store_def] d] applyLocked_ok [OF n] j
  show ?thesis
    by (auto simp: f wf_store_def current_view_def store_get_def split: if_splits)
qed

theorem merge_accepted_witness:
  "valid_view (current_view (fst (store_merge (fresh_store ''/c'') (json_obj [(''savings_profile'', ''balanced'')]))))"
proof -
  have wf: "wf_store (fresh_store ''/c'')"
    by (simp add: wf_store_def wf_settings_def fresh_store_def loadSettings_def defaultSettings_def)
  have "is_ok (snd (store_merge (fresh_store ''/c'') (json_obj [(''savings_profile'', ''balanced'')])))"
    by code_simp
  then obtain s where "snd (store_merge (fresh_store ''/c'') (json_obj [(''savings_profile'', ''balanced'')])) = Inr s"
    by (cases "snd (store_merge (fresh_store ''/c'') (json_obj [(''savings_profile'', ''balanced'')]))") simp_all
  from merge_accepted [OF wf this] show ?thesis by blast
qed




text \<open>
  C34. The merged copy shares the pointers of the current settings, so a rejected update can change them:
  with the balanced profile in force, a body naming an unknown profile is refused by validation, and
  afterwards the current settings hold that unknown profile.
\<close>

theorem rejected_merge_changes_current:
  "let balanced = json_obj [(''savings_profile'', ''balanced'')];
       fast = json_obj [(''savings_profile'', ''fast'')];
       st1 = fst (store_merge (fresh_store ''/c'') balanced);
       st2 = fst (store_merge st1 fast)
   in snd (store_merge st1 fast) = Inl (Invalid ''savings_profile must be one of agent-90, balanced, or null'') \<and>
      vw_profile (current_view st1) = Some ''balanced'' \<and>
      vw_profile (current_view st2) = Some ''fast'' \<and>
      \<not> valid_view (current_view st2)"
proof -
  have "\<And>v. valid_view v \<Longrightarrow> vw_profile v \<noteq> Some ''fast''" by (auto simp: valid_view_def savingsProfiles_def)
  moreover have "let balanced = json_obj [(''savings_profile'', ''balanced'')];
       fast = json_obj [(''savings_profile'', ''fast'')];
       st1 = fst (store_merge (fresh_store ''/c'') balanced);
       st2 = fst (store_merge st1 fast)
   in snd (store_merge st1 fast) = Inl (Invalid ''savings_profile must be one of agent-90, balanced, or null'') \<and>
      vw_profile (current_view st1) = Some ''balanced'' \<and>
      vw_profile (current_view st2) = Some ''fast''" by code_simp
  ultimately show ?thesis unfolding Let_def by blast
qed


section \<open>Loading, and runs of updates\<close>

lemma wf_store_load: "wf_store (loadSettings path h d)"
proof -
  have def: "wf_settings h defaultSettings" "wf_settings h zeroSettings"
    by (simp_all add: wf_settings_def defaultSettings_def zeroSettings_def)
  have "wf_settings h' s" if "decode_settings v (h, zeroSettings) = ((h', s), bad)" for v h' s bad
    using decode_settings_view [OF def(2) that] by simp
  with def(1) show ?thesis
    by (auto simp: loadSettings_def wf_store_def Let_def split: disk_file.split option.split prod.split)
qed

lemma load_valid: "valid_view (current_view (loadSettings path h d))"
proof -
  have "valid_view (view h defaultSettings)"
    by (simp add: valid_view_def view_def defaultSettings_def)
  then show ?thesis
    by (auto simp: loadSettings_def current_view_def store_get_def Let_def validate_iff [symmetric]
        split: disk_file.split option.split prod.split)
qed

lemma load_fs: "st_fs (loadSettings path h d) = d"
  by (auto simp: loadSettings_def Let_def split: disk_file.split option.split prod.split)

datatype config_action = PutBody bytes | DiskErrors "string option" "string option"

fun config_act :: "config_action \<Rightarrow> settingsStore \<Rightarrow> settingsStore option" where
  "config_act (PutBody b) st = Some (fst (store_merge st b))"
| "config_act (DiskErrors m w) st =
     Some (st\<lparr>st_fs := (st_fs st)\<lparr>fs_mkdir_error := m, fs_write_error := w\<rparr>\<rparr>)"

definition saved_file :: "settings_view \<Rightarrow> disk_file option" where
  "saved_file v = map_option (\<lambda>t. FileWith (json_indent t @ [CHR 0x0A])) (settings_text v)"

definition disk_ok :: "disk_file \<Rightarrow> settingsStore \<Rightarrow> bool" where
  "disk_ok f st \<longleftrightarrow>
     fs_file (st_fs st) = f \<or> (\<exists>v. valid_view v \<and> saved_file v = Some (fs_file (st_fs st)))"

definition config_inv :: "disk_file \<Rightarrow> settingsStore \<Rightarrow> bool" where
  "config_inv f st \<longleftrightarrow> wf_store st \<and> disk_ok f st"

definition config_init :: "disk_file \<Rightarrow> settingsStore \<Rightarrow> bool" where
  "config_init f st \<longleftrightarrow> (\<exists>path h d. st = loadSettings path h d \<and> fs_file d = f)"

lemma settings_step_next:
  "next_addr (fst hs) \<le> next_addr (fst (fst (settings_step f raw v hs)))"
  using decode_float_ptr_frame decode_string_ptr_frame
  by (cases hs) (simp add: settings_step_def split_beta)

lemma decode_settings_next: "next_addr h \<le> next_addr (fst (fst (decode_settings j (h, s))))"
proof -
  have "(\<lambda>hs. next_addr h \<le> next_addr (fst hs)) (fst (decode_struct settings_fields settings_step j (h, s)))"
    by (rule decode_struct_inv) (simp, metis settings_step_next order_trans)
  then show ?thesis by (simp add: decode_settings_def)
qed

lemma wf_settings_mono: "wf_settings h s \<Longrightarrow> next_addr h \<le> next_addr h' \<Longrightarrow> wf_settings h' s"
  by (auto simp: wf_settings_def)

lemma wf_store_merge:
  assumes "wf_store st"
  shows "wf_store (fst (store_merge st body))"
proof (cases "snd (store_merge st body)")
  case (Inl e)
  note err = store_merge_error [OF Inl]
  have "next_addr (st_heap st) \<le> next_addr (st_heap (fst (store_merge st body)))"
    using err decode_settings_next by (elim conjE disjE exE) simp_all
  with err assms show ?thesis by (simp add: wf_store_def wf_settings_mono)
next
  case (Inr s)
  obtain j h where d: "decode_settings j (st_heap st, st_cur st) = ((h, s), False)"
    and n: "snd (applyLocked (st\<lparr>st_heap := h\<rparr>) s) = None"
    and f: "fst (store_merge st body) = fst (applyLocked (st\<lparr>st_heap := h\<rparr>) s)"
    by (rule store_merge_ok [OF Inr])
  from decode_settings_view [OF assms [unfolded wf_store_def] d] applyLocked_ok [OF n] show ?thesis
    by (simp add: wf_store_def f)
qed

lemma disk_ok_merge:
  assumes "wf_store st" and "disk_ok f st"
  shows "disk_ok f (fst (store_merge st body))"
proof (cases "snd (store_merge st body)")
  case (Inl e)
  from store_merge_error [OF Inl] assms(2) show ?thesis by (simp add: disk_ok_def)
next
  case (Inr s)
  obtain j h where n: "snd (applyLocked (st\<lparr>st_heap := h\<rparr>) s) = None"
    and f: "fst (store_merge st body) = fst (applyLocked (st\<lparr>st_heap := h\<rparr>) s)"
    by (rule store_merge_ok [OF Inr])
  from applyLocked_ok [OF n] assms(2) show ?thesis
    by (auto simp: disk_ok_def f saved_file_def split: if_splits)
qed

interpretation cfg: step_system config_act "config_init f" "config_inv f" for f
proof unfold_locales
  show "config_init f st \<Longrightarrow> config_inv f st" for st
    using load_fs wf_store_load by (auto simp: config_init_def config_inv_def disk_ok_def)
  show "config_inv f st \<Longrightarrow> config_act a st = Some st' \<Longrightarrow> config_inv f st'" for st a st'
    using wf_store_merge disk_ok_merge
    by (cases a) (auto simp: config_inv_def, auto simp: wf_store_def disk_ok_def)
qed

text \<open>
  C12. Along every run of updates and disk errors after a start, the file is the one the start found, or
  the text of valid settings: a failed or refused update never leaves a broken or partial file.
\<close>

theorem config_file_stays_valid:
  assumes "run_actions config_act as (loadSettings path h d) = Some st"
  shows "fs_file (st_fs st) = fs_file d \<or>
    (\<exists>v. valid_view v \<and> saved_file v = Some (fs_file (st_fs st)))"
proof -
  have "config_init (fs_file d) (loadSettings path h d)" by (auto simp: config_init_def)
  from cfg.inv_reachable [OF this assms] show ?thesis by (simp add: config_inv_def disk_ok_def)
qed

theorem config_file_stays_valid_witness:
  "\<exists>st v. run_actions config_act [PutBody (json_obj [(''savings_profile'', ''balanced'')])] (fresh_store ''/c'') = Some st \<and>
     valid_view v \<and> saved_file v = Some (fs_file (st_fs st))"
proof -
  let ?d = "\<lparr>fs_file = NoFile, fs_mkdir_error = None, fs_write_error = None\<rparr>"
  let ?st = "fst (store_merge (fresh_store ''/c'') (json_obj [(''savings_profile'', ''balanced'')]))"
  have run: "run_actions config_act [PutBody (json_obj [(''savings_profile'', ''balanced'')])]
      (loadSettings ''/c'' empty_heap ?d) = Some ?st" by (simp add: fresh_store_def)
  have "case fs_file (st_fs ?st) of NoFile \<Rightarrow> False | _ \<Rightarrow> True" by code_simp
  then have "fs_file (st_fs ?st) \<noteq> fs_file ?d" by auto
  with config_file_stays_valid [OF run] run show ?thesis by (auto simp: fresh_store_def)
qed

section \<open>The handler\<close>

text \<open>
  A PUT or POST that the version gate lets through is exactly the store's merge, and the status is 200
  if and only if the merge was accepted.
\<close>

theorem serve_config_put:
  assumes "rq_method r = ''PUT'' \<or> rq_method r = ''POST''"
    and "read_limited maxConfigBody (rq_body r) = (body, None)"
    and "\<not> (settingNonNullSavingsProfile body \<and>
            (\<exists>ver. detectedVersion ch = Some ver \<and> \<not> supportsSavingsProfile ver))"
  shows "fst (serve_config ch st r) = fst (store_merge st body) \<and>
    (rs_status (snd (serve_config ch st r)) = http_ok \<longleftrightarrow> is_ok (snd (store_merge st body)))"
proof -
  obtain st' x where m: "store_merge st body = (st', x)" by fastforce
  have get: "rq_method r \<noteq> ''GET''" using assms(1) by auto
  show ?thesis
    using assms m get
    by (cases x; cases "detectedVersion ch")
       (auto simp: serve_config_def writeJSON_def http_error_def http_codes)
qed

theorem serve_config_put_witness:
  "rs_status (snd (serve_config \<lparr>ch_headroomVersion = None, ch_json_error = (\<lambda>_. '''')\<rparr> (fresh_store ''/c'')
     \<lparr>rq_method = ''PUT'', rq_path = ''/config'', rq_header = [], rq_body = (json_obj [(''savings_profile'', ''balanced'')], None)\<rparr>)) = http_ok"
proof -
  let ?r = "\<lparr>rq_method = ''PUT'', rq_path = ''/config'', rq_header = [],
    rq_body = (json_obj [(''savings_profile'', ''balanced'')], None)\<rparr>"
  let ?ch = "\<lparr>ch_headroomVersion = None, ch_json_error = (\<lambda>_. '''')\<rparr>"
  have a: "rq_method ?r = ''PUT'' \<or> rq_method ?r = ''POST''" by simp
  have b: "read_limited maxConfigBody (rq_body ?r) = (json_obj [(''savings_profile'', ''balanced'')], None)"
    by code_simp
  have c: "\<not> (settingNonNullSavingsProfile (json_obj [(''savings_profile'', ''balanced'')]) \<and>
      (\<exists>ver. detectedVersion ?ch = Some ver \<and> \<not> supportsSavingsProfile ver))"
    by (simp add: detectedVersion_def)
  have "is_ok (snd (store_merge (fresh_store ''/c'') (json_obj [(''savings_profile'', ''balanced'')])))"
    by code_simp
  with serve_config_put [OF a b c] show ?thesis by simp
qed


definition put_request :: "bytes \<Rightarrow> http_request" where
  "put_request body = \<lparr>rq_method = ''PUT'', rq_path = ''/config'', rq_header = [], rq_body = (body, None)\<rparr>"

definition at_version :: "string \<Rightarrow> configHandler" where
  "at_version ver = \<lparr>ch_headroomVersion = Some (Some ver), ch_json_error = (\<lambda>_. ''json error'')\<rparr>"

text \<open>
  The version gate: a PUT that assigns the savings profile while the detected headroom is known to be
  too old is refused with status 400 and leaves the store untouched.
\<close>

theorem gate_rejects:
  assumes "rq_method r = ''PUT'' \<or> rq_method r = ''POST''"
    and "read_limited maxConfigBody (rq_body r) = (body, None)"
    and "settingNonNullSavingsProfile body"
    and "detectedVersion ch = Some ver" and "\<not> supportsSavingsProfile ver"
  shows "fst (serve_config ch st r) = st \<and>
    rs_status (snd (serve_config ch st r)) = http_bad_request"
  using assms by (auto simp: serve_config_def http_error_def)

theorem gate_rejects_witness:
  "rs_status (snd (serve_config (at_version ''0.25.0'') (fresh_store ''/c'')
     (put_request (json_obj [(''savings_profile'', ''agent-90'')])))) = http_bad_request"
proof -
  have a: "rq_method (put_request b) = ''PUT'' \<or> rq_method (put_request b) = ''POST''" for b
    by (simp add: put_request_def)
  have b: "read_limited maxConfigBody (rq_body (put_request (json_obj [(''savings_profile'', ''agent-90'')]))) =
    (json_obj [(''savings_profile'', ''agent-90'')], None)" by code_simp
  have c: "settingNonNullSavingsProfile (json_obj [(''savings_profile'', ''agent-90'')])" by code_simp
  have d: "detectedVersion (at_version ''0.25.0'') = Some ''0.25.0''" by (simp add: detectedVersion_def at_version_def)
  have e: "\<not> supportsSavingsProfile ''0.25.0''" by code_simp
  show ?thesis using gate_rejects [OF a b c d e] by simp
qed


text \<open>
  A configuration file is decoded onto zero values, not onto the defaults: a file that only tunes
  one knob loads, and switches off or zeroes every setting it does not name.
\<close>

theorem partial_file_zeroes_the_rest:
  "let st = loadSettings ''/c'' empty_heap
       \<lparr>fs_file = FileWith (object_text [(''protect_recent'', ''2'')]), fs_mkdir_error = None, fs_write_error = None\<rparr>
   in vw_recent (current_view st) = 2 \<and> vw_min (current_view st) = 0 \<and>
      \<not> vw_system (current_view st) \<and> \<not> vw_analysis (current_view st)"
  by code_simp

end
