(* ===== verification/ConfigRestart.thy ===== *)
theory ConfigRestart
  imports ConfigStore JsonRender
begin

text \<open>
  What survives a restart. The settings a store holds are values of their Go types
  (\<open>settings_are_go_values\<close>), so the text that \<open>save\<close> writes reads back to them: after an accepted
  update, \<open>loadSettings\<close> on the file finds the settings that were in force
  (\<open>config_survives_restart\<close>).
\<close>

section \<open>Decoding looks only at the value\<close>

lemma decode_struct_erase:
  assumes "\<And>f raw raw' v v' s. erase v = erase v' \<Longrightarrow> step f raw v s = step f raw' v' s"
    and "erase j = erase j'"
  shows "decode_struct names step j s = decode_struct names step j' s"
proof -
  have "foldl (decode_member names step) sb ms = foldl (decode_member names step) sb ms'"
    if "map erase_member ms = map erase_member ms'" for sb ms ms'
    using that
  proof (induction ms arbitrary: ms' sb)
    case (Cons m ms)
    then obtain m' ns where ms': "ms' = m' # ns" "fst m = fst m'" "erase (snd (snd m)) = erase (snd (snd m'))"
      "map erase_member ms = map erase_member ns" by (cases ms') auto
    have "step f (fst (snd m)) (snd (snd m)) s = step f (fst (snd m')) (snd (snd m')) s" for f s
      by (rule assms(1) [OF ms'(3)])
    then have "decode_member names step sb m = decode_member names step sb m'"
      by (simp add: decode_member_def ms'(2) split: option.split)
    with Cons.IH [OF ms'(4)] ms'(1) show ?case by simp
  qed simp
  note same = this
  show ?thesis
  proof (cases j)
    case (JObj ms)
    with assms(2) obtain ms' where ms': "j' = JObj ms'" "map erase_member ms = map erase_member ms'"
      by (cases j') simp_all
    with JObj same [OF ms'(2), of "(s, False)"] show ?thesis by (simp add: decode_members_def)
  qed (use assms(2) in \<open>cases j'; simp\<close>)+
qed

lemma erase_null: "erase v = erase v' \<Longrightarrow> v = JNull \<longleftrightarrow> v' = JNull"
  by (cases v; cases v') auto

lemma decode_erase:
  assumes "erase v = erase v'"
  shows "decode_string a v = decode_string a v'" "decode_bool b v = decode_bool b v'"
    "decode_int i v = decode_int i v'" "decode_float x v = decode_float x v'"
  using assms by (cases v; cases v'; simp)+

lemma merge_view_erase: "erase j = erase j' \<Longrightarrow> merge_view j w = merge_view j' w"
  unfolding merge_view_def
proof (rule decode_struct_erase)
  fix f raw raw' v v' and s :: settings_view
  assume e: "erase v = erase v'"
  show "view_step f raw v s = view_step f raw' v' s"
    by (simp add: view_step_def or_null_def erase_null [OF e] decode_erase [OF e])
qed

section \<open>Settings are Go values\<close>

definition go_view :: "settings_view \<Rightarrow> bool" where
  "go_view v \<longleftrightarrow> int64_range (vw_recent v) \<and> int64_range (vw_min v) \<and>
     pred_option f64_canon (vw_ratio v) \<and> pred_option valid_utf8 (vw_model v) \<and>
     pred_option valid_utf8 (vw_profile v)"

definition go_cells :: "heap \<Rightarrow> CompressSettings \<Rightarrow> bool" where
  "go_cells h s \<longleftrightarrow> int64_range (ProtectRecent s) \<and> int64_range (MinTokensToCompress s) \<and>
     (\<forall>a. f64_canon (float_cell h a)) \<and> (\<forall>a. valid_utf8 (str_cell h a))"

lemma go_view_cells: "go_cells h s \<Longrightarrow> go_view (view h s)"
  by (auto simp: go_cells_def go_view_def view_def pred_option_def)

lemma go_decode_int: "int64_range i \<Longrightarrow> int64_range (fst (decode_int i v))"
  by (cases v) (auto simp: atoi_def Let_def split: option.split if_split_asm list.split)

lemma parse_float_canon: "parse_float l = Some f \<Longrightarrow> f64_canon f"
  by (auto simp: parse_float_def Let_def split: prod.splits if_splits option.splits intro: round64_canon)

lemma go_decode_float: "f64_canon f \<Longrightarrow> f64_canon (fst (decode_float f v))"
  by (cases v) (auto split: option.split dest: parse_float_canon)

lemma go_decode_string: "valid_utf8 s \<Longrightarrow> utf8_json v \<Longrightarrow> valid_utf8 (fst (decode_string s v))"
  by (cases v) auto

lemma go_settings_step:
  assumes "go_cells h s" and "utf8_json v"
  shows "go_cells (fst (fst (settings_step f raw v (h, s)))) (snd (fst (settings_step f raw v (h, s))))"
  using assms go_decode_int [of "ProtectRecent s" v] go_decode_int [of "MinTokensToCompress s" v]
    go_decode_float go_decode_string
  by (auto simp: settings_step_def go_cells_def decode_float_ptr_def decode_string_ptr_def
      split_beta split: option.split)

lemma go_decode_settings:
  assumes "go_cells h s" and "json_check body = Some j"
  shows "go_cells (fst (fst (decode_settings j (h, s)))) (snd (fst (decode_settings j (h, s))))"
proof -
  have "(\<lambda>hs. go_cells (fst hs) (snd hs)) (fst (decode_struct settings_fields settings_step j (h, s)))"
  proof (rule decode_struct_inv_members)
    fix ms k f raw v hs
    assume "j = JObj ms" "(k, raw, v) \<in> set ms" and cells: "go_cells (fst hs) (snd hs)"
    with check_utf8 [OF assms(2)] have "utf8_json v" by (auto simp: list_all_iff)
    with go_settings_step [of "fst hs" "snd hs"] cells
    show "go_cells (fst (fst (settings_step f raw v hs))) (snd (fst (settings_step f raw v hs)))" by simp
  qed (simp add: assms(1))
  then show ?thesis by (simp add: decode_settings_def)
qed

lemma go_empty: "go_cells empty_heap defaultSettings" "go_cells empty_heap zeroSettings"
  by (simp_all add: go_cells_def empty_heap_def defaultSettings_def zeroSettings_def int64_range_def)

definition go_store :: "string \<Rightarrow> settingsStore \<Rightarrow> bool" where
  "go_store path st \<longleftrightarrow> st_path st = path \<and> wf_store st \<and> go_cells (st_heap st) (st_cur st)"

lemma go_store_load: "go_store path (loadSettings path empty_heap d)"
  unfolding go_store_def
proof (intro conjI)
  show "go_cells (st_heap (loadSettings path empty_heap d)) (st_cur (loadSettings path empty_heap d))"
    using go_empty go_decode_settings [OF go_empty(2)]
    by (fastforce simp: loadSettings_def Let_def split: disk_file.split option.split prod.split)
qed (auto simp: wf_store_load, auto simp: loadSettings_def Let_def split: disk_file.split option.split prod.split)

lemma applyLocked_path [simp]: "st_path (fst (applyLocked st s)) = st_path st"
  by (simp add: applyLocked_def split_beta split: option.split)

lemma go_store_merge:
  assumes "go_store path st"
  shows "go_store path (fst (store_merge st body))"
proof -
  have "go_cells (st_heap (fst (store_merge st body))) (st_cur (fst (store_merge st body)))"
  proof (cases "snd (store_merge st body)")
    case (Inl e)
    from store_merge_error [OF Inl] assms go_decode_settings show ?thesis
      by (fastforce simp: go_store_def go_cells_def)
  next
    case (Inr s)
    obtain j h where j: "json_check body = Some j" and d: "decode_settings j (st_heap st, st_cur st) = ((h, s), False)"
      and n: "snd (applyLocked (st\<lparr>st_heap := h\<rparr>) s) = None"
      and f: "fst (store_merge st body) = fst (applyLocked (st\<lparr>st_heap := h\<rparr>) s)"
      by (rule store_merge_ok [OF Inr])
    from go_decode_settings [OF _ j, of "st_heap st" "st_cur st"] d assms applyLocked_ok [OF n] show ?thesis
      by (simp add: f go_store_def)
  qed
  moreover have "st_path (fst (store_merge st body)) = st_path st"
    by (simp add: store_merge_def Let_def split_beta split: option.split)
  ultimately show ?thesis using assms wf_store_merge by (simp add: go_store_def)
qed

definition go_start :: "string \<Rightarrow> settingsStore \<Rightarrow> bool" where
  "go_start path st \<longleftrightarrow> (\<exists>d. st = loadSettings path empty_heap d)"

interpretation typed: step_system config_act "go_start path" "go_store path" for path
proof unfold_locales
  show "go_start path st \<Longrightarrow> go_store path st" for st
    using go_store_load by (auto simp: go_start_def)
  show "go_store path st \<Longrightarrow> config_act a st = Some st' \<Longrightarrow> go_store path st'" for st a st'
    using go_store_merge by (cases a) (auto simp: go_store_def wf_store_def)
qed

section \<open>The saved text reads back\<close>

definition null_json :: "('a \<Rightarrow> json) \<Rightarrow> 'a option \<Rightarrow> json" where
  "null_json f x = (case x of None \<Rightarrow> JNull | Some a \<Rightarrow> f a)"

text \<open>The members of the settings' text with the values they read as.\<close>

definition settings_values :: "string \<Rightarrow> settings_view \<Rightarrow> (string \<times> string \<times> json) list" where
  "settings_values ratio v =
     [(''compress_user_messages'', bool_text (vw_user v), JBool (vw_user v)),
      (''compress_system_messages'', bool_text (vw_system v), JBool (vw_system v)),
      (''protect_recent'', int_text (vw_recent v), JNum (int_text (vw_recent v))),
      (''protect_analysis_context'', bool_text (vw_analysis v), JBool (vw_analysis v)),
      (''target_ratio'', ratio, null_json (\<lambda>_. JNum ratio) (vw_ratio v)),
      (''min_tokens_to_compress'', int_text (vw_min v), JNum (int_text (vw_min v))),
      (''kompress_model'', null_or quote (vw_model v), null_json JStr (vw_model v)),
      (''savings_profile'', null_or quote (vw_profile v), null_json JStr (vw_profile v))]"

lemma renders_null_or:
  "pred_option valid_utf8 x \<Longrightarrow> renders d (null_json JStr x) (null_or quote x)"
  by (cases x) (simp_all add: null_json_def null_or_def renders_quote renders_rend_elems_rend_members.null)

lemma settings_members_values:
  assumes "settings_members v = Some ms" and "pred_option f64_canon (vw_ratio v)"
  obtains ratio where "ms = map (\<lambda>(k, x, v). (k, x)) (settings_values ratio v)"
    and "\<And>d. renders d (null_json (\<lambda>_. JNum ratio) (vw_ratio v)) ratio"
    and "\<And>f. vw_ratio v = Some f \<Longrightarrow> parse_float ratio = Some f"
proof (cases "vw_ratio v")
  case None
  with assms that [of "''null''"] show ?thesis
    by (simp add: settings_members_def settings_values_def null_json_def renders_rend_elems_rend_members.null)
next
  case (Some f)
  with assms(1) obtain l where l: "json_float f = Some l" by (cases "json_float f") (simp_all add: settings_members_def)
  have "json_number l = Some (l, []) \<and> parse_float l = Some f"
    using json_float_reads [OF _ l] assms(2) Some by simp
  with assms Some l that [of l] show ?thesis
    by (simp add: settings_members_def settings_values_def null_json_def renders_rend_elems_rend_members.num)
qed

lemma renders_settings:
  assumes "go_view v" and "\<And>d. renders d (null_json (\<lambda>_. JNum ratio) (vw_ratio v)) ratio"
  shows "renders (Suc d) (JObj (settings_values ratio v)) (object_text (map (\<lambda>(k, x, v). (k, x)) (settings_values ratio v)))"
  by (rule renders_object)
    (use assms in \<open>simp add: settings_values_def go_view_def valid_utf8_ascii byte_of_def renders_int renders_null_or
       renders_rend_elems_rend_members.bool\<close>)

abbreviation zero_view :: settings_view where
  "zero_view \<equiv> view empty_heap zeroSettings"

lemma merge_settings:
  assumes "go_view v" and "\<And>f. vw_ratio v = Some f \<Longrightarrow> parse_float ratio = Some f"
  shows "merge_view (JObj (settings_values ratio v)) zero_view = (v, False)"
proof -
  obtain u s r a x m k p where v: "v = \<lparr>vw_user = u, vw_system = s, vw_recent = r, vw_analysis = a, vw_ratio = x,
      vw_min = m, vw_model = k, vw_profile = p\<rparr>" by (cases v) auto
  have "atoi (int_text r) = Some r" "atoi (int_text m) = Some m"
    using assms(1) by (simp_all add: go_view_def v atoi_int_text)
  moreover have "\<And>f. x = Some f \<Longrightarrow> parse_float ratio = Some f" using assms(2) by (simp add: v)
  ultimately show ?thesis
    by (cases x; cases k; cases p)
      (simp_all add: v merge_view_def settings_values_def decode_members_def decode_member_def field_for_def
        settings_fields_def view_step_def or_null_def null_json_def view_def zeroSettings_def)
qed

text \<open>The text of settings reads as an object that decodes, from zero values, to those settings.\<close>

lemma settings_text_reads:
  assumes "go_view v" and "settings_text v = Some t"
  obtains ms where "\<And>d. renders (Suc d) (JObj ms) t" "merge_view (JObj ms) zero_view = (v, False)"
proof -
  from assms(2) obtain ms where ms: "settings_members v = Some ms" "t = object_text ms"
    by (auto simp: settings_text_def)
  from assms(1) have "pred_option f64_canon (vw_ratio v)" by (simp add: go_view_def)
  from settings_members_values [OF ms(1) this] obtain ratio where
    r: "ms = map (\<lambda>(k, x, v). (k, x)) (settings_values ratio v)"
      "\<And>d. renders d (null_json (\<lambda>_. JNum ratio) (vw_ratio v)) ratio"
      "\<And>f. vw_ratio v = Some f \<Longrightarrow> parse_float ratio = Some f" by blast
  from that [of "settings_values ratio v"] renders_settings [OF assms(1) r(2)] merge_settings [OF assms(1) r(3)]
  show ?thesis by (simp add: ms(2) r(1))
qed

lemma load_saved:
  assumes "go_view v" and "valid_view v" and "settings_text v = Some t" and "path \<noteq> ''''"
    and "fs_file d = FileWith (json_indent t @ [CHR 0x0A])"
  shows "current_view (loadSettings path empty_heap d) = v"
proof -
  from settings_text_reads [OF assms(1,3)] obtain ms where
    ms: "\<And>d. renders (Suc d) (JObj ms) t" "merge_view (JObj ms) zero_view = (v, False)" by blast
  have "renders max_depth (JObj ms) (json_indent t)"
    using renders_json_indent [OF ms(1) [of 9999]] by (simp add: max_depth_def)
  from check_renders [OF this, of "[]" "[CHR 0x0A]"] obtain j where j: "json_check (json_indent t @ [CHR 0x0A]) = Some j"
    "erase j = erase (JObj ms)" by (auto simp: json_ws_def)
  have m: "merge_view j zero_view = (v, False)" using merge_view_erase [OF j(2)] ms(2) by simp
  obtain h s bad where d: "decode_settings j (empty_heap, zeroSettings) = ((h, s), bad)" by (metis prod.collapse)
  have "wf_settings empty_heap zeroSettings" by (simp add: wf_settings_def zeroSettings_def)
  from decode_settings_view [OF this d] m have w: "view h s = v" "\<not> bad" by simp_all
  with assms(2) have "validate h s = None" by (simp add: validate_iff)
  with w j(1) d assms(4,5) show ?thesis
    by (simp add: loadSettings_def current_view_def store_get_def)
qed

lemma merge_ok_saved:
  assumes "snd (store_merge st body) = Inr s" and "st_path st \<noteq> ''''"
  obtains t where "valid_view (current_view (fst (store_merge st body)))"
    and "settings_text (current_view (fst (store_merge st body))) = Some t"
    and "fs_file (st_fs (fst (store_merge st body))) = FileWith (json_indent t @ [CHR 0x0A])"
proof -
  obtain j h where n: "snd (applyLocked (st\<lparr>st_heap := h\<rparr>) s) = None"
    and f: "fst (store_merge st body) = fst (applyLocked (st\<lparr>st_heap := h\<rparr>) s)"
    by (rule store_merge_ok [OF assms(1)])
  from applyLocked_ok [OF n] assms(2) that show ?thesis
    by (auto simp: f current_view_def store_get_def)
qed

text \<open>
  C10. The settings survive a restart: along every run of updates and disk errors, a start that reads
  the file after an accepted update finds exactly the settings in force, all eight of them.
\<close>

theorem config_survives_restart:
  assumes "run_actions config_act as (loadSettings path empty_heap d) = Some st" and "path \<noteq> ''''"
    and "snd (store_merge st body) = Inr s"
  shows "current_view (loadSettings path empty_heap (st_fs (fst (store_merge st body)))) =
    current_view (fst (store_merge st body))"
proof -
  have "go_start path (loadSettings path empty_heap d)" by (auto simp: go_start_def)
  from typed.inv_reachable [OF this assms(1)] have st: "go_store path st" .
  from go_store_merge [OF this] have g: "go_view (current_view (fst (store_merge st body)))"
    by (simp add: go_store_def current_view_def store_get_def go_view_cells)
  from st assms(2) have "st_path st \<noteq> ''''" by (simp add: go_store_def)
  from merge_ok_saved [OF assms(3) this] g assms(2) show ?thesis by (metis load_saved)
qed

definition restart_body :: bytes where
  "restart_body = object_text [(''min_tokens_to_compress'', ''500''), (''kompress_model'', quote ''m'')]"

theorem config_survives_restart_witness:
  "current_view (loadSettings ''/c'' empty_heap (st_fs (fst (store_merge (fresh_store ''/c'') restart_body)))) =
     current_view (fst (store_merge (fresh_store ''/c'') restart_body))"
proof -
  let ?d = "\<lparr>fs_file = NoFile, fs_mkdir_error = None, fs_write_error = None\<rparr>"
  have "is_ok (snd (store_merge (fresh_store ''/c'') restart_body))" by code_simp
  then obtain s where s: "snd (store_merge (fresh_store ''/c'') restart_body) = Inr s" by (auto simp: is_ok_iff)
  have "run_actions config_act [] (loadSettings ''/c'' empty_heap ?d) = Some (fresh_store ''/c'')"
    by (simp add: fresh_store_def)
  from config_survives_restart [OF this _ s] show ?thesis by simp
qed



end
