(* ===== verification/Metrics.thy ===== *)
theory Metrics
  imports GoFloat GoHttp GoMarshal
begin

text \<open>
  \<open>metrics.go\<close>: the lifetime counters behind \<open>/metrics\<close> and their Prometheus rendering, with the
  \<open>summary\<close> of \<open>handler.go\<close> that feeds them. Counters are \<open>int64\<close>, hence 64-bit words; durations
  are \<open>float64\<close>; the three label maps are association lists with distinct keys. A \<open>*Metrics\<close> may be
  nil, so the methods work on a \<open>Metrics option\<close>.

  The lemmas show that the per-label maps partition the request counter, that the in-flight gauge is
  exact along every interleaving of requests, that the overhead bounds enclose every sample, and
  that a label value can neither break a line nor collide with another one.
\<close>

section \<open>State\<close>

record summary =
  sm_inMessages :: int
  sm_inBytes :: int
  sm_outBytes :: int
  sm_wireBytes :: int
  sm_enc :: string
  sm_provider :: string
  sm_model :: string
  sm_tokensBefore :: int
  sm_tokensSaved :: int
  sm_tokensAfter :: int
  sm_workerMs :: float64
  sm_cold :: bool
  sm_modelLimit :: int
  sm_slot :: int
  sm_reason :: string

definition zero_summary :: summary where
  "zero_summary =
     \<lparr>sm_inMessages = 0, sm_inBytes = 0, sm_outBytes = 0, sm_wireBytes = 0, sm_enc = [],
      sm_provider = [], sm_model = [], sm_tokensBefore = 0, sm_tokensSaved = 0, sm_tokensAfter = 0,
      sm_workerMs = f64_zero, sm_cold = False, sm_modelLimit = 0, sm_slot = 0, sm_reason = []\<rparr>"

record Metrics =
  requestsTotal :: i64
  requestsFailed :: i64
  tokensInput :: i64
  tokensSaved :: i64
  tokensAfter :: i64
  coldStarts :: i64
  overheadSumMs :: float64
  overheadMinMs :: float64
  overheadMaxMs :: float64
  overheadCount :: i64
  byProvider :: "i64 dict"
  byModel :: "i64 dict"
  byOutcome :: "i64 dict"
  inboundTotal :: i64
  inboundCompleted :: i64
  inboundActive :: i64

definition newMetrics :: Metrics where
  "newMetrics =
     \<lparr>requestsTotal = 0, requestsFailed = 0, tokensInput = 0, tokensSaved = 0, tokensAfter = 0,
      coldStarts = 0, overheadSumMs = f64_zero, overheadMinMs = F_Inf False,
      overheadMaxMs = f64_zero, overheadCount = 0, byProvider = [], byModel = [], byOutcome = [],
      inboundTotal = 0, inboundCompleted = 0, inboundActive = 0\<rparr>"

section \<open>Operations\<close>

definition inboundStart :: "Metrics option \<Rightarrow> Metrics option" where
  "inboundStart mp =
     (case mp of None \<Rightarrow> None
      | Some m \<Rightarrow> Some (m\<lparr>inboundTotal := inboundTotal m + 1, inboundActive := inboundActive m + 1\<rparr>))"

definition inboundDone :: "Metrics option \<Rightarrow> Metrics option" where
  "inboundDone mp =
     (case mp of None \<Rightarrow> None
      | Some m \<Rightarrow>
          let m1 = m\<lparr>inboundCompleted := inboundCompleted m + 1\<rparr> in
          Some (if 0 <s inboundActive m1 then m1\<lparr>inboundActive := inboundActive m1 - 1\<rparr> else m1))"

definition outcomeFromReason :: "string \<Rightarrow> string" where
  "outcomeFromReason reason =
     (if reason = ''modify'' then ''modify''
      else if reason = ''allow(noop)'' then ''noop''
      else if reason = ''allow(error)'' then ''error''
      else if reason = ''allow(read-error)'' then ''read_error''
      else if reason = ''allow(decode-error)'' then ''decode_error''
      else if reason = ''reject(encoding)'' then ''reject_encoding''
      else ''passthrough'')"

definition labelOrUnknown :: "string \<Rightarrow> string" where
  "labelOrUnknown v = (if v = '''' then ''unknown'' else v)"

definition record_call :: "Metrics option \<Rightarrow> summary \<Rightarrow> float64 \<Rightarrow> Metrics option" where
  "record_call mp s durMs =
     (case mp of None \<Rightarrow> None
      | Some m \<Rightarrow>
          let outcome = outcomeFromReason (sm_reason s);
              m1 = m\<lparr>requestsTotal := requestsTotal m + 1,
                     byOutcome := bump (byOutcome m) outcome,
                     byProvider := bump (byProvider m) (labelOrUnknown (sm_provider s)),
                     byModel := bump (byModel m) (labelOrUnknown (sm_model s)),
                     tokensInput := tokensInput m + word_of_int (sm_tokensBefore s),
                     tokensSaved := tokensSaved m + word_of_int (sm_tokensSaved s),
                     tokensAfter := tokensAfter m + word_of_int (sm_tokensAfter s)\<rparr>;
              m2 = (if sm_cold s then m1\<lparr>coldStarts := coldStarts m1 + 1\<rparr> else m1);
              m3 = (if outcome = ''error'' then m2\<lparr>requestsFailed := requestsFailed m2 + 1\<rparr> else m2);
              m4 = m3\<lparr>overheadSumMs := f64_add (overheadSumMs m3) durMs,
                      overheadCount := overheadCount m3 + 1\<rparr>;
              m5 = (if f64_less durMs (overheadMinMs m4) then m4\<lparr>overheadMinMs := durMs\<rparr> else m4)
          in Some (if f64_less (overheadMaxMs m5) durMs then m5\<lparr>overheadMaxMs := durMs\<rparr> else m5))"

section \<open>Rendering\<close>

datatype metric_value = VInt i64 | VFloat float64

definition fmtValue :: "metric_value \<Rightarrow> string" where
  "fmtValue v =
     (case v of
        VInt n \<Rightarrow> int_text (sint n)
      | VFloat f \<Rightarrow> trim_suffix_char (CHR ''.'') (trim_right_char (CHR ''0'') (fixed_text 2 f)))"

definition round2 :: "float64 \<Rightarrow> float64" where
  "round2 f =
     (if f64_is_inf f \<or> f = F_NaN then f64_zero
      else f64_div_nat (f64_round (f64_mul_nat f 100)) 100)"

definition escapeLabel :: "string \<Rightarrow> string" where
  "escapeLabel v =
     (let v1 = replace_all backslash [backslash, backslash] v;
          v2 = replace_all (CHR 0x0A) [backslash, CHR ''n''] v1
      in replace_all dquote [backslash, dquote] v2)"

definition family_header :: "string \<Rightarrow> string \<Rightarrow> string \<Rightarrow> string" where
  "family_header name typ help =
     ''# HELP '' @ name @ '' '' @ help @ [CHR 0x0A] @ ''# TYPE '' @ name @ '' '' @ typ @ [CHR 0x0A]"

definition scalar :: "string \<Rightarrow> string \<Rightarrow> string \<Rightarrow> metric_value \<Rightarrow> string" where
  "scalar name typ help value =
     family_header name typ help @ name @ '' '' @ fmtValue value @ [CHR 0x0A, CHR 0x0A]"

definition sample_line :: "string \<Rightarrow> string \<Rightarrow> string \<Rightarrow> i64 \<Rightarrow> string" where
  "sample_line name label k n =
     name @ ''{'' @ label @ ''='' @ [dquote] @ escapeLabel k @ [dquote] @ ''} '' @ int_text (sint n) @ [CHR 0x0A]"

definition labeled :: "string \<Rightarrow> string \<Rightarrow> string \<Rightarrow> string \<Rightarrow> i64 dict \<Rightarrow> string" where
  "labeled name typ help label values =
     family_header name typ help @
     concat (map (\<lambda>k. sample_line name label k (counter_at values k)) (sort (map fst values))) @
     [CHR 0x0A]"

text \<open>The copy that is taken under the lock, so that rendering does not hold it.\<close>

definition snapshotMap :: "i64 dict \<Rightarrow> i64 dict" where
  "snapshotMap src = foldl (\<lambda>out kv. AList.update (fst kv) (snd kv) out) [] src"

text \<open>
  \<open>poolStats\<close> and \<open>affinityStats\<close> are what the two accessors return at the time of the scrape,
  \<open>None\<close> when an accessor is not wired.
\<close>

definition export ::
  "Metrics option \<Rightarrow> (int \<times> int) option \<Rightarrow> (i64 \<times> i64) option \<Rightarrow> string" where
  "export mp poolStats affinityStats =
     (case mp of None \<Rightarrow> ''''
      | Some m \<Rightarrow>
     scalar ''headroom_requests_total'' ''counter''
       ''Total compression hook calls processed'' (VInt (requestsTotal m)) @
     scalar ''headroom_requests_failed_total'' ''counter''
       ''Hook calls where compression errored and we failed open'' (VInt (requestsFailed m)) @
     scalar ''headroom_tokens_input_total'' ''counter''
       ''Total input tokens seen by compression (tokens_before)'' (VInt (tokensInput m)) @
     scalar ''headroom_tokens_saved_total'' ''counter''
       ''Tokens saved by compression (tokens_saved)'' (VInt (tokensSaved m)) @
     scalar ''headroom_overhead_ms_sum'' ''counter''
       ''Sum of tsheadroom processing time in milliseconds (excludes upstream LLM)''
       (VFloat (round2 (overheadSumMs m))) @
     scalar ''headroom_overhead_ms_count'' ''counter''
       ''Count of observed tsheadroom overhead samples'' (VInt (overheadCount m)) @
     scalar ''headroom_overhead_ms_min'' ''gauge''
       ''Minimum observed tsheadroom overhead in milliseconds''
       (VFloat (if 0 <s overheadCount m then round2 (overheadMinMs m) else f64_zero)) @
     scalar ''headroom_overhead_ms_max'' ''gauge''
       ''Maximum observed tsheadroom overhead in milliseconds'' (VFloat (round2 (overheadMaxMs m))) @
     scalar ''headroom_inbound_requests_total'' ''counter''
       ''All inbound HTTP requests accepted by the hook handler'' (VInt (inboundTotal m)) @
     scalar ''headroom_inbound_requests_completed_total'' ''counter''
       ''Inbound HTTP requests completed by the hook handler'' (VInt (inboundCompleted m)) @
     scalar ''headroom_inbound_requests_active'' ''gauge''
       ''Inbound HTTP requests currently in flight in the hook handler'' (VInt (inboundActive m)) @
     labeled ''headroom_requests_by_provider'' ''counter'' ''Requests by provider'' ''provider'' (snapshotMap (byProvider m)) @
     labeled ''headroom_requests_by_model'' ''counter'' ''Requests by model'' ''model'' (snapshotMap (byModel m)) @
     scalar ''tsheadroom_tokens_after_total'' ''counter''
       ''Total output tokens after compression (tokens_after)'' (VInt (tokensAfter m)) @
     scalar ''tsheadroom_cold_starts_total'' ''counter''
       ''Worker first-real-call events that paid the one-time ML model load'' (VInt (coldStarts m)) @
     labeled ''tsheadroom_requests_by_outcome'' ''counter'' ''Requests by outcome'' ''outcome'' (snapshotMap (byOutcome m)) @
     (case poolStats of None \<Rightarrow> ''''
      | Some (slots, busy) \<Rightarrow>
          scalar ''tsheadroom_pool_slots_total'' ''gauge'' ''Total worker slots in the pool''
            (VInt (word_of_int slots)) @
          scalar ''tsheadroom_pool_slots_busy'' ''gauge'' ''Worker slots currently running a compression''
            (VInt (word_of_int busy))) @
     (case affinityStats of None \<Rightarrow> ''''
      | Some (hits, spills) \<Rightarrow>
          scalar ''tsheadroom_affinity_hits_total'' ''counter''
            ''Requests routed straight to their affinity worker (warm-cache hit)'' (VInt hits) @
          scalar ''tsheadroom_affinity_spills_total'' ''counter''
            ''Affinity-eligible requests whose worker was busy and spilled to another'' (VInt spills)))"

definition serve_metrics ::
  "Metrics option \<Rightarrow> (int \<times> int) option \<Rightarrow> (i64 \<times> i64) option \<Rightarrow> http_request \<Rightarrow> http_response" where
  "serve_metrics mp poolStats affinityStats r =
     (if rq_method r \<noteq> ''GET'' then http_error [] ''method not allowed'' http_method_not_allowed
      else \<lparr>rs_status = http_ok,
            rs_header = header_set ''Content-Type'' ''text/plain; version=0.0.4; charset=utf-8'' [],
            rs_body = export mp poolStats affinityStats\<rparr>)"

lemma snapshotMap_id [simp]: "distinct (map fst src) \<Longrightarrow> snapshotMap src = src"
  using foldl_update_distinct [of "[]" src] by (simp add: snapshotMap_def)

section \<open>Labels\<close>

lemma escapeLabel_Nil [simp]: "escapeLabel [] = []"
  by (simp add: escapeLabel_def)

lemma escapeLabel_Cons:
  "escapeLabel (c # v) =
     (if c = backslash then [backslash, backslash]
      else if c = CHR 0x0A then [backslash, CHR ''n'']
      else if c = dquote then [backslash, dquote] else [c]) @ escapeLabel v"
  by (simp add: escapeLabel_def Let_def)

fun unescapeLabel :: "string \<Rightarrow> string option" where
  "unescapeLabel [] = Some []"
| "unescapeLabel (c # cs) =
     (if c = backslash then
        (case cs of
           [] \<Rightarrow> None
         | d # ds \<Rightarrow>
             map_option (\<lambda>v. (if d = CHR ''n'' then CHR 0x0A else d) # v) (unescapeLabel ds))
      else map_option (\<lambda>v. c # v) (unescapeLabel cs))"

lemma unescape_escape: "unescapeLabel (escapeLabel v) = Some v"
  by (induction v) (auto simp: escapeLabel_Cons)

interpretation label: text_codec escapeLabel unescapeLabel "\<lambda>_. True"
  by unfold_locales (rule unescape_escape)

lemma escapeLabel_no_newline: "CHR 0x0A \<notin> set (escapeLabel v)"
  by (induction v) (auto simp: escapeLabel_Cons)

text \<open>
  Label escaping is injective, so two label values never render alike; the rendering holds no raw
  newline, and the closing quote that follows it is read as the closing quote, whatever the value.
\<close>

theorem escapeLabel_safe:
  "(escapeLabel v = escapeLabel w \<longleftrightarrow> v = w) \<and> CHR 0x0A \<notin> set (escapeLabel v) \<and>
   unescapeLabel (escapeLabel v @ [dquote]) = Some (v @ [dquote])"
proof -
  have "unescapeLabel (escapeLabel v @ [dquote]) = Some (v @ [dquote])" for v
    by (induction v) (auto simp: escapeLabel_Cons)
  with label.enc_eq_iff escapeLabel_no_newline show ?thesis by simp
qed

lemma count_newline_no: "CHR 0x0A \<notin> set s \<Longrightarrow> count_list s (CHR 0x0A) = 0"
  by (simp add: count_list_0_iff)

lemma count_sample_line:
  assumes "CHR 0x0A \<notin> set name" and "CHR 0x0A \<notin> set label"
  shows "count_list (sample_line name label k n) (CHR 0x0A) = 1"
  using assms escapeLabel_no_newline int_text_no_newline
  by (simp add: sample_line_def count_newline_no)

lemma count_list_concat: "count_list (concat xss) x = sum_list (map (\<lambda>xs. count_list xs x) xss)"
  by (induction xss) auto

text \<open>
  A labelled family renders one line per label value after its two header lines, and one blank
  line: no label value, whatever its bytes, adds or removes a line.
\<close>

theorem labeled_lines:
  assumes "CHR 0x0A \<notin> set name" and "CHR 0x0A \<notin> set typ" and "CHR 0x0A \<notin> set help"
    and "CHR 0x0A \<notin> set label"
  shows "count_list (labeled name typ help label values) (CHR 0x0A) = length values + 3"
  using assms
  by (simp add: labeled_def family_header_def count_newline_no count_list_concat comp_def
      count_sample_line sum_list_triv)

theorem labeled_lines_witness:
  "count_list (labeled ''m'' ''counter'' ''h'' ''l'' [([CHR 0x0A], 3), (''b'', 1)]) (CHR 0x0A) = 5"
  using labeled_lines [of "''m''" "''counter''" "''h''" "''l''" "[([CHR 0x0A], 3), (''b'', 1)]"] by simp

section \<open>Counters\<close>

text \<open>
  The handler's traffic as a transition system: requests start, are recorded and finish in any
  interleaving. \<open>mw_flight\<close> counts the requests in flight, \<open>mw_durs\<close> lists the recorded durations.
\<close>

record metrics_world =
  mw_metrics :: Metrics
  mw_flight :: nat
  mw_calls :: "(summary \<times> float64) list"

datatype metrics_action = Start | Record summary float64 | Done

fun metrics_act :: "metrics_action \<Rightarrow> metrics_world \<Rightarrow> metrics_world option" where
  "metrics_act Start w =
     (if mw_flight w + 1 < 2 ^ 63
      then Some (w\<lparr>mw_metrics := the (inboundStart (Some (mw_metrics w))), mw_flight := mw_flight w + 1\<rparr>)
      else None)"
| "metrics_act (Record s d) w =
     (if f64_le f64_zero d
      then Some (w\<lparr>mw_metrics := the (record_call (Some (mw_metrics w)) s d),
                   mw_calls := (s, d) # mw_calls w\<rparr>)
      else None)"
| "metrics_act Done w =
     (if 0 < mw_flight w
      then Some (w\<lparr>mw_metrics := the (inboundDone (Some (mw_metrics w))), mw_flight := mw_flight w - 1\<rparr>)
      else None)"

definition metrics_start :: metrics_world where
  "metrics_start = \<lparr>mw_metrics = newMetrics, mw_flight = 0, mw_calls = []\<rparr>"

definition calls_with :: "(summary \<Rightarrow> bool) \<Rightarrow> (summary \<times> float64) list \<Rightarrow> i64" where
  "calls_with P cs = of_nat (length (filter (\<lambda>c. P (fst c)) cs))"

definition counters_inv :: "metrics_world \<Rightarrow> bool" where
  "counters_inv w \<longleftrightarrow>
     (let m = mw_metrics w; cs = mw_calls w in
      distinct (map fst (byOutcome m)) \<and> distinct (map fst (byProvider m)) \<and> distinct (map fst (byModel m)) \<and>
      dict_total (byOutcome m) = requestsTotal m \<and>
      dict_total (byProvider m) = requestsTotal m \<and>
      dict_total (byModel m) = requestsTotal m \<and>
      requestsTotal m = of_nat (length cs) \<and> overheadCount m = requestsTotal m \<and>
      requestsFailed m = counter_at (byOutcome m) ''error'' \<and>
      coldStarts m = calls_with sm_cold cs \<and>
      tokensInput m = (\<Sum>c\<leftarrow>cs. word_of_int (sm_tokensBefore (fst c))) \<and>
      tokensSaved m = (\<Sum>c\<leftarrow>cs. word_of_int (sm_tokensSaved (fst c))) \<and>
      tokensAfter m = (\<Sum>c\<leftarrow>cs. word_of_int (sm_tokensAfter (fst c))) \<and>
      (\<forall>k. counter_at (byOutcome m) k = calls_with (\<lambda>s. outcomeFromReason (sm_reason s) = k) cs))"

definition flight_inv :: "metrics_world \<Rightarrow> bool" where
  "flight_inv w \<longleftrightarrow>
     (let m = mw_metrics w in
      mw_flight w < 2 ^ 63 \<and> inboundActive m = of_nat (mw_flight w) \<and>
      inboundTotal m = inboundCompleted m + inboundActive m)"

definition overhead_inv :: "metrics_world \<Rightarrow> bool" where
  "overhead_inv w \<longleftrightarrow>
     (let m = mw_metrics w; ds = map snd (mw_calls w) in
      overheadMaxMs m \<noteq> F_NaN \<and> overheadMinMs m \<noteq> F_NaN \<and>
      (\<forall>d \<in> set ds. f64_le (overheadMinMs m) d \<and> f64_le d (overheadMaxMs m)) \<and>
      (if ds = [] then overheadMinMs m = F_Inf False else overheadMinMs m \<in> set ds) \<and>
      overheadMaxMs m \<in> insert f64_zero (set ds))"

definition metrics_inv :: "metrics_world \<Rightarrow> bool" where
  "metrics_inv w \<longleftrightarrow> counters_inv w \<and> flight_inv w \<and> overhead_inv w"


lemma sint_of_nat_i64: "n < 2 ^ 63 \<Longrightarrow> sint (of_nat n :: i64) = int n"
  by (simp add: signed_of_nat signed_take_bit_int_eq_self)

lemma sless_of_nat: "0 < n \<Longrightarrow> n < 2 ^ 63 \<Longrightarrow> 0 <s (of_nat n :: i64)"
  by (simp add: word_sless_alt sint_of_nat_i64)

lemma record_call_eq:
  "record_call (Some m) s d =
     Some (m\<lparr>requestsTotal := requestsTotal m + 1,
             requestsFailed := requestsFailed m + (if outcomeFromReason (sm_reason s) = ''error'' then 1 else 0),
             tokensInput := tokensInput m + word_of_int (sm_tokensBefore s),
             tokensSaved := tokensSaved m + word_of_int (sm_tokensSaved s),
             tokensAfter := tokensAfter m + word_of_int (sm_tokensAfter s),
             coldStarts := coldStarts m + (if sm_cold s then 1 else 0),
             overheadSumMs := f64_add (overheadSumMs m) d,
             overheadMinMs := (if f64_less d (overheadMinMs m) then d else overheadMinMs m),
             overheadMaxMs := (if f64_less (overheadMaxMs m) d then d else overheadMaxMs m),
             overheadCount := overheadCount m + 1,
             byProvider := bump (byProvider m) (labelOrUnknown (sm_provider s)),
             byModel := bump (byModel m) (labelOrUnknown (sm_model s)),
             byOutcome := bump (byOutcome m) (outcomeFromReason (sm_reason s))\<rparr>)"
  by (cases "sm_cold s"; cases "outcomeFromReason (sm_reason s) = ''error''";
      cases "f64_less d (overheadMinMs m)"; cases "f64_less (overheadMaxMs m) d")
     (simp_all add: record_call_def Let_def)

lemma record_call_None: "record_call None s d = None"
  by (simp add: record_call_def)

lemmas record_call_code [code] = record_call_None record_call_eq

lemma record_call_fields:
  assumes "record_call (Some m) s d = Some m'"
  shows "requestsTotal m' = requestsTotal m + 1" "overheadCount m' = overheadCount m + 1"
    "byOutcome m' = bump (byOutcome m) (outcomeFromReason (sm_reason s))"
    "byProvider m' = bump (byProvider m) (labelOrUnknown (sm_provider s))"
    "byModel m' = bump (byModel m) (labelOrUnknown (sm_model s))"
    "requestsFailed m' = requestsFailed m + (if outcomeFromReason (sm_reason s) = ''error'' then 1 else 0)"
    "coldStarts m' = coldStarts m + (if sm_cold s then 1 else 0)"
    "tokensInput m' = tokensInput m + word_of_int (sm_tokensBefore s)"
    "tokensSaved m' = tokensSaved m + word_of_int (sm_tokensSaved s)"
    "tokensAfter m' = tokensAfter m + word_of_int (sm_tokensAfter s)"
    "inboundTotal m' = inboundTotal m" "inboundCompleted m' = inboundCompleted m"
    "inboundActive m' = inboundActive m"
    "overheadMinMs m' = (if f64_less d (overheadMinMs m) then d else overheadMinMs m)"
    "overheadMaxMs m' = (if f64_less (overheadMaxMs m) d then d else overheadMaxMs m)"
    "overheadSumMs m' = f64_add (overheadSumMs m) d"
  using assms by (auto simp: record_call_eq)

lemma record_call_Some: "record_call (Some m) s d = Some (the (record_call (Some m) s d))"
  by (simp add: record_call_eq)

lemma calls_with_Cons [simp]:
  "calls_with P ((s, d) # cs) = calls_with P cs + (if P s then 1 else 0)"
  by (simp add: calls_with_def add.commute)

lemma calls_with_Nil [simp]: "calls_with P [] = 0"
  by (simp add: calls_with_def)

lemma metrics_inv_start: "metrics_inv metrics_start"
  by (simp add: metrics_inv_def counters_inv_def flight_inv_def overhead_inv_def metrics_start_def
      newMetrics_def counter_at_def Let_def)

lemma counters_inv_act:
  assumes "counters_inv w" and "metrics_act a w = Some w'"
  shows "counters_inv w'"
proof (cases a)
  case (Record s d)
  let ?m = "mw_metrics w"
  obtain m' where m': "record_call (Some ?m) s d = Some m'" using record_call_Some by blast
  with assms(2) Record have w': "mw_metrics w' = m'" "mw_calls w' = (s, d) # mw_calls w"
    by (auto split: if_splits)
  from assms(1) show ?thesis
    by (auto simp: counters_inv_def Let_def w' record_call_fields [OF m'] distinct_bump dict_total_bump
        counter_at_bump add.commute)
qed (use assms in \<open>auto simp: counters_inv_def inboundStart_def inboundDone_def Let_def split: if_splits\<close>)

lemma flight_inv_act:
  assumes "flight_inv w" and "metrics_act a w = Some w'"
  shows "flight_inv w'"
proof (cases a)
  case Start
  with assms show ?thesis
    by (auto simp: flight_inv_def inboundStart_def Let_def split: if_splits)
next
  case (Record s d)
  let ?m = "mw_metrics w"
  obtain m' where m': "record_call (Some ?m) s d = Some m'" using record_call_Some by blast
  with assms(2) Record have w': "mw_metrics w' = m'" "mw_flight w' = mw_flight w"
    by (auto split: if_splits)
  from assms(1) show ?thesis by (simp add: flight_inv_def Let_def w' record_call_fields [OF m'])
next
  case Done
  with assms have f: "0 < mw_flight w" "mw_flight w < 2 ^ 63" "inboundActive (mw_metrics w) = of_nat (mw_flight w)"
    by (auto simp: flight_inv_def Let_def split: if_splits)
  from sless_of_nat [OF f(1,2)] f(3) have pos: "0 <s inboundActive (mw_metrics w)" by simp
  have "of_nat (mw_flight w - 1) = (of_nat (mw_flight w) - 1 :: i64)"
    using f(1) by (simp add: of_nat_diff Suc_le_eq)
  with assms Done f pos show ?thesis
    by (auto simp: flight_inv_def inboundDone_def Let_def)
qed

lemma metrics_act_quiet:
  assumes "metrics_act a w = Some w'" and "\<And>s d. a \<noteq> Record s d"
  shows "overheadMinMs (mw_metrics w') = overheadMinMs (mw_metrics w) \<and>
    overheadMaxMs (mw_metrics w') = overheadMaxMs (mw_metrics w) \<and> mw_calls w' = mw_calls w"
  using assms by (cases a) (auto simp: inboundStart_def inboundDone_def Let_def split: if_splits)

lemma overhead_inv_quiet:
  assumes "metrics_act a w = Some w'" and "\<And>s d. a \<noteq> Record s d"
  shows "overhead_inv w' = overhead_inv w"
  unfolding overhead_inv_def Let_def by (simp only: metrics_act_quiet [OF assms])

lemma overhead_inv_act:
  assumes "overhead_inv w" and "metrics_act a w = Some w'"
  shows "overhead_inv w'"
proof (cases a)
  case (Record s d)
  let ?m = "mw_metrics w"
  obtain m' where m': "record_call (Some ?m) s d = Some m'" using record_call_Some by blast
  with assms(2) Record have w': "mw_metrics w' = m'" "mw_calls w' = (s, d) # mw_calls w"
    and d: "f64_le f64_zero d"
    by (auto split: if_splits)
  let ?lo = "overheadMinMs ?m" and ?hi = "overheadMaxMs ?m"
  from assms(1) have nn: "?lo \<noteq> F_NaN" "?hi \<noteq> F_NaN"
    and bd: "\<And>x. x \<in> snd ` set (mw_calls w) \<Longrightarrow> f64_le ?lo x \<and> f64_le x ?hi"
    and att: "mw_calls w \<noteq> [] \<Longrightarrow> ?lo \<in> snd ` set (mw_calls w)" "?hi \<in> insert f64_zero (snd ` set (mw_calls w))"
    by (auto simp: overhead_inv_def Let_def)
  from d have dn: "d \<noteq> F_NaN" using f64_le_not_NaN by blast
  have lo: "f64_le (overheadMinMs m') ?lo" "f64_le (overheadMinMs m') d"
    using nn dn f64_not_less f64_le_refl f64_less_le by (auto simp: record_call_fields [OF m'])
  have hi: "f64_le ?hi (overheadMaxMs m')" "f64_le d (overheadMaxMs m')"
    using nn dn f64_not_less f64_le_refl f64_less_le by (auto simp: record_call_fields [OF m'])
  have "\<forall>x \<in> snd ` set (mw_calls w'). f64_le (overheadMinMs m') x \<and> f64_le x (overheadMaxMs m')"
    using bd lo hi f64_le_trans by (auto simp: w')
  moreover have "overheadMinMs m' \<in> snd ` set (mw_calls w')"
  proof (cases "mw_calls w = []")
    case True
    with assms(1) have "?lo = F_Inf False" by (simp add: overhead_inv_def Let_def)
    moreover have "f64_less d (F_Inf False) \<or> d = F_Inf False"
      using d by (cases d) auto
    ultimately show ?thesis by (auto simp: w' record_call_fields [OF m'])
  next
    case False
    with att show ?thesis by (auto simp: w' record_call_fields [OF m'])
  qed
  moreover have "overheadMaxMs m' \<in> insert f64_zero (snd ` set (mw_calls w'))"
    using att by (auto simp: w' record_call_fields [OF m'])
  ultimately show ?thesis using lo hi f64_le_not_NaN
    by (auto simp: overhead_inv_def Let_def w')
qed (use assms(1) overhead_inv_quiet [OF assms(2)] in simp_all)


interpretation metrics: step_system metrics_act "\<lambda>w. w = metrics_start" metrics_inv
proof unfold_locales
  show "w = metrics_start \<Longrightarrow> metrics_inv w" for w using metrics_inv_start by simp
  show "metrics_inv w \<Longrightarrow> metrics_act a w = Some w' \<Longrightarrow> metrics_inv w'" for w a w'
    unfolding metrics_inv_def using counters_inv_act flight_inv_act overhead_inv_act by blast
qed

lemma metrics_reachable: "run_actions metrics_act as metrics_start = Some w \<Longrightarrow> metrics_inv w"
  by (rule metrics.inv_reachable [OF refl])

definition sample_summary :: summary where
  "sample_summary =
     zero_summary\<lparr>sm_provider := ''anthropic'', sm_reason := ''allow(error)'', sm_tokensBefore := 100\<rparr>"

definition sample_traffic :: "metrics_action list" where
  "sample_traffic = [Start, Start, Record sample_summary f64_zero, Done]"

definition sample_world :: metrics_world where
  "sample_world = the (run_actions metrics_act sample_traffic metrics_start)"

lemma sample_run: "run_actions metrics_act sample_traffic metrics_start = Some sample_world"
proof -
  have "run_actions metrics_act sample_traffic metrics_start \<noteq> None" by code_simp
  then show ?thesis by (simp add: sample_world_def)
qed
lemma sample_calls: "mw_calls sample_world = [(sample_summary, f64_zero)]"
  by code_simp
lemma sample_requests: "requestsFailed (mw_metrics sample_world) = 1" "mw_flight sample_world = 1"
  by code_simp+



text \<open>
  The in-flight gauge is exact: along every interleaving of requests (fewer than \<open>2^63\<close> at once)
  it is the number of requests started and not yet finished, and the total is the completed plus the
  active ones.
\<close>

theorem inbound_gauge:
  assumes "run_actions metrics_act as metrics_start = Some w"
  shows "sint (inboundActive (mw_metrics w)) = int (mw_flight w) \<and>
    inboundTotal (mw_metrics w) = inboundCompleted (mw_metrics w) + inboundActive (mw_metrics w)"
  using metrics_reachable [OF assms] sint_of_nat_i64 by (simp add: metrics_inv_def flight_inv_def Let_def)

theorem inbound_gauge_witness:
  "sint (inboundActive (mw_metrics sample_world)) = 1"
  using inbound_gauge [OF sample_run] sample_requests by simp

text \<open>
  Every recorded duration lies between the reported minimum and maximum, and both bounds are
  attained (the maximum may be the initial zero).
\<close>

theorem overhead_bounds:
  assumes "run_actions metrics_act as metrics_start = Some w" and "(s, d) \<in> set (mw_calls w)"
  shows "f64_le (overheadMinMs (mw_metrics w)) d \<and> f64_le d (overheadMaxMs (mw_metrics w)) \<and>
    overheadMinMs (mw_metrics w) \<in> snd ` set (mw_calls w) \<and>
    overheadMaxMs (mw_metrics w) \<in> insert f64_zero (snd ` set (mw_calls w))"
  using metrics_reachable [OF assms(1)] assms(2)
  by (fastforce simp: metrics_inv_def overhead_inv_def Let_def split: if_splits)

theorem overhead_bounds_witness:
  "f64_le (overheadMinMs (mw_metrics sample_world)) f64_zero"
  using overhead_bounds [OF sample_run, of sample_summary f64_zero]
  by (simp add: sample_calls f64_le_refl del: f64_le.simps)

end
