(* ===== verification/Worker.thy ===== *)
theory Worker
  imports Config
begin

text \<open>
  The wire types of \<open>pool.go\<close> and the worker: the request and response envelopes of the
  line-delimited JSON protocol, the ready handshake, one call, and the life of the child process.

  What the operating system decides is an argument: the outcome of a write to the worker's stdin,
  what \<open>readLine\<close> yields (a line, a read error, or expiry of its context), whether a pipe or the
  process can be created. A worker process is seen through the calls the program makes on it.
\<close>

section \<open>Wire types\<close>

record compressRequest =
  rq_Messages :: bytes
  rq_Model :: string
  rq_Config :: CompressSettings
  rq_AffinityKey :: string

text \<open>A \<open>json.RawMessage\<close> is its bytes; nil is the empty list.\<close>

record compressResult =
  rs_Messages :: bytes
  rs_TokensBefore :: int
  rs_TokensAfter :: int
  rs_TokensSaved :: int
  rs_CompressionRatio :: float64
  rs_TransformsApplied :: "string list"
  rs_ElapsedMs :: float64
  rs_ColdFirstCall :: bool
  rs_ModelLimit :: int
  rs_Slot :: int

definition zeroResult :: compressResult where
  "zeroResult =
     \<lparr>rs_Messages = [], rs_TokensBefore = 0, rs_TokensAfter = 0, rs_TokensSaved = 0,
      rs_CompressionRatio = f64_zero, rs_TransformsApplied = [], rs_ElapsedMs = f64_zero,
      rs_ColdFirstCall = False, rs_ModelLimit = 0, rs_Slot = 0\<rparr>"

record responseEnvelope =
  re_ID :: int
  re_OK :: bool
  re_Result :: "compressResult option"
  re_Error :: string
  re_ErrorType :: string

definition zeroEnvelope :: responseEnvelope where
  "zeroEnvelope = \<lparr>re_ID = 0, re_OK = False, re_Result = None, re_Error = [], re_ErrorType = []\<rparr>"

section \<open>Encoding a request\<close>

definition raw_text :: "bytes \<Rightarrow> string option" where
  "raw_text m =
     (if m = [] then Some ''null''
      else case json_check m of None \<Rightarrow> None | Some _ \<Rightarrow> Some (compact m))"

definition request_text :: "heap \<Rightarrow> compressRequest \<Rightarrow> string option" where
  "request_text h r =
     (case raw_text (rq_Messages r) of
        None \<Rightarrow> None
      | Some ms \<Rightarrow>
          (case settings_text (view h (rq_Config r)) of
             None \<Rightarrow> None
           | Some cfg \<Rightarrow>
               Some (object_text
                 ([(''messages'', ms)] @
                  (if rq_Model r = '''' then [] else [(''model'', quote (rq_Model r))]) @
                  [(''config'', cfg)]))))"

definition envelope_text :: "heap \<Rightarrow> int \<Rightarrow> compressRequest \<Rightarrow> string option" where
  "envelope_text h i r =
     map_option (\<lambda>p. object_text [(''id'', int_text i), (''payload'', p)]) (request_text h r)"

section \<open>Decoding a response\<close>

definition result_fields :: "string list" where
  "result_fields =
     [''messages'', ''tokens_before'', ''tokens_after'', ''tokens_saved'', ''compression_ratio'',
      ''transforms_applied'', ''elapsed_ms'', ''cold_first_call'', ''model_limit'']"

definition result_step :: "string \<Rightarrow> string \<Rightarrow> json \<Rightarrow> compressResult \<Rightarrow> compressResult \<times> bool" where
  "result_step f raw v r =
     (if f = ''messages'' then (r\<lparr>rs_Messages := raw\<rparr>, False)
      else if f = ''tokens_before'' then
        (case decode_int (rs_TokensBefore r) v of (i, e) \<Rightarrow> (r\<lparr>rs_TokensBefore := i\<rparr>, e))
      else if f = ''tokens_after'' then
        (case decode_int (rs_TokensAfter r) v of (i, e) \<Rightarrow> (r\<lparr>rs_TokensAfter := i\<rparr>, e))
      else if f = ''tokens_saved'' then
        (case decode_int (rs_TokensSaved r) v of (i, e) \<Rightarrow> (r\<lparr>rs_TokensSaved := i\<rparr>, e))
      else if f = ''compression_ratio'' then
        (case decode_float (rs_CompressionRatio r) v of (x, e) \<Rightarrow> (r\<lparr>rs_CompressionRatio := x\<rparr>, e))
      else if f = ''transforms_applied'' then
        (case decode_string_list (rs_TransformsApplied r) v of (x, e) \<Rightarrow> (r\<lparr>rs_TransformsApplied := x\<rparr>, e))
      else if f = ''elapsed_ms'' then
        (case decode_float (rs_ElapsedMs r) v of (x, e) \<Rightarrow> (r\<lparr>rs_ElapsedMs := x\<rparr>, e))
      else if f = ''cold_first_call'' then
        (case decode_bool (rs_ColdFirstCall r) v of (b, e) \<Rightarrow> (r\<lparr>rs_ColdFirstCall := b\<rparr>, e))
      else if f = ''model_limit'' then
        (case decode_int (rs_ModelLimit r) v of (i, e) \<Rightarrow> (r\<lparr>rs_ModelLimit := i\<rparr>, e))
      else (r, False))"

text \<open>\<open>Result\<close> is a pointer: null makes it nil, anything else decodes into the pointee or a fresh zero one.\<close>

definition decode_result_ptr :: "compressResult option \<Rightarrow> json \<Rightarrow> compressResult option \<times> bool" where
  "decode_result_ptr cur v =
     (if v = JNull then (None, False)
      else case decode_struct result_fields result_step v (case cur of None \<Rightarrow> zeroResult | Some r \<Rightarrow> r) of
             (r, e) \<Rightarrow> (Some r, e))"

definition envelope_fields :: "string list" where
  "envelope_fields = [''id'', ''ok'', ''result'', ''error'', ''error_type'']"

definition envelope_step :: "string \<Rightarrow> string \<Rightarrow> json \<Rightarrow> responseEnvelope \<Rightarrow> responseEnvelope \<times> bool" where
  "envelope_step f raw v r =
     (if f = ''id'' then (case decode_int (re_ID r) v of (i, e) \<Rightarrow> (r\<lparr>re_ID := i\<rparr>, e))
      else if f = ''ok'' then (case decode_bool (re_OK r) v of (b, e) \<Rightarrow> (r\<lparr>re_OK := b\<rparr>, e))
      else if f = ''result'' then
        (case decode_result_ptr (re_Result r) v of (x, e) \<Rightarrow> (r\<lparr>re_Result := x\<rparr>, e))
      else if f = ''error'' then (case decode_string (re_Error r) v of (s, e) \<Rightarrow> (r\<lparr>re_Error := s\<rparr>, e))
      else if f = ''error_type'' then
        (case decode_string (re_ErrorType r) v of (s, e) \<Rightarrow> (r\<lparr>re_ErrorType := s\<rparr>, e))
      else (r, False))"

definition decode_envelope :: "bytes \<Rightarrow> responseEnvelope option" where
  "decode_envelope line =
     (case json_check line of
        None \<Rightarrow> None
      | Some v \<Rightarrow>
          (case decode_struct envelope_fields envelope_step v zeroEnvelope of
             (r, bad) \<Rightarrow> if bad then None else Some r))"

section \<open>The worker\<close>

text \<open>\<open>readLine\<close>: the line with its newline, a read error, or the context's expiry.\<close>

datatype read_outcome = Line bytes | ReadFails string | CtxDone string

datatype worker_error =
    MarshalRequest
  | WriteWorker string
  | ReadWorker string
  | DecodeResponse
  | IdMismatch int int
  | WorkerFailed string string
  | NoResult

text \<open>What the program does to a child process: its signals and waits.\<close>

datatype proc_call = CloseStdin | SigKillGroup | WaitProc

record worker =
  wk_slot :: nat
  wk_nextID :: int
  wk_headroomVersion :: string

definition readLine :: "read_outcome \<Rightarrow> string + bytes" where
  "readLine o1 = (case o1 of Line l \<Rightarrow> Inr l | ReadFails e \<Rightarrow> Inl e | CtxDone e \<Rightarrow> Inl e)"

text \<open>
  \<open>do\<close>, in the two parts that the program blocks between: building and writing the request line,
  and handling what was read. \<open>do_send\<close> gives the bytes to write.
\<close>

definition do_send :: "heap \<Rightarrow> worker \<Rightarrow> compressRequest \<Rightarrow> worker \<times> (worker_error + bytes)" where
  "do_send h w req =
     (let w' = w\<lparr>wk_nextID := wk_nextID w + 1\<rparr> in
      case envelope_text h (wk_nextID w') req of
        None \<Rightarrow> (w', Inl MarshalRequest)
      | Some t \<Rightarrow> (w', Inr (t @ [CHR 0x0A])))"

definition do_receive :: "worker \<Rightarrow> read_outcome \<Rightarrow> worker_error + compressResult" where
  "do_receive w got =
     (case readLine got of
        Inl e \<Rightarrow> Inl (ReadWorker e)
      | Inr line \<Rightarrow>
          (case decode_envelope line of
             None \<Rightarrow> Inl DecodeResponse
           | Some resp \<Rightarrow>
               if re_ID resp \<noteq> wk_nextID w then Inl (IdMismatch (re_ID resp) (wk_nextID w))
               else if \<not> re_OK resp then Inl (WorkerFailed (re_ErrorType resp) (re_Error resp))
               else case re_Result resp of None \<Rightarrow> Inl NoResult | Some r \<Rightarrow> Inr r))"

definition worker_do ::
  "heap \<Rightarrow> worker \<Rightarrow> compressRequest \<Rightarrow> string option \<Rightarrow> read_outcome \<Rightarrow>
   worker \<times> (worker_error + compressResult)" where
  "worker_do h w req wrote got =
     (case do_send h w req of
        (w', Inl e) \<Rightarrow> (w', Inl e)
      | (w', Inr buf) \<Rightarrow>
          (case wrote of
             Some e \<Rightarrow> (w', Inl (WriteWorker e))
           | None \<Rightarrow> (w', do_receive w' got)))"

section \<open>The handshake\<close>

definition truncate_line :: "bytes \<Rightarrow> string" where
  "truncate_line b = (if 200 < length b then take 200 b @ ''...'' else b)"

datatype start_error =
    StdinPipe string
  | StdoutPipe string
  | StderrPipe string
  | StartProcess string
  | ReadyTimeout
  | ReadyRead string
  | UnexpectedFirstLine string

definition ready_step :: "string \<Rightarrow> string \<Rightarrow> json \<Rightarrow> bool \<times> string \<Rightarrow> (bool \<times> string) \<times> bool" where
  "ready_step f raw v m =
     (if f = ''ready'' then (case decode_bool (fst m) v of (b, e) \<Rightarrow> ((b, snd m), e))
      else if f = ''headroom_version'' then (case decode_string (snd m) v of (s, e) \<Rightarrow> ((fst m, s), e))
      else (m, False))"

definition decode_ready :: "bytes \<Rightarrow> (bool \<times> string) option" where
  "decode_ready line =
     (case json_check line of
        None \<Rightarrow> None
      | Some v \<Rightarrow>
          (case decode_struct [''ready'', ''headroom_version''] ready_step v (False, []) of
             (m, bad) \<Rightarrow> if bad then None else Some m))"

text \<open>The context of \<open>awaitReady\<close> only ends by its deadline.\<close>

definition awaitReady :: "worker \<Rightarrow> read_outcome \<Rightarrow> start_error + worker" where
  "awaitReady w got =
     (case got of
        CtxDone _ \<Rightarrow> Inl ReadyTimeout
      | ReadFails e \<Rightarrow> Inl (ReadyRead e)
      | Line line \<Rightarrow>
          (case decode_ready line of
             None \<Rightarrow> Inl (UnexpectedFirstLine (truncate_line line))
           | Some (ready, ver) \<Rightarrow>
               if ready then Inr (w\<lparr>wk_headroomVersion := ver\<rparr>)
               else Inl (UnexpectedFirstLine (truncate_line line))))"

definition signalKill :: "proc_call list" where
  "signalKill = [SigKillGroup]"

definition kill :: "proc_call list" where
  "kill = signalKill @ [WaitProc]"

text \<open>The reaper goroutine's wait is the only one, whether or not the grace period is overstayed.\<close>

definition shutdown :: "bool \<Rightarrow> proc_call list" where
  "shutdown exits_in_grace =
     [CloseStdin] @ [WaitProc] @ (if exits_in_grace then [] else signalKill)"

record start_outcomes =
  so_stdin :: "string option"
  so_stdout :: "string option"
  so_stderr :: "string option"
  so_start :: "string option"
  so_ready :: read_outcome

text \<open>The worker or the error, and the calls on the process when it had been started.\<close>

definition startWorker :: "start_outcomes \<Rightarrow> nat \<Rightarrow> (start_error + worker) \<times> proc_call list" where
  "startWorker o1 slot =
     (case so_stdin o1 of Some e \<Rightarrow> (Inl (StdinPipe e), [])
      | None \<Rightarrow>
     (case so_stdout o1 of Some e \<Rightarrow> (Inl (StdoutPipe e), [])
      | None \<Rightarrow>
     (case so_stderr o1 of Some e \<Rightarrow> (Inl (StderrPipe e), [])
      | None \<Rightarrow>
     (case so_start o1 of Some e \<Rightarrow> (Inl (StartProcess e), [])
      | None \<Rightarrow>
     (case awaitReady \<lparr>wk_slot = slot, wk_nextID = 0, wk_headroomVersion = []\<rparr> (so_ready o1) of
        Inl e \<Rightarrow> (Inl e, kill)
      | Inr w \<Rightarrow> (Inr w, []))))))"

section \<open>One line per message\<close>

lemma nat_text_no_newline [simp]: "CHR 0x0A \<notin> set (nat_text n)"
  by (rule nat_text_no_char) (simp add: is_digit_def)

lemma pad_left_no_newline [simp]: "CHR 0x0A \<notin> set s \<Longrightarrow> CHR 0x0A \<notin> set (pad_left n s)"
  by (simp add: pad_left_def)

lemma plain_text_no_newline: "CHR 0x0A \<notin> set (plain_text q t)"
  using nat_text_no_newline [of q]
  by (auto simp: plain_text_def Let_def simp del: nat_text_no_newline dest: in_set_takeD in_set_dropD)

lemma exp_text_no_newline: "CHR 0x0A \<notin> set (exp_text q t)"
proof -
  have "CHR 0x0A \<notin> set (take 1 (nat_text q))" "CHR 0x0A \<notin> set (drop 1 (nat_text q))"
    using nat_text_no_newline [of q] in_set_takeD in_set_dropD by fastforce+
  then show ?thesis by (simp add: exp_text_def Let_def)
qed

lemma json_float_no_newline: "json_float f = Some t \<Longrightarrow> CHR 0x0A \<notin> set t"
  using plain_text_no_newline exp_text_no_newline
  by (cases f) (auto simp: Let_def split_beta simp del: f64_less.simps split: if_splits)

lemma bool_text_no_newline [simp]: "CHR 0x0A \<notin> set (bool_text b)"
  by (simp add: bool_text_def)

lemma null_or_no_newline: "(\<And>a. CHR 0x0A \<notin> set (f a)) \<Longrightarrow> CHR 0x0A \<notin> set (null_or f x)"
  by (cases x) (simp_all add: null_or_def)

lemma settings_text_no_newline:
  assumes "settings_text v = Some t"
  shows "CHR 0x0A \<notin> set t"
proof -
  from assms obtain ms where ms: "settings_members v = Some ms" and t: "t = object_text ms"
    by (auto simp: settings_text_def)
  have "CHR 0x0A \<notin> set x" if "(k, x) \<in> set ms" for k x
    using that ms json_float_no_newline int_text_no_newline null_or_no_newline [of quote]
    by (auto simp: settings_members_def split: option.splits)
  then show ?thesis unfolding t by (rule object_text_no_newline)
qed

lemma envelope_no_newline:
  assumes "envelope_text h i r = Some t"
  shows "CHR 0x0A \<notin> set t"
proof -
  from assms obtain p where p: "request_text h r = Some p"
    and t: "t = object_text [(''id'', int_text i), (''payload'', p)]"
    by (auto simp: envelope_text_def)
  from p obtain ms cfg where ms: "raw_text (rq_Messages r) = Some ms"
    and cfg: "settings_text (view h (rq_Config r)) = Some cfg"
    and pt: "p = object_text ([(''messages'', ms)] @
        (if rq_Model r = '''' then [] else [(''model'', quote (rq_Model r))]) @ [(''config'', cfg)])"
    by (auto simp: request_text_def split: option.splits)
  have "CHR 0x0A \<notin> set ms"
    using ms compact_one_line by (auto simp: raw_text_def split: if_splits option.splits)
  with settings_text_no_newline [OF cfg] have "CHR 0x0A \<notin> set p"
    unfolding pt by (intro object_text_no_newline) (auto split: if_splits)
  with int_text_no_newline show ?thesis
    unfolding t by (intro object_text_no_newline) auto
qed

text \<open>
  C35. Framing of the worker protocol: what a call writes is one JSON text without a raw newline and the
  newline that ends the line, whatever the messages, the model name and the settings, and it carries
  the next id of the worker.
\<close>

theorem request_is_one_line:
  assumes "do_send h w req = (w', Inr buf)"
  shows "(\<exists>t. buf = t @ [CHR 0x0A] \<and> CHR 0x0A \<notin> set t \<and> envelope_text h (wk_nextID w') req = Some t) \<and>
    wk_nextID w' = wk_nextID w + 1"
  using assms envelope_no_newline
  by (auto simp: do_send_def Let_def split: option.splits)

definition sample_request :: compressRequest where
  "sample_request =
     \<lparr>rq_Messages = ''[ null]'', rq_Model = ''m'', rq_Config = defaultSettings, rq_AffinityKey = []\<rparr>"

definition sample_worker :: worker where
  "sample_worker = \<lparr>wk_slot = 0, wk_nextID = 0, wk_headroomVersion = ''0.27.0''\<rparr>"

theorem request_is_one_line_witness:
  "\<exists>w' buf. do_send empty_heap sample_worker sample_request = (w', Inr buf) \<and> wk_nextID w' = 1"
proof -
  have "is_ok (snd (do_send empty_heap sample_worker sample_request))" by code_simp
  then obtain w' buf where r: "do_send empty_heap sample_worker sample_request = (w', Inr buf)"
    by (metis is_ok_iff prod.collapse)
  from request_is_one_line [OF r] r show ?thesis by (simp add: sample_worker_def)
qed

section \<open>Responses\<close>


text \<open>Calls in sequence on one worker.\<close>

fun do_calls :: "heap \<Rightarrow> worker \<Rightarrow> (compressRequest \<times> string option \<times> read_outcome) list \<Rightarrow> worker" where
  "do_calls h w [] = w"
| "do_calls h w ((req, wrote, got) # cs) = do_calls h (fst (worker_do h w req wrote got)) cs"

lemma worker_do_next: "wk_nextID (fst (worker_do h w req wrote got)) = wk_nextID w + 1"
  by (auto simp: worker_do_def do_send_def Let_def split: option.splits sum.splits)

lemma do_calls_next: "wk_nextID (do_calls h w cs) = wk_nextID w + int (length cs)"
  by (induction h w cs rule: do_calls.induct) (auto simp: worker_do_next)

text \<open>
  C36. An answer to an earlier call, or one without an id, is never taken for the current one: after any
  calls on a fresh worker, a line whose id is at most the number of those calls is rejected.
\<close>

theorem stale_answer_rejected:
  assumes "startWorker so slot = (Inr w0, evs)"
    and "decode_envelope line = Some resp" and "re_ID resp \<le> int (length cs)"
    and "snd (worker_do h (do_calls h w0 cs) req wrote (Line line)) = r"
  shows "\<not> is_ok r"
proof -
  have "wk_nextID w0 = 0"
    using assms(1) by (auto simp: startWorker_def awaitReady_def split: option.splits sum.splits read_outcome.splits prod.splits if_splits)
  then have n: "wk_nextID (do_calls h w0 cs) = int (length cs)" by (simp add: do_calls_next)
  obtain w1 x where s: "do_send h (do_calls h w0 cs) req = (w1, x)" by fastforce
  then have w1: "wk_nextID w1 = int (length cs) + 1"
    using n by (auto simp: do_send_def Let_def split: option.splits)
  show ?thesis
    using assms(2,3,4) s w1
    by (cases x; cases wrote) (auto simp: worker_do_def do_receive_def readLine_def)
qed

definition ready_line :: bytes where
  "ready_line = object_text [(''ready'', ''true''), (''headroom_version'', quote ''0.27.0'')]"

definition ready_start :: start_outcomes where
  "ready_start =
     \<lparr>so_stdin = None, so_stdout = None, so_stderr = None, so_start = None, so_ready = Line ready_line\<rparr>"

theorem stale_answer_rejected_witness:
  "\<not> is_ok (snd (worker_do empty_heap
      (do_calls empty_heap (projr (fst (startWorker ready_start 0))) [(sample_request, None, CtxDone ''late'')])
      sample_request None (Line ''{}'')))"
proof -
  have "is_ok (fst (startWorker ready_start 0))" by code_simp
  then have start: "startWorker ready_start 0 =
      (Inr (projr (fst (startWorker ready_start 0))), snd (startWorker ready_start 0))"
    by (auto simp: is_ok_iff intro: prod_eqI)
  have "decode_envelope ''{}'' = Some zeroEnvelope" by code_simp
  moreover have "re_ID zeroEnvelope \<le> int (length [(sample_request, None :: string option, CtxDone ''late'')])"
    by (simp add: zeroEnvelope_def)
  ultimately show ?thesis by (rule stale_answer_rejected [OF start _ _ refl])
qed

section \<open>Handshake and processes\<close>

lemma truncate_spec: "length (truncate_line b) \<le> 203 \<and> take 200 (truncate_line b) = take 200 b"
  by (simp add: truncate_line_def)

text \<open>
  A worker is taken into service exactly when its first line is an object with \<open>ready\<close> true, and the
  version recorded is the one of that line.
\<close>

theorem awaitReady_ok:
  "awaitReady w got = Inr w' \<longleftrightarrow>
   (\<exists>line ver. got = Line line \<and> decode_ready line = Some (True, ver) \<and> w' = w\<lparr>wk_headroomVersion := ver\<rparr>)"
  by (auto simp: awaitReady_def split: read_outcome.splits option.splits)

text \<open>
  Each process is waited for exactly once: both ways of ending a worker wait once, and a start that
  fails waits once when the process had been created and not at all before.
\<close>

theorem every_process_waited_once:
  "count_list kill WaitProc = 1 \<and> count_list (shutdown g) WaitProc = 1 \<and>
   (case startWorker so slot of
      (Inr w, evs) \<Rightarrow> evs = []
    | (Inl e, evs) \<Rightarrow>
        count_list evs WaitProc = (if so_stdin so = None \<and> so_stdout so = None \<and> so_stderr so = None \<and> so_start so = None then 1 else 0))"
  by (auto simp: kill_def shutdown_def signalKill_def startWorker_def split: option.splits sum.splits)

end
