(* ===== verification/Pool.thy ===== *)
theory Pool
  imports Worker GoHash
begin

text \<open>
  The supervised worker pool of \<open>pool.go\<close> as a transition system. A state holds the slots (one
  goroutine each), the affinity channels (buffered, depth 1), the shared channel (unbuffered, so it
  holds nothing), the atomic counters and every \<open>Compress\<close> call so far with the depth-1 channel it
  waits on. An action is one visible step of one goroutine: \<open>pool_act a p\<close> is \<open>None\<close> when the step is
  not possible in \<open>p\<close>. Local steps between two visible ones are part of the action before them.

  A job is the index of the call that submitted it. What the workers and the clock do is carried by
  the action: the outcome of a start, of a write, of a read.
\<close>

section \<open>Routing\<close>

definition slotFor :: "string \<Rightarrow> int \<Rightarrow> int" where
  "slotFor key sz = (if sz \<le> 1 then 0 else uint (fnv32a key mod word_of_int sz))"

text \<open>Backoff in milliseconds.\<close>

definition initialBackoff :: nat where
  "initialBackoff = 200"

definition maxBackoff :: nat where
  "maxBackoff = 10000"

definition next_backoff :: "nat \<Rightarrow> nat" where
  "next_backoff b = (if maxBackoff < 2 * b then maxBackoff else 2 * b)"

section \<open>State\<close>

datatype pool_error = ShuttingDown | WorkerUnavailable | CtxError | CallFailed worker_error

type_synonym job_result = "pool_error + compressResult"

text \<open>
  A slot goroutine: in \<open>spawn\<close> (with the backoff, the phase, and what it does when \<open>spawn\<close>
  returns), parked in the select, in \<open>w.do\<close> before or after the write, in \<open>w.shutdown\<close>, or gone.
\<close>

datatype spawn_phase = Checking | Starting | Sleeping

datatype after_spawn = FirstSpawn | Retry nat | Reply nat pool_error

datatype slot =
    Spawning after_spawn nat spawn_phase
  | Parked "worker option"
  | Writing worker nat
  | Reading worker nat
  | Closing worker
  | Exited

datatype call_phase =
    Entering
  | AtAffinity
  | AtShared
  | Counting bool
  | Waiting
  | Returned job_result
  | Panicked

text \<open>
  \<open>ca_resp\<close> is the job's channel; \<open>ca_sent\<close> records the slot that an affinity send went to, or that
  took the job from the shared channel.
\<close>

datatype route = Hit nat | Spill nat

record call =
  ca_req :: compressRequest
  ca_phase :: call_phase
  ca_ctx :: bool
  ca_resp :: "job_result option"
  ca_sent :: "route option"

record pool =
  pl_affinity :: "nat list list"
  pl_slots :: "slot list"
  pl_affinityEnabled :: bool
  pl_size :: int
  pl_busy :: i64
  pl_affinityHits :: i64
  pl_affinitySpills :: i64
  pl_headroomVer :: "string option"
  pl_done :: bool
  pl_drained :: nat
  pl_calls :: "call list"
  pl_started :: nat
  pl_reaped :: nat

text \<open>\<open>newPool\<close> panics in \<open>make\<close> on a negative size.\<close>

definition newPool :: "int \<Rightarrow> bool \<Rightarrow> pool option" where
  "newPool sz affinityEnabled =
     (if sz < 0 then None
      else Some
        \<lparr>pl_affinity = replicate (nat sz) [],
         pl_slots = replicate (nat sz) (Spawning FirstSpawn initialBackoff Checking),
         pl_affinityEnabled = affinityEnabled, pl_size = sz, pl_busy = 0,
         pl_affinityHits = 0, pl_affinitySpills = 0, pl_headroomVer = None,
         pl_done = False, pl_drained = 0, pl_calls = [], pl_started = 0, pl_reaped = 0\<rparr>)"

definition stats :: "pool \<Rightarrow> int \<times> int" where
  "stats p = (pl_size p, sint (pl_busy p))"

definition affinityStats :: "pool \<Rightarrow> i64 \<times> i64" where
  "affinityStats p = (pl_affinityHits p, pl_affinitySpills p)"

definition recordHeadroomVersion :: "string \<Rightarrow> pool \<Rightarrow> pool" where
  "recordHeadroomVersion ver p = (if ver \<noteq> '''' then p\<lparr>pl_headroomVer := Some ver\<rparr> else p)"

definition headroomVersion :: "pool \<Rightarrow> string option" where
  "headroomVersion p = pl_headroomVer p"

section \<open>Small updates\<close>

definition set_slot :: "nat \<Rightarrow> slot \<Rightarrow> pool \<Rightarrow> pool" where
  "set_slot k s p = p\<lparr>pl_slots := (pl_slots p)[k := s]\<rparr>"

definition upd_call :: "nat \<Rightarrow> (call \<Rightarrow> call) \<Rightarrow> pool \<Rightarrow> pool" where
  "upd_call j f p = p\<lparr>pl_calls := (pl_calls p)[j := f (pl_calls p ! j)]\<rparr>"

definition set_phase :: "nat \<Rightarrow> call_phase \<Rightarrow> pool \<Rightarrow> pool" where
  "set_phase j ph p = upd_call j (\<lambda>c. c\<lparr>ca_phase := ph\<rparr>) p"

definition answer :: "nat \<Rightarrow> job_result \<Rightarrow> pool \<Rightarrow> pool" where
  "answer j r p = upd_call j (\<lambda>c. c\<lparr>ca_resp := Some r\<rparr>) p"

definition sent :: "nat \<Rightarrow> route \<Rightarrow> bool \<Rightarrow> pool \<Rightarrow> pool" where
  "sent j rt affined p =
     upd_call j (\<lambda>c. c\<lparr>ca_sent := Some rt,
                       ca_phase := (if affined then Counting (case rt of Hit _ \<Rightarrow> True | Spill _ \<Rightarrow> False)
                                    else Waiting)\<rparr>) p"

definition set_buffer :: "nat \<Rightarrow> nat list \<Rightarrow> pool \<Rightarrow> pool" where
  "set_buffer k b p = p\<lparr>pl_affinity := (pl_affinity p)[k := b]\<rparr>"

definition affined :: "pool \<Rightarrow> compressRequest \<Rightarrow> bool" where
  "affined p req \<longleftrightarrow> pl_affinityEnabled p \<and> rq_AffinityKey req \<noteq> ''''"

section \<open>\<open>Compress\<close> and \<open>dispatch\<close>\<close>

definition call_enter :: "compressRequest \<Rightarrow> pool \<Rightarrow> pool" where
  "call_enter req p =
     p\<lparr>pl_calls := pl_calls p @
         [\<lparr>ca_req = req, ca_phase = Entering, ca_ctx = False, ca_resp = None, ca_sent = None\<rparr>]\<rparr>"

text \<open>The first select of \<open>dispatch\<close>.\<close>

definition call_check :: "nat \<Rightarrow> pool \<Rightarrow> pool option" where
  "call_check j p =
     (if j < length (pl_calls p) \<and> ca_phase (pl_calls p ! j) = Entering then
        Some (if pl_done p then set_phase j (Returned (Inl ShuttingDown)) p
              else if affined p (ca_req (pl_calls p ! j)) then set_phase j AtAffinity p
              else set_phase j AtShared p)
      else None)"

text \<open>
  A slot that has received a job: without a worker it spawns one, otherwise it is counted busy and
  enters \<open>do\<close>.
\<close>

definition receive :: "nat \<Rightarrow> nat \<Rightarrow> pool \<Rightarrow> pool" where
  "receive k j p =
     (case pl_slots p ! k of
        Parked (Some w) \<Rightarrow> set_slot k (Writing w j) (p\<lparr>pl_busy := pl_busy p + 1\<rparr>)
      | _ \<Rightarrow> set_slot k (Spawning (Retry j) initialBackoff Checking) p)"

definition is_parked :: "slot \<Rightarrow> bool" where
  "is_parked s = (case s of Parked _ \<Rightarrow> True | _ \<Rightarrow> False)"

text \<open>
  The non-blocking affinity send: to a receiver parked on the empty channel, else into the buffer,
  else not at all. Indexing the slice out of range panics.
\<close>

definition call_affinity :: "nat \<Rightarrow> pool \<Rightarrow> pool option" where
  "call_affinity j p =
     (if j < length (pl_calls p) \<and> ca_phase (pl_calls p ! j) = AtAffinity then
        let k = nat (slotFor (rq_AffinityKey (ca_req (pl_calls p ! j))) (pl_size p)) in
        if length (pl_affinity p) \<le> k then Some (set_phase j Panicked p)
        else if pl_affinity p ! k = [] \<and> is_parked (pl_slots p ! k)
        then Some (receive k j (sent j (Hit k) True p))
        else if length (pl_affinity p ! k) < 1
        then Some (set_buffer k (pl_affinity p ! k @ [j]) (sent j (Hit k) True p))
        else Some (set_phase j AtShared p)
      else None)"

text \<open>The blocking select: a rendezvous with slot \<open>k\<close>, the call's context, or shutdown.\<close>

definition call_shared :: "nat \<Rightarrow> nat \<Rightarrow> pool \<Rightarrow> pool option" where
  "call_shared j k p =
     (if j < length (pl_calls p) \<and> ca_phase (pl_calls p ! j) = AtShared \<and>
         k < length (pl_slots p) \<and> is_parked (pl_slots p ! k)
      then Some (receive k j (sent j (Spill k) (affined p (ca_req (pl_calls p ! j))) p))
      else None)"

definition call_give_up :: "nat \<Rightarrow> pool \<Rightarrow> pool option" where
  "call_give_up j p =
     (if j < length (pl_calls p) \<and> ca_ctx (pl_calls p ! j) \<and>
         ca_phase (pl_calls p ! j) \<in> set [AtShared, Waiting]
      then Some (set_phase j (Returned (Inl CtxError)) p) else None)"

definition call_see_shutdown :: "nat \<Rightarrow> pool \<Rightarrow> pool option" where
  "call_see_shutdown j p =
     (if j < length (pl_calls p) \<and> ca_phase (pl_calls p ! j) = AtShared \<and> pl_done p
      then Some (set_phase j (Returned (Inl ShuttingDown)) p) else None)"

definition call_count :: "nat \<Rightarrow> pool \<Rightarrow> pool option" where
  "call_count j p =
     (if j < length (pl_calls p) then
        case ca_phase (pl_calls p ! j) of
          Counting hit \<Rightarrow>
            Some (set_phase j Waiting
              (if hit then p\<lparr>pl_affinityHits := pl_affinityHits p + 1\<rparr>
               else p\<lparr>pl_affinitySpills := pl_affinitySpills p + 1\<rparr>))
        | _ \<Rightarrow> None
      else None)"

definition call_return :: "nat \<Rightarrow> pool \<Rightarrow> pool option" where
  "call_return j p =
     (if j < length (pl_calls p) \<and> ca_phase (pl_calls p ! j) = Waiting then
        map_option (\<lambda>r. set_phase j (Returned r) p) (ca_resp (pl_calls p ! j))
      else None)"

definition call_cancel :: "nat \<Rightarrow> pool \<Rightarrow> pool option" where
  "call_cancel j p =
     (if j < length (pl_calls p) then Some (upd_call j (\<lambda>c. c\<lparr>ca_ctx := True\<rparr>) p) else None)"

section \<open>\<open>runSlot\<close> and \<open>spawn\<close>\<close>

text \<open>What follows when \<open>spawn\<close> returns a worker, or nil on shutdown.\<close>

definition spawned :: "nat \<Rightarrow> after_spawn \<Rightarrow> worker \<Rightarrow> pool \<Rightarrow> pool" where
  "spawned k af w p =
     (case af of
        FirstSpawn \<Rightarrow> set_slot k (Parked (Some w)) p
      | Retry j \<Rightarrow> set_slot k (Writing w j) (p\<lparr>pl_busy := pl_busy p + 1\<rparr>)
      | Reply j e \<Rightarrow> set_slot k (Parked (Some w)) (answer j (Inl e) p))"

definition spawn_nil :: "nat \<Rightarrow> after_spawn \<Rightarrow> pool \<Rightarrow> pool" where
  "spawn_nil k af p =
     (case af of
        FirstSpawn \<Rightarrow> set_slot k (Parked None) p
      | Retry j \<Rightarrow> set_slot k Exited (answer j (Inl WorkerUnavailable) p)
      | Reply j e \<Rightarrow> set_slot k (Parked None) (answer j (Inl e) p))"

definition slot_check :: "nat \<Rightarrow> pool \<Rightarrow> pool option" where
  "slot_check k p =
     (if k < length (pl_slots p) then
        case pl_slots p ! k of
          Spawning af b Checking \<Rightarrow>
            Some (if pl_done p then spawn_nil k af p else set_slot k (Spawning af b Starting) p)
        | _ \<Rightarrow> None
      else None)"

text \<open>
  \<open>startWorker\<close> returns. \<open>pl_started\<close> counts the processes created and \<open>pl_reaped\<close> the waits on them.
\<close>

definition slot_start :: "nat \<Rightarrow> start_outcomes \<Rightarrow> pool \<Rightarrow> pool option" where
  "slot_start k so p =
     (if k < length (pl_slots p) then
        case pl_slots p ! k of
          Spawning af b Starting \<Rightarrow>
            (case startWorker so k of
               (Inr w, evs) \<Rightarrow>
                 Some (spawned k af w
                   (recordHeadroomVersion (wk_headroomVersion w) (p\<lparr>pl_started := pl_started p + 1\<rparr>)))
             | (Inl e, evs) \<Rightarrow>
                 Some (set_slot k (Spawning af b Sleeping)
                   (p\<lparr>pl_started := pl_started p + count_list evs WaitProc,
                      pl_reaped := pl_reaped p + count_list evs WaitProc\<rparr>)))
        | _ \<Rightarrow> None
      else None)"

definition slot_wake :: "nat \<Rightarrow> pool \<Rightarrow> pool option" where
  "slot_wake k p =
     (if k < length (pl_slots p) then
        case pl_slots p ! k of
          Spawning af b Sleeping \<Rightarrow> Some (set_slot k (Spawning af (next_backoff b) Checking) p)
        | _ \<Rightarrow> None
      else None)"

definition slot_sleep_done :: "nat \<Rightarrow> pool \<Rightarrow> pool option" where
  "slot_sleep_done k p =
     (if k < length (pl_slots p) \<and> pl_done p then
        case pl_slots p ! k of
          Spawning af b Sleeping \<Rightarrow> Some (spawn_nil k af p)
        | _ \<Rightarrow> None
      else None)"

text \<open>The select of a parked slot: its affinity channel, or shutdown (\<open>call_shared\<close> is the third arm).\<close>

definition slot_take :: "nat \<Rightarrow> pool \<Rightarrow> pool option" where
  "slot_take k p =
     (if k < length (pl_slots p) \<and> is_parked (pl_slots p ! k) then
        case pl_affinity p ! k of
          j # rest \<Rightarrow> Some (receive k j (set_buffer k rest p))
        | [] \<Rightarrow> None
      else None)"

definition slot_stop :: "nat \<Rightarrow> pool \<Rightarrow> pool option" where
  "slot_stop k p =
     (if k < length (pl_slots p) \<and> pl_done p then
        case pl_slots p ! k of
          Parked None \<Rightarrow> Some (set_slot k Exited p)
        | Parked (Some w) \<Rightarrow> Some (set_slot k (Closing w) p)
        | _ \<Rightarrow> None
      else None)"

definition slot_closed :: "nat \<Rightarrow> bool \<Rightarrow> pool \<Rightarrow> pool option" where
  "slot_closed k in_grace p =
     (if k < length (pl_slots p) then
        case pl_slots p ! k of
          Closing w \<Rightarrow>
            Some (set_slot k Exited (p\<lparr>pl_reaped := pl_reaped p + count_list (shutdown in_grace) WaitProc\<rparr>))
        | _ \<Rightarrow> None
      else None)"

text \<open>\<open>w.do\<close> failed: the worker is killed and another one spawned before the caller is answered.\<close>

definition recycle :: "nat \<Rightarrow> nat \<Rightarrow> worker_error \<Rightarrow> pool \<Rightarrow> pool" where
  "recycle k j e p =
     set_slot k (Spawning (Reply j (CallFailed e)) initialBackoff Checking)
       (p\<lparr>pl_busy := pl_busy p - 1, pl_reaped := pl_reaped p + count_list kill WaitProc\<rparr>)"

definition slot_write :: "nat \<Rightarrow> heap \<Rightarrow> string option \<Rightarrow> pool \<Rightarrow> pool option" where
  "slot_write k h wrote p =
     (if k < length (pl_slots p) then
        case pl_slots p ! k of
          Writing w j \<Rightarrow>
            (case do_send h w (ca_req (pl_calls p ! j)) of
               (w', Inl e) \<Rightarrow> Some (recycle k j e p)
             | (w', Inr buf) \<Rightarrow>
                 (case wrote of
                    Some e \<Rightarrow> Some (recycle k j (WriteWorker e) p)
                  | None \<Rightarrow> Some (set_slot k (Reading w' j) p)))
        | _ \<Rightarrow> None
      else None)"

text \<open>
  The read returns: a line, a read error, or the end of the hard cap's context, by its own deadline or
  because the pool's context, its parent, was cancelled. A result is stamped with the slot.
\<close>

definition deadline_exceeded :: string where
  "deadline_exceeded = ''context deadline exceeded''"

definition context_canceled :: string where
  "context_canceled = ''context canceled''"

definition may_end :: "pool \<Rightarrow> read_outcome \<Rightarrow> bool" where
  "may_end p got \<longleftrightarrow>
     (case got of
        CtxDone e \<Rightarrow> e = deadline_exceeded \<or> (e = context_canceled \<and> pl_done p)
      | _ \<Rightarrow> True)"

definition slot_read :: "nat \<Rightarrow> read_outcome \<Rightarrow> pool \<Rightarrow> pool option" where
  "slot_read k got p =
     (if k < length (pl_slots p) \<and> may_end p got then
        case pl_slots p ! k of
          Reading w j \<Rightarrow>
            (case do_receive w got of
               Inl e \<Rightarrow> Some (recycle k j e p)
             | Inr res \<Rightarrow>
                 Some (set_slot k (Parked (Some w))
                   (answer j (Inr (res\<lparr>rs_Slot := int k\<rparr>)) (p\<lparr>pl_busy := pl_busy p - 1\<rparr>))))
        | _ \<Rightarrow> None
      else None)"

section \<open>\<open>Shutdown\<close>\<close>

definition shutdown_cancel :: "pool \<Rightarrow> pool option" where
  "shutdown_cancel p = Some (p\<lparr>pl_done := True\<rparr>)"

fun answer_all :: "nat list \<Rightarrow> pool \<Rightarrow> pool" where
  "answer_all [] p = p"
| "answer_all (j # js) p = answer_all js (answer j (Inl ShuttingDown) p)"

text \<open>
  After \<open>wg.Wait\<close>: the channels are drained in order. \<open>pl_drained\<close> is the number already drained, so
  \<open>Shutdown\<close> has returned when it is the size.
\<close>

definition shutdown_drain :: "pool \<Rightarrow> pool option" where
  "shutdown_drain p =
     (if pl_done p \<and> list_all (\<lambda>s. s = Exited) (pl_slots p) \<and> pl_drained p < length (pl_affinity p)
      then Some (set_buffer (pl_drained p) [] (answer_all (pl_affinity p ! pl_drained p)
                   (p\<lparr>pl_drained := pl_drained p + 1\<rparr>)))
      else None)"

section \<open>The transition system\<close>

datatype pool_action =
    Enter compressRequest
  | Check nat
  | Affinity nat
  | Shared nat nat
  | GiveUp nat
  | SeeShutdown nat
  | Count nat
  | Return nat
  | CancelCtx nat
  | SpawnCheck nat
  | SpawnStart nat start_outcomes
  | SpawnWake nat
  | SpawnAbort nat
  | Take nat
  | Stop nat
  | Closed nat bool
  | Write nat heap "string option"
  | Read nat read_outcome
  | Cancel
  | Drain

fun pool_act :: "pool_action \<Rightarrow> pool \<Rightarrow> pool option" where
  "pool_act (Enter req) p = Some (call_enter req p)"
| "pool_act (Check j) p = call_check j p"
| "pool_act (Affinity j) p = call_affinity j p"
| "pool_act (Shared j k) p = call_shared j k p"
| "pool_act (GiveUp j) p = call_give_up j p"
| "pool_act (SeeShutdown j) p = call_see_shutdown j p"
| "pool_act (Count j) p = call_count j p"
| "pool_act (Return j) p = call_return j p"
| "pool_act (CancelCtx j) p = call_cancel j p"
| "pool_act (SpawnCheck k) p = slot_check k p"
| "pool_act (SpawnStart k so) p = slot_start k so p"
| "pool_act (SpawnWake k) p = slot_wake k p"
| "pool_act (SpawnAbort k) p = slot_sleep_done k p"
| "pool_act (Take k) p = slot_take k p"
| "pool_act (Stop k) p = slot_stop k p"
| "pool_act (Closed k g) p = slot_closed k g p"
| "pool_act (Write k h wrote) p = slot_write k h wrote p"
| "pool_act (Read k got) p = slot_read k got p"
| "pool_act Cancel p = shutdown_cancel p"
| "pool_act Drain p = shutdown_drain p"

end
