(* ===== verification/PoolJobs.thy ===== *)
theory PoolJobs
  imports Pool
begin

text \<open>
  Invariants of the worker pool. The state functions below count where a job is; the main invariant
  says that every submitted job is in exactly one place (an affinity buffer, a slot, or its answer
  channel), so no job is lost, duplicated or answered twice.
\<close>

section \<open>Projections of the small updates\<close>

lemma upd_simps [simp]:
  "pl_slots (set_slot k s p) = (pl_slots p)[k := s]"
  "pl_affinity (set_slot k s p) = pl_affinity p"
  "pl_calls (set_slot k s p) = pl_calls p"
  "pl_size (set_slot k s p) = pl_size p"
  "pl_busy (set_slot k s p) = pl_busy p"
  "pl_affinityHits (set_slot k s p) = pl_affinityHits p"
  "pl_affinitySpills (set_slot k s p) = pl_affinitySpills p"
  "pl_affinityEnabled (set_slot k s p) = pl_affinityEnabled p"
  "pl_done (set_slot k s p) = pl_done p"
  "pl_drained (set_slot k s p) = pl_drained p"
  "pl_started (set_slot k s p) = pl_started p"
  "pl_reaped (set_slot k s p) = pl_reaped p"
  "pl_headroomVer (set_slot k s p) = pl_headroomVer p"
  "pl_slots (set_buffer k b p) = pl_slots p"
  "pl_affinity (set_buffer k b p) = (pl_affinity p)[k := b]"
  "pl_calls (set_buffer k b p) = pl_calls p"
  "pl_size (set_buffer k b p) = pl_size p"
  "pl_busy (set_buffer k b p) = pl_busy p"
  "pl_affinityHits (set_buffer k b p) = pl_affinityHits p"
  "pl_affinitySpills (set_buffer k b p) = pl_affinitySpills p"
  "pl_affinityEnabled (set_buffer k b p) = pl_affinityEnabled p"
  "pl_done (set_buffer k b p) = pl_done p"
  "pl_drained (set_buffer k b p) = pl_drained p"
  "pl_started (set_buffer k b p) = pl_started p"
  "pl_reaped (set_buffer k b p) = pl_reaped p"
  "pl_headroomVer (set_buffer k b p) = pl_headroomVer p"
  "pl_slots (upd_call j f p) = pl_slots p"
  "pl_affinity (upd_call j f p) = pl_affinity p"
  "pl_calls (upd_call j f p) = (pl_calls p)[j := f (pl_calls p ! j)]"
  "pl_size (upd_call j f p) = pl_size p"
  "pl_busy (upd_call j f p) = pl_busy p"
  "pl_affinityHits (upd_call j f p) = pl_affinityHits p"
  "pl_affinitySpills (upd_call j f p) = pl_affinitySpills p"
  "pl_affinityEnabled (upd_call j f p) = pl_affinityEnabled p"
  "pl_done (upd_call j f p) = pl_done p"
  "pl_drained (upd_call j f p) = pl_drained p"
  "pl_started (upd_call j f p) = pl_started p"
  "pl_reaped (upd_call j f p) = pl_reaped p"
  "pl_headroomVer (upd_call j f p) = pl_headroomVer p"
  by (simp_all add: set_slot_def set_buffer_def upd_call_def)

lemmas call_upd_defs = set_phase_def answer_def sent_def

lemma call_upd_simps [simp]:
  "pl_slots (answer j r p) = pl_slots p"
  "pl_affinity (answer j r p) = pl_affinity p"
  "length (pl_calls (answer j r p)) = length (pl_calls p)"
  "pl_size (answer j r p) = pl_size p"
  "pl_busy (answer j r p) = pl_busy p"
  "pl_affinityEnabled (answer j r p) = pl_affinityEnabled p"
  "pl_affinityHits (answer j r p) = pl_affinityHits p"
  "pl_affinitySpills (answer j r p) = pl_affinitySpills p"
  "pl_done (answer j r p) = pl_done p"
  "pl_drained (answer j r p) = pl_drained p"
  "pl_started (answer j r p) = pl_started p"
  "pl_reaped (answer j r p) = pl_reaped p"
  "pl_slots (set_phase j ph p) = pl_slots p"
  "pl_affinity (set_phase j ph p) = pl_affinity p"
  "length (pl_calls (set_phase j ph p)) = length (pl_calls p)"
  "pl_size (set_phase j ph p) = pl_size p"
  "pl_busy (set_phase j ph p) = pl_busy p"
  "pl_affinityEnabled (set_phase j ph p) = pl_affinityEnabled p"
  "pl_affinityHits (set_phase j ph p) = pl_affinityHits p"
  "pl_affinitySpills (set_phase j ph p) = pl_affinitySpills p"
  "pl_done (set_phase j ph p) = pl_done p"
  "pl_drained (set_phase j ph p) = pl_drained p"
  "pl_started (set_phase j ph p) = pl_started p"
  "pl_reaped (set_phase j ph p) = pl_reaped p"
  "pl_slots (sent j rt af p) = pl_slots p"
  "pl_affinity (sent j rt af p) = pl_affinity p"
  "length (pl_calls (sent j rt af p)) = length (pl_calls p)"
  "pl_size (sent j rt af p) = pl_size p"
  "pl_busy (sent j rt af p) = pl_busy p"
  "pl_affinityEnabled (sent j rt af p) = pl_affinityEnabled p"
  "pl_affinityHits (sent j rt af p) = pl_affinityHits p"
  "pl_affinitySpills (sent j rt af p) = pl_affinitySpills p"
  "pl_done (sent j rt af p) = pl_done p"
  "pl_drained (sent j rt af p) = pl_drained p"
  "pl_started (sent j rt af p) = pl_started p"
  "pl_reaped (sent j rt af p) = pl_reaped p"
  by (simp_all add: call_upd_defs)

lemma slotFor_nonneg [simp]: "0 \<le> slotFor key sz"
  by (simp add: slotFor_def)

section \<open>Counting\<close>

fun job_of :: "slot \<Rightarrow> nat option" where
  "job_of (Spawning (Retry j) b ph) = Some j"
| "job_of (Spawning (Reply j e) b ph) = Some j"
| "job_of (Writing w j) = Some j"
| "job_of (Reading w j) = Some j"
| "job_of _ = None"

fun running :: "slot \<Rightarrow> bool" where
  "running (Writing w j) = True"
| "running (Reading w j) = True"
| "running _ = False"

fun live :: "slot \<Rightarrow> bool" where
  "live (Parked (Some w)) = True"
| "live (Writing w j) = True"
| "live (Reading w j) = True"
| "live (Closing w) = True"
| "live _ = False"

definition count_slots :: "(slot \<Rightarrow> bool) \<Rightarrow> pool \<Rightarrow> int" where
  "count_slots P p = int (length (filter P (pl_slots p)))"

definition in_buffers :: "pool \<Rightarrow> nat \<Rightarrow> int" where
  "in_buffers p i = int (\<Sum>b\<leftarrow>pl_affinity p. count_list b i)"

definition answered :: "pool \<Rightarrow> nat \<Rightarrow> int" where
  "answered p i = (if i < length (pl_calls p) \<and> ca_resp (pl_calls p ! i) \<noteq> None then 1 else 0)"

definition submitted :: "pool \<Rightarrow> nat \<Rightarrow> int" where
  "submitted p i = (if i < length (pl_calls p) \<and> ca_sent (pl_calls p ! i) \<noteq> None then 1 else 0)"

definition places :: "pool \<Rightarrow> nat \<Rightarrow> int" where
  "places p i = in_buffers p i + count_slots (\<lambda>s. job_of s = Some i) p + answered p i"

lemma count_slots_update:
  "k < length (pl_slots p) \<Longrightarrow>
   count_slots P (set_slot k s p) = count_slots P p - of_bool (P (pl_slots p ! k)) + of_bool (P s)"
  using length_filter_update [of k "pl_slots p" P s]
  by (cases "P (pl_slots p ! k)"; cases "P s") (simp_all add: count_slots_def)

lemma in_buffers_update:
  "k < length (pl_affinity p) \<Longrightarrow>
   in_buffers (set_buffer k b p) i =
     in_buffers p i - int (count_list (pl_affinity p ! k) i) + int (count_list b i)"
  using sum_list_update_nat [of k "map (\<lambda>b. count_list b i) (pl_affinity p)" "count_list b i"]
  by (simp add: in_buffers_def map_update)

lemma count_slots_frame [simp]:
  "count_slots P (set_buffer k b p) = count_slots P p"
  "count_slots P (upd_call j f p) = count_slots P p"
  by (simp_all add: count_slots_def)

lemma in_buffers_frame [simp]:
  "in_buffers (set_slot k s p) i = in_buffers p i"
  "in_buffers (upd_call j f p) i = in_buffers p i"
  by (simp_all add: in_buffers_def)

lemma answered_frame [simp]:
  "answered (set_slot k s p) i = answered p i"
  "answered (set_buffer k b p) i = answered p i"
  by (simp_all add: answered_def)

lemma submitted_frame [simp]:
  "submitted (set_slot k s p) i = submitted p i"
  "submitted (set_buffer k b p) i = submitted p i"
  by (simp_all add: submitted_def)

lemma answered_calls:
  "j < length (pl_calls p) \<Longrightarrow>
   answered (answer j r p) i = (if i = j then 1 else answered p i)"
  "answered (set_phase j ph p) i = answered p i"
  "answered (sent j rt af p) i = answered p i"
  by (cases "i = j"; auto simp: answered_def call_upd_defs)+

lemma submitted_calls:
  "submitted (answer j r p) i = submitted p i"
  "submitted (set_phase j ph p) i = submitted p i"
  "j < length (pl_calls p) \<Longrightarrow> submitted (sent j rt af p) i = (if i = j then 1 else submitted p i)"
  by (cases "i = j"; auto simp: submitted_def call_upd_defs)+

text \<open>Scalar fields do not matter for the counts.\<close>

lemma count_cong:
  "pl_slots p = pl_slots q \<Longrightarrow> count_slots P p = count_slots P q"
  "pl_affinity p = pl_affinity q \<Longrightarrow> in_buffers p i = in_buffers q i"
  "pl_calls p = pl_calls q \<Longrightarrow> answered p i = answered q i"
  "pl_calls p = pl_calls q \<Longrightarrow> submitted p i = submitted q i"
  by (simp_all add: count_slots_def in_buffers_def answered_def submitted_def)


section \<open>Conservation of jobs\<close>

definition conserved :: "pool \<Rightarrow> bool" where
  "conserved p \<longleftrightarrow> (\<forall>i. places p i = submitted p i)"

definition shape :: "pool \<Rightarrow> bool" where
  "shape p \<longleftrightarrow>
     0 \<le> pl_size p \<and> length (pl_slots p) = nat (pl_size p) \<and>
     length (pl_affinity p) = nat (pl_size p) \<and> (\<forall>b \<in> set (pl_affinity p). length b \<le> 1)"

lemma places_nonneg: "0 \<le> in_buffers p i" "0 \<le> count_slots P p" "0 \<le> answered p i" "answered p i \<le> 1"
  "submitted p i \<le> 1"
  by (simp_all add: in_buffers_def count_slots_def answered_def submitted_def)

text \<open>A job that a slot holds has been submitted and not answered.\<close>

lemma job_in_slot:
  assumes "conserved p" and "k < length (pl_slots p)" and "job_of (pl_slots p ! k) = Some j"
  shows "j < length (pl_calls p) \<and> answered p j = 0 \<and> in_buffers p j = 0 \<and> submitted p j = 1"
proof -
  have "pl_slots p ! k \<in> set (filter (\<lambda>s. job_of s = Some j) (pl_slots p))"
    using assms(2,3) by simp
  then have "filter (\<lambda>s. job_of s = Some j) (pl_slots p) \<noteq> []" by (metis list.set_cases list.distinct(1))
  then have "1 \<le> count_slots (\<lambda>s. job_of s = Some j) p" by (simp add: count_slots_def Suc_le_eq)
  moreover have "places p j = submitted p j" using assms(1) by (simp add: conserved_def)
  ultimately have "answered p j = 0 \<and> in_buffers p j = 0 \<and> submitted p j = 1"
    using places_nonneg(1,3,5) [of p j] by (simp add: places_def)
  moreover from this have "j < length (pl_calls p)" by (auto simp: submitted_def split: if_splits)
  ultimately show ?thesis by simp
qed

lemma job_in_buffer:
  assumes "conserved p" and "k < length (pl_affinity p)" and "j \<in> set (pl_affinity p ! k)"
  shows "j < length (pl_calls p) \<and> answered p j = 0 \<and> submitted p j = 1 \<and> in_buffers p j = 1"
proof -
  have "count_list (pl_affinity p ! k) j \<in> set (map (\<lambda>b. count_list b j) (pl_affinity p))"
    using assms(2) by simp
  moreover have "1 \<le> count_list (pl_affinity p ! k) j"
    using assms(3) by (metis One_nat_def Suc_leI count_list_0_iff gr0I)
  ultimately have "1 \<le> in_buffers p j"
    unfolding in_buffers_def using member_le_sum_list [of _ "map (\<lambda>b. count_list b j) (pl_affinity p)"]
    by fastforce
  moreover have "places p j = submitted p j" using assms(1) by (simp add: conserved_def)
  ultimately have "answered p j = 0 \<and> submitted p j = 1 \<and> in_buffers p j = 1"
    using places_nonneg(3,5) [of p j] places_nonneg(2) [of "\<lambda>s. job_of s = Some j" p]
    by (simp add: places_def)
  moreover from this have "j < length (pl_calls p)" by (auto simp: submitted_def split: if_splits)
  ultimately show ?thesis by simp
qed

lemma places_set_slot:
  "k < length (pl_slots p) \<Longrightarrow>
   places (set_slot k s p) i =
     places p i - of_bool (job_of (pl_slots p ! k) = Some i) + of_bool (job_of s = Some i)"
  by (simp add: places_def count_slots_update)

lemma places_set_buffer:
  "k < length (pl_affinity p) \<Longrightarrow>
   places (set_buffer k b p) i =
     places p i - int (count_list (pl_affinity p ! k) i) + int (count_list b i)"
  by (simp add: places_def in_buffers_update)

lemma places_calls:
  "j < length (pl_calls p) \<Longrightarrow>
   places (answer j r p) i = places p i + of_bool (i = j \<and> answered p j = 0)"
  "places (set_phase j ph p) i = places p i"
  "places (sent j rt af p) i = places p i"
  by (simp_all add: places_def answered_calls) (simp_all add: call_upd_defs answered_def split: if_splits)

lemma places_scalar [simp]:
  "places (p\<lparr>pl_busy := x\<rparr>) i = places p i"
  "places (p\<lparr>pl_started := n\<rparr>) i = places p i"
  "places (p\<lparr>pl_reaped := n\<rparr>) i = places p i"
  "places (p\<lparr>pl_affinityHits := x\<rparr>) i = places p i"
  "places (p\<lparr>pl_affinitySpills := x\<rparr>) i = places p i"
  "places (p\<lparr>pl_done := b\<rparr>) i = places p i"
  "places (p\<lparr>pl_drained := n\<rparr>) i = places p i"
  "submitted (p\<lparr>pl_busy := x\<rparr>) i = submitted p i"
  "submitted (p\<lparr>pl_started := n\<rparr>) i = submitted p i"
  "submitted (p\<lparr>pl_reaped := n\<rparr>) i = submitted p i"
  "submitted (p\<lparr>pl_affinityHits := x\<rparr>) i = submitted p i"
  "submitted (p\<lparr>pl_affinitySpills := x\<rparr>) i = submitted p i"
  "submitted (p\<lparr>pl_done := b\<rparr>) i = submitted p i"
  "submitted (p\<lparr>pl_drained := n\<rparr>) i = submitted p i"
  by (simp_all add: places_def count_slots_def in_buffers_def answered_def submitted_def)


section \<open>What every call satisfies\<close>

fun phase_ok :: "pool \<Rightarrow> call \<Rightarrow> call_phase \<Rightarrow> bool" where
  "phase_ok p c Entering \<longleftrightarrow> ca_sent c = None"
| "phase_ok p c AtAffinity \<longleftrightarrow> ca_sent c = None \<and> affined p (ca_req c)"
| "phase_ok p c AtShared \<longleftrightarrow> ca_sent c = None"
| "phase_ok p c Panicked \<longleftrightarrow>
     ca_sent c = None \<and> pl_size p \<le> slotFor (rq_AffinityKey (ca_req c)) (pl_size p)"
| "phase_ok p c (Counting hit) \<longleftrightarrow>
     affined p (ca_req c) \<and> (\<exists>k. ca_sent c = Some (if hit then Hit k else Spill k))"
| "phase_ok p c Waiting \<longleftrightarrow> ca_sent c \<noteq> None"
| "phase_ok p c (Returned r) \<longleftrightarrow>
     r = Inl CtxError \<or> (r = Inl ShuttingDown \<and> ca_sent c = None) \<or> ca_resp c = Some r"

definition call_ok :: "pool \<Rightarrow> call \<Rightarrow> bool" where
  "call_ok p c \<longleftrightarrow>
     phase_ok p c (ca_phase c) \<and>
     (\<forall>k. ca_sent c = Some (Hit k) \<longrightarrow>
        affined p (ca_req c) \<and> int k = slotFor (rq_AffinityKey (ca_req c)) (pl_size p) \<and> int k < pl_size p) \<and>
     (\<forall>res. ca_resp c = Some (Inr res) \<longrightarrow>
        (\<exists>k. ca_sent c \<in> {Some (Hit k), Some (Spill k)} \<and> rs_Slot res = int k))"

lemma phase_ok_upd [simp]:
  "phase_ok p (c\<lparr>ca_phase := x\<rparr>) ph = phase_ok p c ph"
  "phase_ok p (c\<lparr>ca_ctx := b\<rparr>) ph = phase_ok p c ph"
  by (cases ph; simp)+

definition calls_ok :: "pool \<Rightarrow> bool" where
  "calls_ok p \<longleftrightarrow> (\<forall>c \<in> set (pl_calls p). call_ok p c)"

definition routed :: "pool \<Rightarrow> bool" where
  "routed p \<longleftrightarrow>
     (\<forall>k j. k < length (pl_slots p) \<longrightarrow> job_of (pl_slots p ! k) = Some j \<longrightarrow>
        ca_sent (pl_calls p ! j) \<in> {Some (Hit k), Some (Spill k)}) \<and>
     (\<forall>k j. k < length (pl_affinity p) \<longrightarrow> j \<in> set (pl_affinity p ! k) \<longrightarrow>
        ca_sent (pl_calls p ! j) = Some (Hit k))"

lemma call_at: "calls_ok p \<Longrightarrow> j < length (pl_calls p) \<Longrightarrow> call_ok p (pl_calls p ! j)"
  by (simp add: calls_ok_def)

section \<open>The composite updates\<close>

lemma is_parked_job: "is_parked s \<Longrightarrow> job_of s = None \<and> \<not> running s"
  by (cases s) (auto simp: is_parked_def)

lemma receive_places:
  assumes "k < length (pl_slots p)" and "is_parked (pl_slots p ! k)"
  shows "places (receive k j p) i = places p i + of_bool (i = j)"
  using assms by (auto simp: receive_def places_set_slot is_parked_def split: slot.splits option.splits)

lemma receive_frame:
  "submitted (receive k j p) i = submitted p i"
  "pl_calls (receive k j p) = pl_calls p"
  "pl_affinity (receive k j p) = pl_affinity p"
  "pl_size (receive k j p) = pl_size p"
  "length (pl_slots (receive k j p)) = length (pl_slots p)"
  "pl_done (receive k j p) = pl_done p"
  "pl_drained (receive k j p) = pl_drained p"
  "pl_affinityEnabled (receive k j p) = pl_affinityEnabled p"
  "pl_affinityHits (receive k j p) = pl_affinityHits p"
  "pl_affinitySpills (receive k j p) = pl_affinitySpills p"
  "pl_started (receive k j p) = pl_started p"
  "pl_reaped (receive k j p) = pl_reaped p"
  by (auto simp: receive_def split: slot.split option.split)

lemma recycle_places:
  assumes "k < length (pl_slots p)" and "job_of (pl_slots p ! k) = Some j"
  shows "places (recycle k j e p) i = places p i"
  using assms by (auto simp: recycle_def places_set_slot)

lemma spawned_places:
  assumes "k < length (pl_slots p)" and "pl_slots p ! k = Spawning af b ph" and "conserved p"
  shows "places (spawned k af w p) i = places p i"
proof (cases af)
  case (Reply j e)
  with job_in_slot [OF assms(3,1), of j] assms show ?thesis
    by (auto simp: spawned_def places_set_slot places_calls)
qed (use assms in \<open>auto simp: spawned_def places_set_slot\<close>)

lemma spawn_nil_places:
  assumes "k < length (pl_slots p)" and "pl_slots p ! k = Spawning af b ph" and "conserved p"
  shows "places (spawn_nil k af p) i = places p i"
proof (cases af)
  case (Reply j e)
  with job_in_slot [OF assms(3,1), of j] assms show ?thesis
    by (auto simp: spawn_nil_def places_set_slot places_calls)
next
  case (Retry j)
  with job_in_slot [OF assms(3,1), of j] assms show ?thesis
    by (auto simp: spawn_nil_def places_set_slot places_calls)
qed (use assms in \<open>auto simp: spawn_nil_def places_set_slot\<close>)


lemma spawned_submitted: "submitted (spawned k af w p) i = submitted p i"
  by (cases af) (simp_all add: spawned_def submitted_calls)

lemma spawn_nil_submitted: "submitted (spawn_nil k af p) i = submitted p i"
  by (cases af) (simp_all add: spawn_nil_def submitted_calls)

lemma recycle_submitted: "submitted (recycle k j e p) i = submitted p i"
  by (simp add: recycle_def)

section \<open>Conservation is kept\<close>

lemma conserved_scalar [simp]:
  "conserved (p\<lparr>pl_busy := x\<rparr>) = conserved p"
  "conserved (p\<lparr>pl_started := n\<rparr>) = conserved p"
  "conserved (p\<lparr>pl_reaped := n\<rparr>) = conserved p"
  "conserved (p\<lparr>pl_affinityHits := x\<rparr>) = conserved p"
  "conserved (p\<lparr>pl_affinitySpills := x\<rparr>) = conserved p"
  "conserved (p\<lparr>pl_done := b\<rparr>) = conserved p"
  "conserved (p\<lparr>pl_drained := n\<rparr>) = conserved p"
  "conserved (p\<lparr>pl_headroomVer := v\<rparr>) = conserved p"
  by (simp_all add: conserved_def places_def count_slots_def in_buffers_def answered_def submitted_def)

lemma conserved_set_phase [simp]: "conserved (set_phase j ph p) = conserved p"
  by (simp add: conserved_def places_calls submitted_calls)

lemma unsent:
  assumes "calls_ok p" and "j < length (pl_calls p)"
    and "ca_phase (pl_calls p ! j) \<in> {Entering, AtAffinity, AtShared, Panicked}"
  shows "ca_sent (pl_calls p ! j) = None" and "submitted p j = 0"
  using call_at [OF assms(1,2)] assms(3) by (auto simp: call_ok_def submitted_def)

lemma conserved_send_slot:
  assumes "conserved p" and "calls_ok p" and "j < length (pl_calls p)"
    and "ca_phase (pl_calls p ! j) \<in> {AtAffinity, AtShared}"
    and "k < length (pl_slots p)" and "is_parked (pl_slots p ! k)"
  shows "conserved (receive k j (sent j rt af p))"
proof -
  have "submitted p j = 0" using unsent [OF assms(2,3)] assms(4) by auto
  with assms show ?thesis
    by (auto simp: conserved_def receive_places receive_frame places_calls submitted_calls)
qed

lemma conserved_send_buffer:
  assumes "conserved p" and "calls_ok p" and "j < length (pl_calls p)"
    and "ca_phase (pl_calls p ! j) = AtAffinity" and "k < length (pl_affinity p)"
  shows "conserved (set_buffer k (pl_affinity p ! k @ [j]) (sent j rt af p))"
proof -
  have "submitted p j = 0" using unsent [OF assms(2,3)] assms(4) by auto
  with assms show ?thesis
    by (auto simp: conserved_def places_set_buffer places_calls submitted_calls)
qed

lemma conserved_take:
  assumes "conserved p" and "k < length (pl_slots p)" and "is_parked (pl_slots p ! k)"
    and "k < length (pl_affinity p)" and "pl_affinity p ! k = j # rest"
  shows "conserved (receive k j (set_buffer k rest p))"
  using assms by (auto simp: conserved_def receive_places receive_frame places_set_buffer)

lemma answer_all_frame [simp]:
  "pl_slots (answer_all js p) = pl_slots p"
  "pl_affinity (answer_all js p) = pl_affinity p"
  "length (pl_calls (answer_all js p)) = length (pl_calls p)"
  "pl_size (answer_all js p) = pl_size p"
  "pl_affinityEnabled (answer_all js p) = pl_affinityEnabled p"
  "pl_done (answer_all js p) = pl_done p"
  "pl_drained (answer_all js p) = pl_drained p"
  "pl_busy (answer_all js p) = pl_busy p"
  "pl_started (answer_all js p) = pl_started p"
  "pl_reaped (answer_all js p) = pl_reaped p"
  "pl_affinityHits (answer_all js p) = pl_affinityHits p"
  "pl_affinitySpills (answer_all js p) = pl_affinitySpills p"
  by (induction js p rule: answer_all.induct) simp_all

lemma conserved_drain:
  assumes "conserved p" and "shape p" and "d < length (pl_affinity p)"
  shows "conserved (set_buffer d [] (answer_all (pl_affinity p ! d) p))"
proof -
  have "length (pl_affinity p ! d) \<le> 1" using assms(2,3) by (simp add: shape_def)
  then consider "pl_affinity p ! d = []" | j where "pl_affinity p ! d = [j]"
    by (cases "pl_affinity p ! d") auto
  then show ?thesis
  proof cases
    case 1
    with assms show ?thesis by (simp add: conserved_def places_set_buffer)
  next
    case 2
    with job_in_buffer [OF assms(1,3), of j] assms show ?thesis
      by (auto simp: conserved_def places_set_buffer places_calls submitted_calls)
  qed
qed


lemmas pool_step_defs = call_check_def call_affinity_def call_shared_def call_give_up_def
  call_see_shutdown_def call_count_def call_return_def call_cancel_def slot_check_def slot_start_def
  slot_wake_def slot_sleep_done_def slot_take_def slot_stop_def slot_closed_def slot_write_def
  slot_read_def shutdown_cancel_def shutdown_drain_def

lemma conserved_enter: "conserved p \<Longrightarrow> conserved (call_enter req p)"
proof -
  assume c: "conserved p"
  have "answered (call_enter req p) i = answered p i" "submitted (call_enter req p) i = submitted p i" for i
    by (auto simp: call_enter_def answered_def submitted_def nth_append)
  moreover have "in_buffers (call_enter req p) i = in_buffers p i"
    "count_slots P (call_enter req p) = count_slots P p" for i P
    by (simp_all add: call_enter_def in_buffers_def count_slots_def)
  ultimately show ?thesis using c by (simp add: conserved_def places_def)
qed

lemma conserved_set_slot:
  "conserved p \<Longrightarrow> k < length (pl_slots p) \<Longrightarrow> job_of (pl_slots p ! k) = job_of s \<Longrightarrow>
   conserved (set_slot k s p)"
  by (simp add: conserved_def places_set_slot)

lemma job_of_spawning: "job_of (Spawning af b ph) = job_of (Spawning af b' ph')"
  by (cases af) simp_all

lemma conserved_spawned:
  "conserved p \<Longrightarrow> k < length (pl_slots p) \<Longrightarrow> pl_slots p ! k = Spawning af b ph \<Longrightarrow>
   conserved (spawned k af w p)"
  using spawned_places spawned_submitted by (simp add: conserved_def)

lemma conserved_spawn_nil:
  "conserved p \<Longrightarrow> k < length (pl_slots p) \<Longrightarrow> pl_slots p ! k = Spawning af b ph \<Longrightarrow>
   conserved (spawn_nil k af p)"
  using spawn_nil_places spawn_nil_submitted by (simp add: conserved_def)

lemma conserved_spawning:
  "conserved p \<Longrightarrow> k < length (pl_slots p) \<Longrightarrow> pl_slots p ! k = Spawning af b ph \<Longrightarrow>
   conserved (set_slot k (Spawning af b' ph') p)"
  by (rule conserved_set_slot) (auto intro: job_of_spawning)

lemma conserved_recycle:
  "conserved p \<Longrightarrow> k < length (pl_slots p) \<Longrightarrow> job_of (pl_slots p ! k) = Some j \<Longrightarrow>
   conserved (recycle k j e p)"
  using recycle_places recycle_submitted by (simp add: conserved_def)

lemma conserved_cancel_ctx: "conserved p \<Longrightarrow> conserved (upd_call j (\<lambda>c. c\<lparr>ca_ctx := x\<rparr>) p)"
proof -
  assume c: "conserved p"
  have "answered (upd_call j (\<lambda>c. c\<lparr>ca_ctx := x\<rparr>) p) i = answered p i"
    "submitted (upd_call j (\<lambda>c. c\<lparr>ca_ctx := x\<rparr>) p) i = submitted p i" for i
    by (cases "i = j"; auto simp: answered_def submitted_def)+
  with c show ?thesis by (simp add: conserved_def places_def)
qed

lemma conserved_read_ok:
  assumes "conserved p" and "k < length (pl_slots p)" and "pl_slots p ! k = Reading w j"
  shows "conserved (set_slot k (Parked (Some w)) (answer j r (p\<lparr>pl_busy := x\<rparr>)))"
proof -
  from assms have "job_of (pl_slots p ! k) = Some j" by simp
  from job_in_slot [OF assms(1,2) this] have j: "j < length (pl_calls p)" "answered p j = 0" by auto
  let ?p = "p\<lparr>pl_busy := x\<rparr>"
  have "answered ?p j = 0" using j(2) by (simp add: answered_def)
  with j assms show ?thesis
    by (auto simp: conserved_def places_set_slot places_calls submitted_calls)
qed

lemma conserved_act:
  assumes "conserved p" and "calls_ok p" and "shape p" and "pool_act a p = Some p'"
  shows "conserved p'"
proof (cases a)
  case (Affinity j)
  let ?k = "nat (slotFor (rq_AffinityKey (ca_req (pl_calls p ! j))) (pl_size p))"
  have len: "length (pl_slots p) = length (pl_affinity p)" using assms(3) by (simp add: shape_def)
  from assms(4) Affinity have j: "j < length (pl_calls p)" "ca_phase (pl_calls p ! j) = AtAffinity"
    by (auto simp: call_affinity_def split: if_splits)
  then have ph: "ca_phase (pl_calls p ! j) \<in> {AtAffinity, AtShared}" by simp
  show ?thesis
    using assms(1,4) Affinity j len conserved_send_slot [OF assms(1,2) j(1) ph, of ?k]
      conserved_send_buffer [OF assms(1,2) j, of ?k]
    by (auto simp: call_affinity_def Let_def split: if_splits)
next
  case (Shared j k)
  with assms conserved_send_slot [OF assms(1,2), of j k] show ?thesis
    by (auto simp: call_shared_def split: if_splits)
next
  case (Take k)
  with assms conserved_take [OF assms(1), of k] show ?thesis
    by (auto simp: slot_take_def shape_def split: if_splits list.splits)
next
  case Drain
  let ?d = "pl_drained p" and ?p = "p\<lparr>pl_drained := pl_drained p + 1\<rparr>"
  from assms have "conserved ?p" "shape ?p" by (simp_all add: shape_def)
  from conserved_drain [OF this, of ?d] assms(4) Drain show ?thesis
    by (auto simp: shutdown_drain_def split: if_splits)
next
  case (SpawnStart k so)
  with assms(4) obtain af b where k: "k < length (pl_slots p)" "pl_slots p ! k = Spawning af b Starting"
    by (auto simp: slot_start_def split: if_splits slot.splits spawn_phase.splits)
  let ?p = "\<lambda>w :: worker. recordHeadroomVersion (wk_headroomVersion w) (p\<lparr>pl_started := pl_started p + 1\<rparr>)"
  have "conserved (?p w)" "pl_slots (?p w) = pl_slots p" for w
    using assms(1) by (simp_all add: recordHeadroomVersion_def)
  then have ok: "conserved (spawned k af w (?p w))" for w using k by (intro conserved_spawned) simp_all
  have failed: "conserved (set_slot k (Spawning af b Sleeping) (p\<lparr>pl_started := n, pl_reaped := m\<rparr>))" for n m
    by (rule conserved_spawning [where b = b and ph = Starting]) (use assms(1) k in simp_all)
  obtain r evs where r: "startWorker so k = (r, evs)" by fastforce
  show ?thesis
    using assms(4) SpawnStart k r ok failed by (cases r) (auto simp: slot_start_def)
qed (use assms(1,4) in \<open>auto simp: pool_step_defs conserved_enter conserved_set_slot
    conserved_cancel_ctx conserved_recycle conserved_read_ok
    intro: conserved_spawned conserved_spawn_nil conserved_spawning
    split: if_splits slot.splits spawn_phase.splits sum.splits prod.splits option.splits
      after_spawn.splits call_phase.splits\<close>)

end
