(* ===== verification/PoolInv.thy ===== *)
theory PoolInv
  imports PoolJobs
begin

text \<open>
  The rest of the pool's invariant: the shape of the state, what each call's phase says about its
  job, the routing of jobs to slots, the saturation gauge and the process accounts, the affinity
  counters, the backoff range, and the order of shutdown. \<open>pool_act\<close> is interpreted as a
  \<open>step_system\<close> at the end.
\<close>

section \<open>Shape\<close>

lemma spawned_frame [simp]:
  "pl_size (spawned k af w p) = pl_size p" "pl_affinity (spawned k af w p) = pl_affinity p"
  "length (pl_slots (spawned k af w p)) = length (pl_slots p)"
  "pl_affinityEnabled (spawned k af w p) = pl_affinityEnabled p"
  "pl_done (spawned k af w p) = pl_done p" "pl_drained (spawned k af w p) = pl_drained p"
  "length (pl_calls (spawned k af w p)) = length (pl_calls p)"
  "pl_affinityHits (spawned k af w p) = pl_affinityHits p"
  "pl_affinitySpills (spawned k af w p) = pl_affinitySpills p"
  "pl_started (spawned k af w p) = pl_started p" "pl_reaped (spawned k af w p) = pl_reaped p"
  by (cases af; simp add: spawned_def)+

lemma spawn_nil_frame [simp]:
  "pl_size (spawn_nil k af p) = pl_size p" "pl_affinity (spawn_nil k af p) = pl_affinity p"
  "length (pl_slots (spawn_nil k af p)) = length (pl_slots p)"
  "pl_affinityEnabled (spawn_nil k af p) = pl_affinityEnabled p"
  "pl_done (spawn_nil k af p) = pl_done p" "pl_drained (spawn_nil k af p) = pl_drained p"
  "pl_busy (spawn_nil k af p) = pl_busy p"
  "length (pl_calls (spawn_nil k af p)) = length (pl_calls p)"
  "pl_affinityHits (spawn_nil k af p) = pl_affinityHits p"
  "pl_affinitySpills (spawn_nil k af p) = pl_affinitySpills p"
  "pl_started (spawn_nil k af p) = pl_started p" "pl_reaped (spawn_nil k af p) = pl_reaped p"
  by (cases af; simp add: spawn_nil_def)+

lemma recycle_frame [simp]:
  "pl_size (recycle k j e p) = pl_size p" "pl_affinity (recycle k j e p) = pl_affinity p"
  "length (pl_slots (recycle k j e p)) = length (pl_slots p)"
  "pl_affinityEnabled (recycle k j e p) = pl_affinityEnabled p"
  "pl_done (recycle k j e p) = pl_done p" "pl_drained (recycle k j e p) = pl_drained p"
  "pl_calls (recycle k j e p) = pl_calls p"
  "pl_affinityHits (recycle k j e p) = pl_affinityHits p"
  "pl_affinitySpills (recycle k j e p) = pl_affinitySpills p"
  "pl_started (recycle k j e p) = pl_started p"
  by (simp_all add: recycle_def)

lemma version_frame [simp]:
  "pl_size (recordHeadroomVersion v p) = pl_size p"
  "pl_affinity (recordHeadroomVersion v p) = pl_affinity p"
  "pl_slots (recordHeadroomVersion v p) = pl_slots p"
  "pl_calls (recordHeadroomVersion v p) = pl_calls p"
  "pl_affinityEnabled (recordHeadroomVersion v p) = pl_affinityEnabled p"
  "pl_done (recordHeadroomVersion v p) = pl_done p"
  "pl_drained (recordHeadroomVersion v p) = pl_drained p"
  "pl_busy (recordHeadroomVersion v p) = pl_busy p"
  "pl_affinityHits (recordHeadroomVersion v p) = pl_affinityHits p"
  "pl_affinitySpills (recordHeadroomVersion v p) = pl_affinitySpills p"
  "pl_started (recordHeadroomVersion v p) = pl_started p"
  "pl_reaped (recordHeadroomVersion v p) = pl_reaped p"
  by (simp_all add: recordHeadroomVersion_def)

lemmas pool_splits = if_splits slot.splits spawn_phase.splits sum.splits prod.splits option.splits
  after_spawn.splits call_phase.splits list.splits

text \<open>What no action changes: the size, the number of slots and channels, and the switch.\<close>

lemma act_const:
  assumes "pool_act a p = Some p'"
  shows "pl_size p' = pl_size p \<and> pl_affinityEnabled p' = pl_affinityEnabled p \<and>
    length (pl_slots p') = length (pl_slots p) \<and> length (pl_affinity p') = length (pl_affinity p)"
  using assms
  by (cases a)
     (auto simp: pool_step_defs call_enter_def receive_frame Let_def split: pool_splits)

lemma buffers_update:
  "(\<forall>b \<in> set bs. length b \<le> n) \<Longrightarrow> length b \<le> n \<Longrightarrow> \<forall>b \<in> set (bs[k := b]). length b \<le> n"
  using set_update_subset_insert by fastforce

lemma shape_act:
  assumes "shape p" and "pool_act a p = Some p'"
  shows "shape p'"
proof -
  have "\<forall>b \<in> set (pl_affinity p'). length b \<le> 1"
  proof (cases a)
    case (Affinity j)
    with assms show ?thesis
      by (auto simp: shape_def call_affinity_def receive_frame Let_def split: if_splits
          dest!: set_update_subset_insert [THEN subsetD])
  next
    case (Take k)
    then obtain j rest where "pl_affinity p ! k = j # rest" "k < length (pl_affinity p)"
      and p': "pl_affinity p' = (pl_affinity p)[k := rest]"
      using assms by (auto simp: shape_def slot_take_def receive_frame split: pool_splits)
    then have "length rest \<le> 1" using assms(1) by (metis length_Cons nth_mem shape_def Suc_leD)
    with assms(1) p' buffers_update [of "pl_affinity p" 1 rest k] show ?thesis by (simp add: shape_def)
  next
    case Drain
    with assms show ?thesis
      by (auto simp: shape_def shutdown_drain_def split: if_splits
          dest!: set_update_subset_insert [THEN subsetD])
  qed (use assms in \<open>auto simp: shape_def pool_step_defs call_enter_def receive_frame Let_def split: pool_splits\<close>)
  with assms act_const [OF assms(2)] show ?thesis by (simp add: shape_def)
qed

section \<open>Calls\<close>

lemma call_ok_ctx [simp]: "call_ok p (c\<lparr>ca_ctx := x\<rparr>) = call_ok p c"
  by (simp add: call_ok_def)

lemma call_ok_phase [simp]:
  "call_ok p c \<Longrightarrow> call_ok p (c\<lparr>ca_phase := ph\<rparr>) = phase_ok p c ph"
  unfolding call_ok_def by fastforce

lemma call_phase_ok: "call_ok p c \<Longrightarrow> ca_phase c = ph \<Longrightarrow> phase_ok p c ph"
  by (simp add: call_ok_def)

lemma call_ok_cong:
  "pl_size p = pl_size q \<Longrightarrow> pl_affinityEnabled p = pl_affinityEnabled q \<Longrightarrow> call_ok p = call_ok q"
proof (rule ext)
  fix c
  assume sz: "pl_size p = pl_size q" and "pl_affinityEnabled p = pl_affinityEnabled q"
  then have af: "affined p = affined q" by (simp add: affined_def fun_eq_iff)
  have "phase_ok p c ph = phase_ok q c ph" for ph by (cases ph) (simp_all add: af sz)
  then show "call_ok p c = call_ok q c" unfolding call_ok_def sz af by simp
qed

lemma calls_ok_cong:
  "pl_size p = pl_size q \<Longrightarrow> pl_affinityEnabled p = pl_affinityEnabled q \<Longrightarrow> pl_calls p = pl_calls q \<Longrightarrow>
   calls_ok p = calls_ok q"
  using call_ok_cong [of p q] by (simp add: calls_ok_def)

lemma calls_ok_upd:
  assumes "calls_ok p" and "j < length (pl_calls p) \<Longrightarrow> call_ok p (f (pl_calls p ! j))"
  shows "calls_ok (upd_call j f p)"
proof -
  have "call_ok (upd_call j f p) = call_ok p" by (rule call_ok_cong) simp_all
  then show ?thesis
    using assms unfolding calls_ok_def
    by (cases "j < length (pl_calls p)")
       (auto simp: list_update_beyond dest!: set_update_subset_insert [THEN subsetD])
qed

lemma calls_ok_answer:
  assumes "calls_ok p" and "j < length (pl_calls p)" and "ca_resp (pl_calls p ! j) = None"
    and "\<And>res. r = Inr res \<Longrightarrow>
      \<exists>k. ca_sent (pl_calls p ! j) \<in> {Some (Hit k), Some (Spill k)} \<and> rs_Slot res = int k"
  shows "calls_ok (answer j r p)"
  unfolding answer_def
proof (rule calls_ok_upd [OF assms(1)])
  show "call_ok p ((pl_calls p ! j)\<lparr>ca_resp := Some r\<rparr>)"
    using call_at [OF assms(1,2)] assms(3,4)
    by (cases "ca_phase (pl_calls p ! j)") (auto simp: call_ok_def)
qed

lemma calls_ok_sent:
  assumes "calls_ok p" and "j < length (pl_calls p)" and "ca_resp (pl_calls p ! j) = None"
    and "af = affined p (ca_req (pl_calls p ! j))"
    and "\<And>k. rt = Hit k \<Longrightarrow> af \<and>
      int k = slotFor (rq_AffinityKey (ca_req (pl_calls p ! j))) (pl_size p) \<and> int k < pl_size p"
  shows "calls_ok (sent j rt af p)"
  unfolding sent_def
proof (rule calls_ok_upd [OF assms(1)])
  show "call_ok p ((pl_calls p ! j)\<lparr>ca_sent := Some rt,
      ca_phase := if af then Counting (case rt of Hit _ \<Rightarrow> True | Spill _ \<Rightarrow> False) else Waiting\<rparr>)"
    using assms(3,4,5) by (cases rt) (auto simp: call_ok_def)
qed

lemma unsent_unanswered:
  assumes "conserved p" and "calls_ok p" and "j < length (pl_calls p)"
    and "ca_phase (pl_calls p ! j) \<in> {Entering, AtAffinity, AtShared, Panicked}"
  shows "ca_resp (pl_calls p ! j) = None"
proof -
  have "places p j = 0" using assms(1) unsent [OF assms(2-4)] by (simp add: conserved_def)
  then have "answered p j = 0"
    using places_nonneg(1,3) [of p j] places_nonneg(2) [of "\<lambda>s. job_of s = Some j" p]
    unfolding places_def by linarith
  with assms(3) show ?thesis by (simp add: answered_def split: if_splits)
qed

lemma calls_ok_phase:
  assumes "calls_ok p" and "j < length (pl_calls p) \<Longrightarrow> phase_ok p (pl_calls p ! j) ph"
  shows "calls_ok (set_phase j ph p)"
  unfolding set_phase_def
  by (rule calls_ok_upd [OF assms(1)]) (use assms(2) call_at [OF assms(1)] in simp)

lemma calls_ok_spawned:
  assumes "calls_ok p" and "conserved p" and "k < length (pl_slots p)"
    and "pl_slots p ! k = Spawning af b ph"
  shows "calls_ok (spawned k af w p) \<and> calls_ok (spawn_nil k af p)"
proof -
  have ans: "calls_ok (answer j (Inl e) p)" if "job_of (pl_slots p ! k) = Some j" for j e
    using job_in_slot [OF assms(2,3) that] assms(1)
    by (intro calls_ok_answer) (auto simp: answered_def split: if_splits)
  have same: "calls_ok (set_slot k s q) = calls_ok q" "calls_ok (q\<lparr>pl_busy := x\<rparr>) = calls_ok q" for s q x
    by (rule calls_ok_cong; simp)+
  show ?thesis
    using ans assms(1,4) by (cases af) (auto simp: spawned_def spawn_nil_def same)
qed

lemma calls_ok_same:
  "calls_ok (set_slot k s q) = calls_ok q" "calls_ok (set_buffer k b q) = calls_ok q"
  "calls_ok (q\<lparr>pl_busy := x\<rparr>) = calls_ok q" "calls_ok (q\<lparr>pl_done := d\<rparr>) = calls_ok q"
  "calls_ok (q\<lparr>pl_reaped := n\<rparr>) = calls_ok q" "calls_ok (q\<lparr>pl_started := n\<rparr>) = calls_ok q"
  "calls_ok (q\<lparr>pl_drained := n\<rparr>) = calls_ok q"
  "calls_ok (q\<lparr>pl_affinityHits := x\<rparr>) = calls_ok q" "calls_ok (q\<lparr>pl_affinitySpills := x\<rparr>) = calls_ok q"
  "calls_ok (recordHeadroomVersion v q) = calls_ok q" "calls_ok (recycle k j e q) = calls_ok q"
  "calls_ok (receive k j q) = calls_ok q"
  by (rule calls_ok_cong; simp add: receive_frame)+

lemma calls_ok_affinity:
  assumes "calls_ok p" and "conserved p" and "shape p" and "call_affinity j p = Some p'"
  shows "calls_ok p'"
proof -
  let ?c = "pl_calls p ! j"
  let ?k = "nat (slotFor (rq_AffinityKey (ca_req ?c)) (pl_size p))"
  from assms(4) have j: "j < length (pl_calls p)" "ca_phase ?c = AtAffinity"
    by (auto simp: call_affinity_def split: if_splits)
  have af: "affined p (ca_req ?c)" and none: "ca_sent ?c = None"
    using call_at [OF assms(1) j(1)] j(2) by (auto simp: call_ok_def)
  have resp: "ca_resp ?c = None" using unsent_unanswered [OF assms(2,1) j(1)] j(2) by simp
  have sent: "calls_ok (sent j (Hit ?k) True p)" if "\<not> length (pl_affinity p) \<le> ?k"
  proof (rule calls_ok_sent [OF assms(1) j(1) resp])
    show "True \<and> int k = slotFor (rq_AffinityKey (ca_req ?c)) (pl_size p) \<and> int k < pl_size p"
      if "Hit ?k = Hit k" for k
      using that \<open>\<not> length (pl_affinity p) \<le> ?k\<close> assms(3) by (auto simp: shape_def)
  qed (simp add: af)
  have shared: "calls_ok (set_phase j AtShared p)"
    by (auto intro!: calls_ok_phase [OF assms(1)] simp: none)
  have panic: "calls_ok (set_phase j Panicked p)" if "length (pl_affinity p) \<le> ?k"
    by (rule calls_ok_phase [OF assms(1)]) (use that assms(3) none in \<open>auto simp: shape_def nat_le_eq_zle\<close>)
  show ?thesis
    using assms(4) j sent shared panic
    by (auto simp: call_affinity_def calls_ok_same Let_def split: if_splits)
qed

lemma calls_ok_shared:
  assumes "calls_ok p" and "conserved p" and "call_shared j k p = Some p'"
  shows "calls_ok p'"
proof -
  let ?c = "pl_calls p ! j"
  from assms(3) have j: "j < length (pl_calls p)" "ca_phase ?c = AtShared"
    by (auto simp: call_shared_def split: if_splits)
  have resp: "ca_resp ?c = None" using unsent_unanswered [OF assms(2,1) j(1)] j(2) by simp
  have "calls_ok (sent j (Spill k) (affined p (ca_req ?c)) p)"
    by (rule calls_ok_sent [OF assms(1) j(1) resp]) auto
  then show ?thesis using assms(3) j by (auto simp: call_shared_def calls_ok_same split: if_splits)
qed

lemma calls_ok_read:
  assumes "calls_ok p" and "conserved p" and "routed p" and "slot_read k got p = Some p'"
  shows "calls_ok p'"
proof -
  from assms(4) obtain w j where k: "k < length (pl_slots p)" "pl_slots p ! k = Reading w j"
    by (auto simp: slot_read_def split: if_splits slot.splits)
  then have "job_of (pl_slots p ! k) = Some j" by simp
  from job_in_slot [OF assms(2) k(1) this] assms(3) k this
  have j: "j < length (pl_calls p)" "ca_resp (pl_calls p ! j) = None"
    "ca_sent (pl_calls p ! j) \<in> {Some (Hit k), Some (Spill k)}"
    by (auto simp: answered_def routed_def split: if_splits)
  have "calls_ok (answer j (Inr (res\<lparr>rs_Slot := int k\<rparr>)) (p\<lparr>pl_busy := x\<rparr>))" for res x
    by (rule calls_ok_answer) (use j assms(1) calls_ok_same in auto)
  then show ?thesis using assms(1,4) k
    by (auto simp: slot_read_def calls_ok_same split: sum.splits if_splits)
qed

lemma calls_ok_drain:
  assumes "calls_ok p" and "conserved p" and "shape p" and "shutdown_drain p = Some p'"
  shows "calls_ok p'"
proof -
  let ?d = "pl_drained p"
  from assms(4) have d: "?d < length (pl_affinity p)"
    by (auto simp: shutdown_drain_def split: if_splits)
  then have "length (pl_affinity p ! ?d) \<le> 1" using assms(3) by (simp add: shape_def)
  then consider "pl_affinity p ! ?d = []" | j where "pl_affinity p ! ?d = [j]"
    by (cases "pl_affinity p ! ?d") auto
  then show ?thesis
  proof cases
    case 1
    with assms(1,4) show ?thesis by (auto simp: shutdown_drain_def calls_ok_same split: if_splits)
  next
    case 2
    with job_in_buffer [OF assms(2) d, of j] have j: "j < length (pl_calls p)" "ca_resp (pl_calls p ! j) = None"
      by (auto simp: answered_def split: if_splits)
    have "calls_ok (answer j (Inl ShuttingDown) (p\<lparr>pl_drained := n\<rparr>))" for n
      by (rule calls_ok_answer) (use j assms(1) calls_ok_same in auto)
    with 2 assms(4) show ?thesis by (auto simp: shutdown_drain_def calls_ok_same split: if_splits)
  qed
qed

lemma calls_ok_spawn_start:
  assumes "calls_ok p" and "conserved p" and "slot_start k so p = Some p'"
  shows "calls_ok p'"
proof -
  from assms(3) obtain af b where k: "k < length (pl_slots p)" "pl_slots p ! k = Spawning af b Starting"
    by (auto simp: slot_start_def split: if_splits slot.splits spawn_phase.splits)
  let ?p = "\<lambda>w :: worker. recordHeadroomVersion (wk_headroomVersion w) (p\<lparr>pl_started := pl_started p + 1\<rparr>)"
  have "calls_ok (spawned k af w (?p w))" for w
    using calls_ok_spawned [of "?p w" k af b Starting w] assms(1,2) k
    by (simp add: calls_ok_same) (simp add: recordHeadroomVersion_def)
  with assms(1,3) k show ?thesis
    by (auto simp: slot_start_def calls_ok_same split: sum.splits prod.splits)
qed

lemma calls_ok_count:
  assumes "calls_ok p" and "call_count j p = Some p'"
  shows "calls_ok p'"
proof -
  from assms(2) obtain hit where j: "j < length (pl_calls p)" "ca_phase (pl_calls p ! j) = Counting hit"
    by (auto simp: call_count_def split: if_splits call_phase.splits)
  have "ca_sent (pl_calls p ! j) \<noteq> None"
    using call_phase_ok [OF call_at [OF assms(1) j(1)] j(2)] by auto
  then have "calls_ok (set_phase j Waiting q)"
    if "pl_calls q = pl_calls p" "pl_size q = pl_size p" "pl_affinityEnabled q = pl_affinityEnabled p" for q
    using that assms(1) calls_ok_cong [of q p] by (intro calls_ok_phase) simp_all
  with assms(2) j show ?thesis by (auto simp: call_count_def split: if_splits)
qed

lemma calls_ok_act:
  assumes "calls_ok p" and "conserved p" and "routed p" and "shape p" and "pool_act a p = Some p'"
  shows "calls_ok p'"
proof (cases a)
  case (Enter req)
  have "call_ok (call_enter req p) = call_ok p" by (rule call_ok_cong) (simp_all add: call_enter_def)
  with assms(1,5) Enter show ?thesis
    by (auto simp: calls_ok_def call_enter_def) (simp add: call_ok_def)
next
  case (Affinity j)
  with assms show ?thesis by (simp add: calls_ok_affinity)
next
  case (Shared j k)
  with assms show ?thesis by (simp add: calls_ok_shared)
next
  case (Read k got)
  with assms show ?thesis by (simp add: calls_ok_read)
next
  case Drain
  with assms show ?thesis by (simp add: calls_ok_drain)
next
  case (SpawnStart k so)
  with assms show ?thesis by (simp add: calls_ok_spawn_start)
next
  case (CancelCtx j)
  have "calls_ok (upd_call j (\<lambda>c. c\<lparr>ca_ctx := True\<rparr>) p)"
    by (rule calls_ok_upd [OF assms(1)]) (simp add: call_at [OF assms(1)])
  with assms(5) CancelCtx show ?thesis by (auto simp: call_cancel_def split: if_splits)
next
  case (Count j)
  with assms show ?thesis by (simp add: calls_ok_count)
next
  case (Check j)
  with assms(1,5) call_phase_ok [OF call_at [OF assms(1)]] show ?thesis
    by (fastforce simp: call_check_def split: if_splits intro!: calls_ok_phase)
next
  case (SeeShutdown j)
  with assms(1,5) call_phase_ok [OF call_at [OF assms(1)]] show ?thesis
    by (fastforce simp: call_see_shutdown_def split: if_splits intro!: calls_ok_phase)
qed (use assms(1,2,5) calls_ok_spawned in
    \<open>auto simp: pool_step_defs calls_ok_same intro!: calls_ok_phase split: pool_splits\<close>)

section \<open>Routing\<close>

lemma sent_of_calls:
  "ca_sent (pl_calls (answer j r p) ! i) = ca_sent (pl_calls p ! i)"
  "ca_sent (pl_calls (set_phase j ph p) ! i) = ca_sent (pl_calls p ! i)"
  "i \<noteq> j \<Longrightarrow> ca_sent (pl_calls (sent j rt af p) ! i) = ca_sent (pl_calls p ! i)"
  "j < length (pl_calls p) \<Longrightarrow> ca_sent (pl_calls (sent j rt af p) ! j) = Some rt"
  "ca_sent ((pl_calls p)[j := (pl_calls p ! j)\<lparr>ca_ctx := x\<rparr>] ! i) = ca_sent (pl_calls p ! i)"
  by (cases "i = j"; cases "j < length (pl_calls p)"; simp add: call_upd_defs list_update_beyond)+

text \<open>A slot update keeps the routing when the new job is routed to that slot.\<close>

lemma routed_set_slot:
  assumes "routed p" and "\<And>j. job_of s = Some j \<Longrightarrow> ca_sent (pl_calls p ! j) \<in> {Some (Hit k), Some (Spill k)}"
  shows "routed (set_slot k s p)"
  using assms unfolding routed_def
  by (auto simp: nth_upd split: if_splits)

lemma routed_receive:
  assumes "routed p" and "ca_sent (pl_calls p ! j) \<in> {Some (Hit k), Some (Spill k)}"
  shows "routed (receive k j p)"
proof -
  have "routed (p\<lparr>pl_busy := x\<rparr>)" for x using assms(1) by (simp add: routed_def)
  with assms routed_set_slot show ?thesis
    by (auto simp: receive_def split: slot.split option.split intro!: routed_set_slot)
qed

lemma routed_cong:
  assumes "routed p" and "pl_slots q = pl_slots p" and "pl_affinity q = pl_affinity p"
    and "\<And>i. ca_sent (pl_calls q ! i) = ca_sent (pl_calls p ! i)"
  shows "routed q"
  using assms by (simp add: routed_def)

lemma routed_sent:
  assumes "routed p" and "conserved p" and "length (pl_affinity p) = length (pl_slots p)"
    and "submitted p j = 0"
  shows "routed (sent j rt af p)"
proof -
  have "i \<noteq> j" if "k < length (pl_slots p)" "job_of (pl_slots p ! k) = Some i" for k i
    using job_in_slot [OF assms(2) that] assms(4) by auto
  moreover have "i \<noteq> j" if "k < length (pl_affinity p)" "i \<in> set (pl_affinity p ! k)" for k i
    using job_in_buffer [OF assms(2) that] assms(4) by auto
  ultimately show ?thesis using assms(1) unfolding routed_def by (auto simp: sent_of_calls)
qed

lemma routed_set_buffer:
  assumes "routed p" and "\<And>j. j \<in> set b \<Longrightarrow> ca_sent (pl_calls p ! j) = Some (Hit k)"
  shows "routed (set_buffer k b p)"
  using assms unfolding routed_def by (auto simp: nth_upd split: if_splits)

lemma routed_spawned:
  assumes "routed p" and "k < length (pl_slots p)" and "pl_slots p ! k = Spawning af b ph"
  shows "routed (spawned k af w p)" and "routed (spawn_nil k af p)"
proof -
  have busy: "routed (q\<lparr>pl_busy := x\<rparr>)" if "routed q" for x q using that by (simp add: routed_def)
  have ans: "routed (answer j r p)" for j r
    by (rule routed_cong [OF assms(1)]) (simp_all add: sent_of_calls)
  show "routed (spawned k af w p)"
    using assms ans busy
    by (cases af) (auto simp: spawned_def routed_def [of p] intro!: routed_set_slot)
  show "routed (spawn_nil k af p)"
    using assms(1) ans by (cases af) (auto simp: spawn_nil_def intro!: routed_set_slot)
qed


lemma routed_same:
  "routed (q\<lparr>pl_busy := x\<rparr>) = routed q" "routed (q\<lparr>pl_done := d\<rparr>) = routed q"
  "routed (q\<lparr>pl_reaped := n\<rparr>) = routed q" "routed (q\<lparr>pl_started := n\<rparr>) = routed q"
  "routed (q\<lparr>pl_drained := n\<rparr>) = routed q" "routed (recordHeadroomVersion v q) = routed q"
  "routed (q\<lparr>pl_affinityHits := x\<rparr>) = routed q" "routed (q\<lparr>pl_affinitySpills := x\<rparr>) = routed q"
  "routed (set_phase j ph q) = routed q" "routed (answer j r q) = routed q"
  by (simp_all add: routed_def sent_of_calls)

lemma routed_answer_all [simp]: "routed (answer_all js q) = routed q"
  by (induction js q rule: answer_all.induct) (simp_all add: routed_same)

text \<open>A slot may keep its job or let go of it.\<close>

lemma routed_keep:
  assumes "routed p" and "k < length (pl_slots p)"
    and s: "job_of s = job_of (pl_slots p ! k) \<or> job_of s = None"
    and q: "pl_slots q = pl_slots p" "pl_affinity q = pl_affinity p"
      "\<And>i. ca_sent (pl_calls q ! i) = ca_sent (pl_calls p ! i)"
  shows "routed (set_slot k s q)"
proof (rule routed_set_slot)
  show rq: "routed q" by (rule routed_cong [OF assms(1)]) (use q in simp_all)
  show "ca_sent (pl_calls q ! j) \<in> {Some (Hit k), Some (Spill k)}" if "job_of s = Some j" for j
    using rq that assms(2) s q(1) by (auto simp: routed_def)
qed

lemma routed_enter:
  assumes "routed p" and "conserved p"
  shows "routed (call_enter req p)"
proof -
  have "j < length (pl_calls p)" if "k < length (pl_slots p)" "job_of (pl_slots p ! k) = Some j" for k j
    using job_in_slot [OF assms(2) that] by simp
  moreover have "j < length (pl_calls p)" if "k < length (pl_affinity p)" "j \<in> set (pl_affinity p ! k)" for k j
    using job_in_buffer [OF assms(2) that] by simp
  ultimately show ?thesis using assms(1) by (auto simp: routed_def call_enter_def nth_append)
qed

lemma routed_sent_at:
  assumes "routed p" and "conserved p" and "calls_ok p" and "shape p"
    and "j < length (pl_calls p)" and "ca_phase (pl_calls p ! j) \<in> {AtAffinity, AtShared}"
  shows "routed (sent j rt af p)"
proof -
  have "submitted p j = 0" using unsent [OF assms(3,5)] assms(6) by auto
  moreover have "length (pl_affinity p) = length (pl_slots p)" using assms(4) by (simp add: shape_def)
  ultimately show ?thesis by (intro routed_sent [OF assms(1,2)])
qed

lemma routed_affinity:
  assumes "routed p" and "conserved p" and "calls_ok p" and "shape p" and "call_affinity j p = Some p'"
  shows "routed p'"
proof -
  let ?k = "nat (slotFor (rq_AffinityKey (ca_req (pl_calls p ! j))) (pl_size p))"
  from assms(5) have j: "j < length (pl_calls p)" "ca_phase (pl_calls p ! j) = AtAffinity"
    by (auto simp: call_affinity_def split: if_splits)
  then have snt: "routed (sent j rt af p)" for rt af by (intro routed_sent_at [OF assms(1-4)]) simp_all
  have "routed (set_buffer ?k (pl_affinity p ! ?k @ [j]) (sent j (Hit ?k) True p))"
    if "?k < length (pl_affinity p)"
    by (rule routed_set_buffer [OF snt])
      (use snt [of "Hit ?k" True] that j in \<open>auto simp: routed_def sent_of_calls\<close>)
  moreover have "routed (receive ?k j (sent j (Hit ?k) True p))"
    by (rule routed_receive [OF snt]) (simp add: sent_of_calls j)
  ultimately show ?thesis using assms(1,5) j
    by (auto simp: call_affinity_def Let_def routed_same split: if_splits)
qed

lemma routed_shared:
  assumes "routed p" and "conserved p" and "calls_ok p" and "shape p" and "call_shared j k p = Some p'"
  shows "routed p'"
proof -
  from assms(5) have j: "j < length (pl_calls p)" "ca_phase (pl_calls p ! j) = AtShared"
    by (auto simp: call_shared_def split: if_splits)
  then have snt: "routed (sent j rt af p)" for rt af by (intro routed_sent_at [OF assms(1-4)]) simp_all
  have "routed (receive k j (sent j (Spill k) af p))" for af
    by (rule routed_receive [OF snt]) (simp add: sent_of_calls j)
  then show ?thesis using assms(5) by (auto simp: call_shared_def split: if_splits)
qed

lemma routed_take:
  assumes "routed p" and "shape p" and "slot_take k p = Some p'"
  shows "routed p'"
proof -
  from assms(3) obtain j rest where k: "k < length (pl_slots p)" "pl_affinity p ! k = j # rest"
    and p': "p' = receive k j (set_buffer k rest p)"
    by (auto simp: slot_take_def split: pool_splits)
  have "ca_sent (pl_calls p ! i) = Some (Hit k)" if "i \<in> set (j # rest)" for i
    using assms(1,2) k that by (auto simp: routed_def shape_def)
  then show ?thesis unfolding p' by (intro routed_receive routed_set_buffer assms(1)) simp_all
qed

lemma routed_spawn_start:
  assumes "routed p" and "slot_start k so p = Some p'"
  shows "routed p'"
proof -
  from assms(2) obtain af b where k: "k < length (pl_slots p)" "pl_slots p ! k = Spawning af b Starting"
    by (auto simp: slot_start_def split: if_splits slot.splits spawn_phase.splits)
  let ?p = "\<lambda>w :: worker. recordHeadroomVersion (wk_headroomVersion w) (p\<lparr>pl_started := pl_started p + 1\<rparr>)"
  have ok: "routed (spawned k af w (?p w))" for w
    by (rule routed_spawned [where b = b and ph = Starting]) (use k assms(1) routed_same in auto)
  have "routed (set_slot k (Spawning af b Sleeping) (p\<lparr>pl_started := n, pl_reaped := m\<rparr>))" for n m
    by (rule routed_keep [OF assms(1)]) (use k job_of_spawning in auto)
  moreover obtain r evs where r: "startWorker so k = (r, evs)" by fastforce
  ultimately show ?thesis using assms(2) k r ok by (cases r) (auto simp: slot_start_def)
qed

lemma routed_read:
  assumes "routed p" and "slot_read k got p = Some p'"
  shows "routed p'"
proof -
  from assms(2) obtain w j where k: "k < length (pl_slots p)" "pl_slots p ! k = Reading w j"
    by (auto simp: slot_read_def split: if_splits slot.splits)
  then have "routed (recycle k j e p)" for e unfolding recycle_def by (intro routed_keep [OF assms(1)]) simp_all
  moreover have "routed (set_slot k (Parked (Some w)) (answer j r (p\<lparr>pl_busy := x\<rparr>)))" for r x
    by (rule routed_keep [OF assms(1)]) (use k in \<open>simp_all add: sent_of_calls\<close>)
  ultimately show ?thesis using assms(2) k
    by (auto simp: slot_read_def split: sum.splits if_splits)
qed

lemma routed_write:
  assumes "routed p" and "slot_write k h wrote p = Some p'"
  shows "routed p'"
proof -
  from assms(2) obtain w j where k: "k < length (pl_slots p)" "pl_slots p ! k = Writing w j"
    by (auto simp: slot_write_def split: if_splits slot.splits)
  then have "routed (recycle k j e p)" for e unfolding recycle_def by (intro routed_keep [OF assms(1)]) simp_all
  moreover have "routed (set_slot k (Reading w' j) p)" for w' by (rule routed_keep [OF assms(1)]) (use k in simp_all)
  ultimately show ?thesis using assms(2) k
    by (auto simp: slot_write_def split: sum.splits prod.splits option.splits)
qed

lemma routed_act:
  assumes "routed p" and "conserved p" and "calls_ok p" and "shape p" and "pool_act a p = Some p'"
  shows "routed p'"
proof -
  note keep = routed_keep [OF assms(1), where q = p]
  show ?thesis
  proof (cases a)
    case (Enter req)
    with assms routed_enter show ?thesis by auto
  next
    case (Affinity j)
    with assms show ?thesis by (simp add: routed_affinity)
  next
    case (Shared j k)
    with assms show ?thesis by (simp add: routed_shared)
  next
    case (Take k)
    with assms show ?thesis by (simp add: routed_take)
  next
    case (SpawnStart k so)
    with assms show ?thesis by (simp add: routed_spawn_start)
  next
    case (Read k got)
    with assms show ?thesis by (simp add: routed_read)
  next
    case (Write k h wrote)
    with assms show ?thesis by (simp add: routed_write)
  next
    case Drain
    with assms(1,5) show ?thesis
      by (auto simp: shutdown_drain_def routed_same split: if_splits intro!: routed_set_buffer)
  next
    case (SpawnCheck k)
    with assms(1,5) routed_spawned keep [of k] job_of_spawning show ?thesis
      by (auto simp: slot_check_def split: pool_splits)
  next
    case (SpawnWake k)
    with assms(1,5) keep [of k] show ?thesis
      by (auto simp: slot_wake_def split: pool_splits) (metis job_of_spawning)
  next
    case (SpawnAbort k)
    with assms(1,5) routed_spawned show ?thesis
      by (auto simp: slot_sleep_done_def split: pool_splits)
  next
    case (CancelCtx j)
    with assms(1,5) show ?thesis
      by (auto simp: call_cancel_def sent_of_calls split: if_splits intro: routed_cong)
  next
    case (Closed k g)
    then have "k < length (pl_slots p)" using assms(5) by (auto simp: slot_closed_def split: if_splits)
    then have "routed (set_slot k Exited (p\<lparr>pl_reaped := n\<rparr>))" for n
      by (intro routed_keep [OF assms(1)]) simp_all
    with assms(5) Closed show ?thesis by (auto simp: slot_closed_def split: pool_splits)
  next
    case (Stop k)
    with assms(5) keep show ?thesis by (auto simp: slot_stop_def split: pool_splits)
  qed (use assms(1,5) in \<open>auto simp: pool_step_defs routed_same split: pool_splits\<close>)
qed


section \<open>Gauges and counters\<close>

definition count_calls :: "(call \<Rightarrow> bool) \<Rightarrow> pool \<Rightarrow> int" where
  "count_calls P p = int (length (filter P (pl_calls p)))"

definition counting :: "call \<Rightarrow> bool" where
  "counting c \<longleftrightarrow> (case ca_phase c of Counting h \<Rightarrow> True | _ \<Rightarrow> False)"

definition hit_counted :: "call \<Rightarrow> bool" where
  "hit_counted c \<longleftrightarrow> (\<exists>k. ca_sent c = Some (Hit k)) \<and> \<not> counting c"

definition spill_counted :: "pool \<Rightarrow> call \<Rightarrow> bool" where
  "spill_counted p c \<longleftrightarrow> (\<exists>k. ca_sent c = Some (Spill k)) \<and> affined p (ca_req c) \<and> \<not> counting c"

definition procs_ok :: "pool \<Rightarrow> bool" where
  "procs_ok p \<longleftrightarrow>
     pl_busy p = word_of_int (count_slots running p) \<and>
     int (pl_started p) = int (pl_reaped p) + count_slots live p"

definition counters_ok :: "pool \<Rightarrow> bool" where
  "counters_ok p \<longleftrightarrow>
     pl_affinityHits p = word_of_int (count_calls hit_counted p) \<and>
     pl_affinitySpills p = word_of_int (count_calls (spill_counted p) p)"

definition spawn_ok :: "pool \<Rightarrow> slot \<Rightarrow> bool" where
  "spawn_ok p s \<longleftrightarrow>
     (case s of
        Spawning af b ph \<Rightarrow> initialBackoff \<le> b \<and> b \<le> maxBackoff
      | Parked None \<Rightarrow> pl_done p
      | Closing w \<Rightarrow> pl_done p
      | Exited \<Rightarrow> pl_done p
      | _ \<Rightarrow> True)"

lemma count_calls_upd:
  "j < length (pl_calls p) \<Longrightarrow>
   count_calls P (upd_call j f p) =
     count_calls P p - of_bool (P (pl_calls p ! j)) + of_bool (P (f (pl_calls p ! j)))"
  using length_filter_update [of j "pl_calls p" P "f (pl_calls p ! j)"]
  by (cases "P (pl_calls p ! j)"; cases "P (f (pl_calls p ! j))") (simp_all add: count_calls_def)

lemma count_slots_scalar [simp]:
  "count_slots P (p\<lparr>pl_busy := x\<rparr>) = count_slots P p"
  "count_slots P (p\<lparr>pl_started := n\<rparr>) = count_slots P p"
  "count_slots P (p\<lparr>pl_reaped := n\<rparr>) = count_slots P p"
  "count_slots P (p\<lparr>pl_affinityHits := x\<rparr>) = count_slots P p"
  "count_slots P (p\<lparr>pl_affinitySpills := x\<rparr>) = count_slots P p"
  "count_slots P (p\<lparr>pl_done := b\<rparr>) = count_slots P p"
  "count_slots P (p\<lparr>pl_drained := n\<rparr>) = count_slots P p"
  "count_slots P (p\<lparr>pl_calls := cs\<rparr>) = count_slots P p"
  "count_slots P (recordHeadroomVersion v p) = count_slots P p"
  "count_slots P (answer j r p) = count_slots P p"
  "count_slots P (set_phase j ph p) = count_slots P p"
  "count_slots P (sent j rt af p) = count_slots P p"
  "count_slots P (answer_all js p) = count_slots P p"
  by (simp_all add: count_slots_def)

lemma procs_receive:
  assumes "procs_ok p" and "k < length (pl_slots p)" and "is_parked (pl_slots p ! k)"
  shows "procs_ok (receive k j p)"
proof -
  from assms(3) obtain wo where "pl_slots p ! k = Parked wo" by (cases "pl_slots p ! k") (auto simp: is_parked_def)
  with assms show ?thesis
    by (cases wo) (auto simp: receive_def procs_ok_def count_slots_update)
qed

lemma procs_cong:
  "pl_slots q = pl_slots p \<Longrightarrow> pl_busy q = pl_busy p \<Longrightarrow> pl_started q = pl_started p \<Longrightarrow>
   pl_reaped q = pl_reaped p \<Longrightarrow> procs_ok q = procs_ok p"
  by (simp add: procs_ok_def count_slots_def)

lemma waits: "count_list kill WaitProc = 1" "count_list (shutdown g) WaitProc = 1"
  by (simp_all add: kill_def shutdown_def signalKill_def)

lemma procs_spawned:
  assumes "procs_ok p" and "k < length (pl_slots p)" and "pl_slots p ! k = Spawning af b ph"
  shows "procs_ok (spawned k af w (p\<lparr>pl_started := pl_started p + 1\<rparr>))" and "procs_ok (spawn_nil k af p)"
  using assms by (cases af; auto simp: spawned_def spawn_nil_def procs_ok_def count_slots_update)+

lemma procs_act:
  assumes "procs_ok p" and "shape p" and "pool_act a p = Some p'"
  shows "procs_ok p'"
proof (cases a)
  case (Shared j k)
  have "procs_ok (sent j rt af p)" for rt af using assms(1) procs_cong [of "sent j rt af p" p] by simp
  with assms(3) Shared show ?thesis by (auto simp: call_shared_def split: if_splits intro!: procs_receive)
next
  case (Affinity j)
  have "procs_ok (sent j rt af p)" for rt af using assms(1) procs_cong [of "sent j rt af p" p] by simp
  moreover have "procs_ok (set_buffer k b q) = procs_ok q" "procs_ok (set_phase j ph q) = procs_ok q" for k b q ph
    by (rule procs_cong; simp)+
  moreover have "length (pl_slots p) = length (pl_affinity p)" using assms(2) by (simp add: shape_def)
  ultimately show ?thesis using assms(1,3) Affinity
    by (auto simp: call_affinity_def Let_def split: if_splits intro!: procs_receive)
next
  case (Take k)
  have "procs_ok (set_buffer k b p)" for b using assms(1) procs_cong [of "set_buffer k b p" p] by simp
  with assms(3) Take show ?thesis by (auto simp: slot_take_def split: pool_splits intro!: procs_receive)
next
  case (SpawnStart k so)
  then obtain af b where k: "k < length (pl_slots p)" "pl_slots p ! k = Spawning af b Starting"
    using assms(3) by (auto simp: slot_start_def split: if_splits slot.splits spawn_phase.splits)
  let ?p = "\<lambda>w :: worker. recordHeadroomVersion (wk_headroomVersion w) (p\<lparr>pl_started := pl_started p + 1\<rparr>)"
  have "procs_ok (spawned k af w (?p w))" for w
    using assms(1) k
    by (cases af) (auto simp: spawned_def procs_ok_def count_slots_update)
  moreover obtain r evs where "startWorker so k = (r, evs)" by fastforce
  ultimately show ?thesis using assms SpawnStart k
    by (cases r) (auto simp: slot_start_def procs_ok_def count_slots_update)
qed (use assms procs_spawned in \<open>auto simp: pool_step_defs call_enter_def procs_ok_def count_slots_update recycle_def waits
    spawn_nil_def split: pool_splits\<close>)


lemma counters_cong:
  "pl_calls q = pl_calls p \<Longrightarrow> pl_affinityHits q = pl_affinityHits p \<Longrightarrow>
   pl_affinitySpills q = pl_affinitySpills p \<Longrightarrow> pl_affinityEnabled q = pl_affinityEnabled p \<Longrightarrow>
   counters_ok q = counters_ok p"
proof -
  assume calls: "pl_calls q = pl_calls p" "pl_affinityHits q = pl_affinityHits p"
    "pl_affinitySpills q = pl_affinitySpills p" and "pl_affinityEnabled q = pl_affinityEnabled p"
  then have "spill_counted q = spill_counted p" by (simp add: spill_counted_def affined_def fun_eq_iff)
  with calls show ?thesis by (simp add: counters_ok_def count_calls_def)
qed

text \<open>A call update that changes neither the route nor the counting phase.\<close>

lemma counters_upd:
  assumes "counters_ok p"
    and "j < length (pl_calls p) \<Longrightarrow>
      hit_counted (f (pl_calls p ! j)) = hit_counted (pl_calls p ! j) \<and>
      spill_counted p (f (pl_calls p ! j)) = spill_counted p (pl_calls p ! j)"
  shows "counters_ok (upd_call j f p)"
proof (cases "j < length (pl_calls p)")
  case True
  have "spill_counted (upd_call j f p) = spill_counted p"
    by (simp add: spill_counted_def affined_def fun_eq_iff)
  with True assms show ?thesis by (simp add: counters_ok_def count_calls_upd)
next
  case False
  then have "counters_ok (upd_call j f p) = counters_ok p"
    by (intro counters_cong) (simp_all add: list_update_beyond)
  with assms(1) show ?thesis by simp
qed

lemma counters_answer: "counters_ok p \<Longrightarrow> counters_ok (answer j r p)"
  unfolding answer_def by (rule counters_upd) (simp_all add: hit_counted_def spill_counted_def counting_def)

lemma counters_phase:
  "counters_ok p \<Longrightarrow> j < length (pl_calls p) \<Longrightarrow> \<not> counting (pl_calls p ! j) \<Longrightarrow> (\<And>h. ph \<noteq> Counting h) \<Longrightarrow>
   counters_ok (set_phase j ph p)"
  unfolding set_phase_def
  by (rule counters_upd) (auto simp: hit_counted_def spill_counted_def counting_def split: call_phase.splits)

lemma counters_sent:
  assumes "counters_ok p" and "j < length (pl_calls p)" and "ca_sent (pl_calls p ! j) = None"
    and "af = affined p (ca_req (pl_calls p ! j))" and "\<And>k. rt = Hit k \<Longrightarrow> af"
  shows "counters_ok (sent j rt af p)"
  unfolding sent_def
  by (rule counters_upd [OF assms(1)]; cases rt)
     (use assms in \<open>auto simp: hit_counted_def spill_counted_def counting_def\<close>)

lemma counters_count:
  assumes "counters_ok p" and "calls_ok p" and "call_count j p = Some p'"
  shows "counters_ok p'"
proof -
  from assms(3) obtain hit where j: "j < length (pl_calls p)" "ca_phase (pl_calls p ! j) = Counting hit"
    and p': "p' = set_phase j Waiting
      (if hit then p\<lparr>pl_affinityHits := pl_affinityHits p + 1\<rparr> else p\<lparr>pl_affinitySpills := pl_affinitySpills p + 1\<rparr>)"
    by (auto simp: call_count_def split: if_splits call_phase.splits)
  obtain k where c: "affined p (ca_req (pl_calls p ! j))" "ca_sent (pl_calls p ! j) = Some (if hit then Hit k else Spill k)"
    using call_phase_ok [OF call_at [OF assms(2) j(1)] j(2)] by auto
  define q where "q = (if hit then p\<lparr>pl_affinityHits := pl_affinityHits p + 1\<rparr>
    else p\<lparr>pl_affinitySpills := pl_affinitySpills p + 1\<rparr>)"
  have q: "pl_calls q = pl_calls p" "affined q = affined p"
    "pl_affinityHits q = pl_affinityHits p + of_bool hit" "pl_affinitySpills q = pl_affinitySpills p + of_bool (\<not> hit)"
    by (auto simp: q_def affined_def fun_eq_iff)
  have sp: "spill_counted (set_phase j Waiting q) = spill_counted p"
    using q(2) by (auto simp: spill_counted_def fun_eq_iff affined_def set_phase_def upd_call_def)
  have "count_calls P (set_phase j Waiting q) =
      count_calls P p - of_bool (P (pl_calls p ! j)) + of_bool (P ((pl_calls p ! j)\<lparr>ca_phase := Waiting\<rparr>))" for P
    using count_calls_upd [of j q P "\<lambda>c. c\<lparr>ca_phase := Waiting\<rparr>"] j(1) q(1)
    by (simp add: set_phase_def count_calls_def)
  with assms(1) sp q c j(2) show ?thesis unfolding p' q_def [symmetric]
    by (cases hit) (simp_all add: counters_ok_def hit_counted_def spill_counted_def counting_def)
qed


lemma counters_same:
  "counters_ok (set_slot k s q) = counters_ok q" "counters_ok (set_buffer k b q) = counters_ok q"
  "counters_ok (q\<lparr>pl_busy := x\<rparr>) = counters_ok q" "counters_ok (q\<lparr>pl_done := d\<rparr>) = counters_ok q"
  "counters_ok (q\<lparr>pl_reaped := n\<rparr>) = counters_ok q" "counters_ok (q\<lparr>pl_started := n\<rparr>) = counters_ok q"
  "counters_ok (q\<lparr>pl_drained := n\<rparr>) = counters_ok q"
  "counters_ok (recordHeadroomVersion v q) = counters_ok q"
  "counters_ok (recycle k j e q) = counters_ok q" "counters_ok (receive k j q) = counters_ok q"
  by (rule counters_cong; simp add: receive_frame)+

lemma counters_answer_all: "counters_ok q \<Longrightarrow> counters_ok (answer_all js q)"
  by (induction js q rule: answer_all.induct) (simp_all add: counters_answer)

lemma counters_spawned: "counters_ok q \<Longrightarrow> counters_ok (spawned k af w q)"
  by (cases af) (auto simp: spawned_def counters_same counters_answer)

lemma counters_send:
  assumes "counters_ok p" and "calls_ok p" and "j < length (pl_calls p)"
    and "ca_phase (pl_calls p ! j) \<in> {AtAffinity, AtShared}"
    and "af = affined p (ca_req (pl_calls p ! j))" and "\<And>k. rt = Hit k \<Longrightarrow> af"
  shows "counters_ok (sent j rt af p)"
proof -
  have "ca_sent (pl_calls p ! j) = None"
    using call_phase_ok [OF call_at [OF assms(2,3)] refl] assms(4) by auto
  then show ?thesis using assms(5,6) by (intro counters_sent [OF assms(1,3)]) auto
qed

lemma counters_act:
  assumes "counters_ok p" and "calls_ok p" and "pool_act a p = Some p'"
  shows "counters_ok p'"
proof -
  have nc: "\<not> counting (pl_calls p ! j)"
    if "ca_phase (pl_calls p ! j) \<in> {Entering, AtAffinity, AtShared, Waiting}" for j
    using that by (auto simp: counting_def)
  show ?thesis
  proof (cases a)
    case (Enter req)
    have "spill_counted (call_enter req p) = spill_counted p"
      by (simp add: spill_counted_def affined_def call_enter_def fun_eq_iff)
    with assms(1,3) Enter show ?thesis
      by (auto simp: counters_ok_def count_calls_def)
        (simp_all add: call_enter_def hit_counted_def spill_counted_def)
  next
    case (Affinity j)
    from assms(3) Affinity have j: "j < length (pl_calls p)" "ca_phase (pl_calls p ! j) = AtAffinity"
      by (auto simp: call_affinity_def split: if_splits)
    then have "counters_ok (sent j rt True p)" for rt
      using call_phase_ok [OF call_at [OF assms(2) j(1)] j(2)] by (intro counters_send assms(1,2)) auto
    with assms(1,3) Affinity j nc [of j] show ?thesis
      by (auto simp: call_affinity_def Let_def counters_same split: if_splits intro!: counters_phase)
  next
    case (CancelCtx j)
    have "counters_ok (upd_call j (\<lambda>c. c\<lparr>ca_ctx := True\<rparr>) p)"
      by (rule counters_upd [OF assms(1)]) (auto simp: hit_counted_def spill_counted_def counting_def)
    with assms(3) CancelCtx show ?thesis by (auto simp: call_cancel_def split: if_splits)
  next
    case (Shared j k)
    with assms(3) show ?thesis
      by (auto simp: call_shared_def counters_same split: if_splits intro!: counters_send assms(1,2))
  next
    case (Count j)
    with assms counters_count show ?thesis by simp
  next
    case (Check j)
    with assms(1,3) nc [of j] show ?thesis
      by (auto simp: call_check_def split: if_splits intro!: counters_phase)
  next
    case (GiveUp j)
    with assms(1,3) nc [of j] show ?thesis
      by (auto simp: call_give_up_def split: if_splits intro!: counters_phase)
  next
    case (SeeShutdown j)
    with assms(1,3) nc [of j] show ?thesis
      by (auto simp: call_see_shutdown_def split: if_splits intro!: counters_phase)
  next
    case (Return j)
    with assms(1,3) nc [of j] show ?thesis
      by (auto simp: call_return_def split: if_splits intro!: counters_phase)
  qed (use assms(1,3) counters_answer_all counters_spawned in
      \<open>auto simp: pool_step_defs counters_same counters_answer spawn_nil_def split: pool_splits\<close>)
qed

section \<open>Slots\<close>

definition spawns_ok :: "pool \<Rightarrow> bool" where
  "spawns_ok p \<longleftrightarrow> (\<forall>s \<in> set (pl_slots p). spawn_ok p s)"

lemma spawns_set_slot:
  assumes "spawns_ok p" and "spawn_ok p s"
  shows "spawns_ok (set_slot k s p)"
proof -
  have "spawn_ok (set_slot k s p) = spawn_ok p"
    by (simp add: spawn_ok_def fun_eq_iff split: slot.split option.split)
  with assms show ?thesis unfolding spawns_ok_def by (auto dest!: set_update_subset_insert [THEN subsetD])
qed

lemma spawns_cong:
  assumes "spawns_ok p" and "pl_slots q = pl_slots p" and "pl_done p \<longrightarrow> pl_done q"
  shows "spawns_ok q"
  using assms by (auto simp: spawns_ok_def spawn_ok_def split: slot.splits option.splits)

lemma spawn_ok_simps [simp]:
  "spawn_ok p (Writing w j)" "spawn_ok p (Reading w j)" "spawn_ok p (Parked (Some w))"
  "spawn_ok p (Parked None) = pl_done p" "spawn_ok p (Closing w) = pl_done p" "spawn_ok p Exited = pl_done p"
  "spawn_ok p (Spawning af b ph) \<longleftrightarrow> initialBackoff \<le> b \<and> b \<le> maxBackoff"
  by (simp_all add: spawn_ok_def)

lemma spawn_ok_at: "spawns_ok p \<Longrightarrow> k < length (pl_slots p) \<Longrightarrow> spawn_ok p (pl_slots p ! k)"
  by (simp add: spawns_ok_def)

lemma backoff_range: "initialBackoff \<le> maxBackoff"
  "initialBackoff \<le> b \<Longrightarrow> b \<le> maxBackoff \<Longrightarrow> initialBackoff \<le> next_backoff b \<and> next_backoff b \<le> maxBackoff"
  by (auto simp: initialBackoff_def maxBackoff_def next_backoff_def)

lemma spawns_scalar:
  "spawns_ok p \<Longrightarrow> spawns_ok (p\<lparr>pl_busy := x\<rparr>)"
  "spawns_ok p \<Longrightarrow> spawns_ok (p\<lparr>pl_reaped := n\<rparr>)"
  "spawns_ok p \<Longrightarrow> spawns_ok (p\<lparr>pl_started := n\<rparr>)"
  "spawns_ok p \<Longrightarrow> spawns_ok (p\<lparr>pl_drained := n\<rparr>)"
  "spawns_ok p \<Longrightarrow> spawns_ok (p\<lparr>pl_done := True\<rparr>)"
  "spawns_ok p \<Longrightarrow> spawns_ok (p\<lparr>pl_affinityHits := x\<rparr>)"
  "spawns_ok p \<Longrightarrow> spawns_ok (p\<lparr>pl_affinitySpills := x\<rparr>)"
  "spawns_ok p \<Longrightarrow> spawns_ok (recordHeadroomVersion v p)"
  "spawns_ok p \<Longrightarrow> spawns_ok (answer j r p)"
  "spawns_ok p \<Longrightarrow> spawns_ok (set_phase j ph p)"
  "spawns_ok p \<Longrightarrow> spawns_ok (sent j rt af p)"
  "spawns_ok p \<Longrightarrow> spawns_ok (upd_call j f p)"
  "spawns_ok p \<Longrightarrow> spawns_ok (set_buffer k b p)"
  "spawns_ok p \<Longrightarrow> spawns_ok (answer_all js p)"
  "spawns_ok p \<Longrightarrow> spawns_ok (call_enter req p)"
  by (erule spawns_cong; simp add: call_enter_def)+

lemma spawns_receive: "spawns_ok p \<Longrightarrow> spawns_ok (receive k j p)"
  using backoff_range(1)
  by (auto simp: receive_def intro!: spawns_set_slot spawns_scalar split: slot.split option.split)

lemma spawns_spawned: "spawns_ok p \<Longrightarrow> spawns_ok (spawned k af w p)"
  by (cases af) (auto simp: spawned_def intro!: spawns_set_slot spawns_scalar)

lemma spawns_nil: "spawns_ok p \<Longrightarrow> pl_done p \<Longrightarrow> spawns_ok (spawn_nil k af p)"
  by (cases af) (auto simp: spawn_nil_def intro!: spawns_set_slot spawns_scalar)

lemma spawns_recycle: "spawns_ok p \<Longrightarrow> spawns_ok (recycle k j e p)"
  using backoff_range(1) by (auto simp: recycle_def intro!: spawns_set_slot spawns_scalar)

lemma spawns_act:
  assumes "spawns_ok p" and "pool_act a p = Some p'"
  shows "spawns_ok p'"
proof -
  note rules = spawns_set_slot spawns_scalar spawns_receive spawns_spawned spawns_nil spawns_recycle
  have b: "initialBackoff \<le> b \<and> b \<le> maxBackoff"
    if "k < length (pl_slots p)" "pl_slots p ! k = Spawning af b ph" for k af b ph
    using spawn_ok_at [OF assms(1) that(1)] that(2) by simp
  have cl: "pl_done p" if "k < length (pl_slots p)" "pl_slots p ! k = Closing w" for k w
    using spawn_ok_at [OF assms(1) that(1)] that(2) by simp
  show ?thesis
    using assms(2)
    by (cases a)
       (auto simp: pool_step_defs Let_def dest: b cl intro!: rules assms(1) backoff_range(2) split: pool_splits)
qed


definition drain_ok :: "pool \<Rightarrow> bool" where
  "drain_ok p \<longleftrightarrow>
     pl_drained p \<le> length (pl_affinity p) \<and>
     (0 < pl_drained p \<longrightarrow> pl_done p \<and> list_all (\<lambda>s. s = Exited) (pl_slots p))"

text \<open>A slot that has exited stays so, and only a slot that has not can step.\<close>

lemma exited_stays:
  assumes "list_all (\<lambda>s. s = Exited) (pl_slots p)" and "length (pl_affinity p) = length (pl_slots p)"
    and "pool_act a p = Some p'"
  shows "pl_slots p' = pl_slots p"
proof -
  have ex: "pl_slots p ! k = Exited" if "k < length (pl_slots p)" for k
    using assms(1) that by (simp add: list_all_length)
  show ?thesis
    using assms(2,3) ex
    by (cases a) (auto simp: pool_step_defs call_enter_def is_parked_def Let_def split: pool_splits)
qed

lemma drain_act:
  assumes "drain_ok p" and "shape p" and "pool_act a p = Some p'"
  shows "drain_ok p'"
proof -
  have len: "length (pl_affinity p) = length (pl_slots p)" using assms(2) by (simp add: shape_def)
  have done_mono: "pl_done p \<longrightarrow> pl_done p'"
    using assms(3)
    by (cases a) (auto simp: pool_step_defs call_enter_def receive_frame Let_def split: pool_splits)
  have drained: "pl_drained p' = pl_drained p \<or>
     (pl_drained p' = pl_drained p + 1 \<and> pl_drained p < length (pl_affinity p) \<and> pl_done p \<and>
      list_all (\<lambda>s. s = Exited) (pl_slots p))"
    using assms(3)
    by (cases a) (auto simp: pool_step_defs call_enter_def receive_frame Let_def split: pool_splits)
  from drained show ?thesis
  proof
    assume "pl_drained p' = pl_drained p"
    with assms(1) done_mono act_const [OF assms(3)] exited_stays [OF _ len assms(3)] show ?thesis
      by (auto simp: drain_ok_def)
  next
    assume "pl_drained p' = pl_drained p + 1 \<and> pl_drained p < length (pl_affinity p) \<and> pl_done p \<and>
      list_all (\<lambda>s. s = Exited) (pl_slots p)"
    with done_mono act_const [OF assms(3)] exited_stays [OF _ len assms(3)] show ?thesis
      by (auto simp: drain_ok_def)
  qed
qed

section \<open>The invariant and the transition system\<close>

definition pool_inv :: "pool \<Rightarrow> bool" where
  "pool_inv p \<longleftrightarrow>
     shape p \<and> conserved p \<and> calls_ok p \<and> routed p \<and> procs_ok p \<and> counters_ok p \<and> spawns_ok p \<and> drain_ok p"

definition pool_init :: "pool \<Rightarrow> bool" where
  "pool_init p \<longleftrightarrow> (\<exists>sz aff. newPool sz aff = Some p)"

lemma pool_inv_init: "pool_init p \<Longrightarrow> pool_inv p"
proof -
  assume "pool_init p"
  then obtain sz aff where "newPool sz aff = Some p" by (auto simp: pool_init_def)
  then have p: "p = \<lparr>pl_affinity = replicate (nat sz) [],
         pl_slots = replicate (nat sz) (Spawning FirstSpawn initialBackoff Checking),
         pl_affinityEnabled = aff, pl_size = sz, pl_busy = 0,
         pl_affinityHits = 0, pl_affinitySpills = 0, pl_headroomVer = None,
         pl_done = False, pl_drained = 0, pl_calls = [], pl_started = 0, pl_reaped = 0\<rparr>" and sz: "0 \<le> sz"
    by (auto simp: newPool_def split: if_splits)
  have "sum_list (map (\<lambda>b. count_list b i) (replicate (nat sz) [])) = 0" for i :: nat
    by (simp add: sum_list_triv)
  moreover have "filter P (replicate n (Spawning FirstSpawn initialBackoff Checking)) = []"
    if "\<not> P (Spawning FirstSpawn initialBackoff Checking)" for P n
    using that by simp
  ultimately show ?thesis using sz backoff_range(1)
    by (simp add: pool_inv_def p shape_def conserved_def places_def in_buffers_def count_slots_def
        answered_def submitted_def calls_ok_def routed_def procs_ok_def counters_ok_def count_calls_def
        spawns_ok_def drain_ok_def)
qed

lemma pool_inv_act: "pool_inv p \<Longrightarrow> pool_act a p = Some p' \<Longrightarrow> pool_inv p'"
  unfolding pool_inv_def
  using shape_act conserved_act calls_ok_act routed_act procs_act counters_act spawns_act drain_act
  by metis

interpretation pl: step_system pool_act pool_init pool_inv
  by unfold_locales (use pool_inv_init pool_inv_act in blast)+

lemma pool_reachable:
  "newPool sz aff = Some p0 \<Longrightarrow> run_actions pool_act as p0 = Some p \<Longrightarrow> pool_inv p"
  using pl.inv_reachable unfolding pool_init_def by blast

end
