(* ===== verification/PoolProps.thy ===== *)
theory PoolProps
  imports PoolInv
begin

text \<open>
  What the pool promises, and where the code falls short of it. Every statement is about the states
  reachable from \<open>newPool\<close> by any interleaving of the goroutines' steps (\<open>pool_reachable\<close>).
\<close>

lemma length_filter_disjoint:
  assumes "\<And>x. x \<in> set xs \<Longrightarrow> (P x \<or> Q x) = R x \<and> \<not> (P x \<and> Q x)"
  shows "length (filter P xs) + length (filter Q xs) = length (filter R xs)"
  using assms
proof (induction xs)
  case Nil
  then show ?case by simp
next
  case (Cons x xs)
  from Cons.prems [of x] have "(P x \<or> Q x) = R x \<and> \<not> (P x \<and> Q x)" by simp
  moreover have "length (filter P xs) + length (filter Q xs) = length (filter R xs)"
    using Cons by simp
  ultimately show ?case by auto
qed

section \<open>A concrete run\<close>

definition keyed_request :: compressRequest where
  "keyed_request = sample_request\<lparr>rq_AffinityKey := ''conv-A''\<rparr>"

definition answer_line :: "nat \<Rightarrow> bytes" where
  "answer_line i = object_text
     [(''id'', nat_text i), (''ok'', ''true''),
      (''result'', object_text [(''messages'', ''[]''), (''tokens_saved'', ''5'')])]"

definition start_run :: "pool_action list" where
  "start_run = [SpawnCheck 0, SpawnStart 0 ready_start]"

definition serve_run :: "pool_action list" where
  "serve_run = start_run @
     [Enter keyed_request, Check 0, Affinity 0, Count 0, Write 0 empty_heap None,
      Read 0 (Line (answer_line 1)), Return 0]"

definition pool1 :: pool where
  "pool1 = the (newPool 1 True)"

definition served :: pool where
  "served = the (run_actions pool_act serve_run pool1)"

lemma pool1_new: "newPool 1 True = Some pool1"
  by (simp add: pool1_def newPool_def)

lemma served_run: "run_actions pool_act serve_run pool1 = Some served"
proof -
  have "run_actions pool_act serve_run pool1 \<noteq> None" by code_simp
  then show ?thesis by (simp add: served_def)
qed

lemma served_call:
  "length (pl_calls served) = 1" "ca_sent (pl_calls served ! 0) = Some (Hit 0)"
  "ca_phase (pl_calls served ! 0) = Returned (Inr (zeroResult\<lparr>rs_Messages := ''[]'', rs_TokensSaved := 5, rs_Slot := 0\<rparr>))"
  by code_simp+

text \<open>Two calls with one key, the second waiting in the buffer while the slot reads; then a shutdown.\<close>

definition busy_run :: "pool_action list" where
  "busy_run = start_run @
     [Enter keyed_request, Check 0, Affinity 0, Enter keyed_request, Check 1, Affinity 1,
      Count 0, Count 1]"

definition reading_run :: "pool_action list" where
  "reading_run = busy_run @ [Write 0 empty_heap None]"

definition stopped_run :: "pool_action list" where
  "stopped_run = reading_run @
     [Cancel, Read 0 (CtxDone context_canceled), SpawnCheck 0, Stop 0]"

definition state_after :: "pool_action list \<Rightarrow> pool" where
  "state_after as = the (run_actions pool_act as pool1)"

lemma state_after_run:
  "run_actions pool_act busy_run pool1 = Some (state_after busy_run)"
  "run_actions pool_act reading_run pool1 = Some (state_after reading_run)"
  "run_actions pool_act stopped_run pool1 = Some (state_after stopped_run)"
proof -
  have "run_actions pool_act busy_run pool1 \<noteq> None" by code_simp
  then show "run_actions pool_act busy_run pool1 = Some (state_after busy_run)"
    by (simp add: state_after_def)
  have "run_actions pool_act reading_run pool1 \<noteq> None" by code_simp
  then show "run_actions pool_act reading_run pool1 = Some (state_after reading_run)"
    by (simp add: state_after_def)
  have "run_actions pool_act stopped_run pool1 \<noteq> None" by code_simp
  then show "run_actions pool_act stopped_run pool1 = Some (state_after stopped_run)"
    by (simp add: state_after_def)
qed

section \<open>Reachable states\<close>

lemma run_size: "run_actions pool_act as p = Some p' \<Longrightarrow> pl_size p' = pl_size p"
  by (induction as arbitrary: p) (auto dest: act_const split: option.splits)

lemma reachable_size:
  "newPool sz aff = Some p0 \<Longrightarrow> run_actions pool_act as p0 = Some p \<Longrightarrow> pl_size p = sz"
  using run_size [of as p0 p] by (auto simp: newPool_def split: if_splits)

lemma slot_in_range:
  assumes "0 < sz" and "sz < 2 ^ 32"
  shows "0 \<le> slotFor key sz \<and> slotFor key sz < sz"
proof (cases "sz \<le> 1")
  case True
  with assms show ?thesis by (simp add: slotFor_def)
next
  case False
  have "uint (word_of_int sz :: 32 word) = sz" using assms by (simp add: uint_word_of_int_eq take_bit_int_eq_self)
  then have "uint (fnv32a key mod word_of_int sz) = uint (fnv32a key) mod sz" by (simp add: uint_mod)
  with False assms show ?thesis by (simp add: slotFor_def)
qed

lemma never_panicked:
  assumes "newPool sz aff = Some p0" and "run_actions pool_act as p0 = Some p"
    and "0 < sz" and "sz < 2 ^ 32" and "j < length (pl_calls p)"
  shows "ca_phase (pl_calls p ! j) \<noteq> Panicked"
proof
  assume ph: "ca_phase (pl_calls p ! j) = Panicked"
  from pool_reachable [OF assms(1,2)] have "calls_ok p" by (simp add: pool_inv_def)
  from call_phase_ok [OF call_at [OF this assms(5)] ph]
  have "pl_size p \<le> slotFor (rq_AffinityKey (ca_req (pl_calls p ! j))) (pl_size p)" by simp
  moreover have "pl_size p = sz" by (rule reachable_size [OF assms(1,2)])
  ultimately show False using slot_in_range [OF assms(3,4)] by (metis not_le)
qed

section \<open>Routing\<close>

text \<open>
  Routing: a key always selects a slot of the pool, for every pool of at least one slot.
\<close>

theorem slotFor_range:
  assumes "0 < sz" and "sz < 2 ^ 32"
  shows "0 \<le> slotFor key sz \<and> slotFor key sz < sz"
  by (rule slot_in_range [OF assms])

theorem slotFor_range_witness: "0 \<le> slotFor ''conv-A'' 8 \<and> slotFor ''conv-A'' 8 < 8"
  by (rule slotFor_range) simp_all

section \<open>Jobs\<close>

text \<open>
  C5. No job is lost, duplicated or answered twice: in every reachable state a job that was handed
  over is in exactly one place (an affinity buffer, a slot, or its answer channel), and one that was
  not is nowhere.
\<close>

theorem job_in_one_place:
  assumes "newPool sz aff = Some p0" and "run_actions pool_act as p0 = Some p"
    and "j < length (pl_calls p)"
  shows "in_buffers p j + count_slots (\<lambda>s. job_of s = Some j) p +
      (if ca_resp (pl_calls p ! j) \<noteq> None then 1 else 0) =
    (if ca_sent (pl_calls p ! j) \<noteq> None then 1 else 0)"
proof -
  from pool_reachable [OF assms(1,2)] have "places p j = submitted p j"
    by (simp add: pool_inv_def conserved_def)
  with assms(3) show ?thesis by (simp add: places_def answered_def submitted_def)
qed

theorem job_in_one_place_witness:
  "in_buffers (state_after busy_run) 1 + count_slots (\<lambda>s. job_of s = Some 1) (state_after busy_run) = 1"
proof -
  have "1 < length (pl_calls (state_after busy_run))"
    "ca_resp (pl_calls (state_after busy_run) ! 1) = None"
    "ca_sent (pl_calls (state_after busy_run) ! 1) \<noteq> None" by code_simp+
  then show ?thesis using job_in_one_place [OF pool1_new state_after_run(1), of 1] by simp
qed

text \<open>
  C6. A call returns its own answer, its context's error, or the shutdown error, and a result is
  stamped with the slot that served it: for a call counted as an affinity hit, the slot its key selects.
\<close>

theorem returned_result:
  assumes "newPool sz aff = Some p0" and "run_actions pool_act as p0 = Some p"
    and "j < length (pl_calls p)" and "ca_phase (pl_calls p ! j) = Returned r"
  shows "(r = Inl CtxError \<or> r = Inl ShuttingDown \<or> ca_resp (pl_calls p ! j) = Some r) \<and>
    (\<forall>res k. r = Inr res \<longrightarrow> ca_sent (pl_calls p ! j) = Some (Hit k) \<longrightarrow>
       rs_Slot res = slotFor (rq_AffinityKey (ca_req (pl_calls p ! j))) (pl_size p)) \<and>
    (\<forall>res. r = Inr res \<longrightarrow> ca_sent (pl_calls p ! j) \<in> {Some (Hit (nat (rs_Slot res))), Some (Spill (nat (rs_Slot res)))})"
proof -
  from pool_reachable [OF assms(1,2)] have "calls_ok p" by (simp add: pool_inv_def)
  from call_at [OF this assms(3)] have ok: "call_ok p (pl_calls p ! j)" .
  from call_phase_ok [OF ok assms(4)]
  have r: "r = Inl CtxError \<or> r = Inl ShuttingDown \<or> ca_resp (pl_calls p ! j) = Some r" by auto
  show ?thesis
  proof (intro conjI allI impI)
    fix res k
    assume "r = Inr res" and "ca_sent (pl_calls p ! j) = Some (Hit k)"
    with r ok show "rs_Slot res = slotFor (rq_AffinityKey (ca_req (pl_calls p ! j))) (pl_size p)"
      by (auto simp: call_ok_def)
  next
    fix res
    assume "r = Inr res"
    with r ok show "ca_sent (pl_calls p ! j) \<in> {Some (Hit (nat (rs_Slot res))), Some (Spill (nat (rs_Slot res)))}"
      by (auto simp: call_ok_def)
  qed (rule r)
qed

theorem returned_result_witness:
  "int 0 = slotFor (rq_AffinityKey (ca_req (pl_calls served ! 0))) (pl_size served)"
  using returned_result [OF pool1_new served_run _ served_call(3)] served_call by simp



section \<open>Gauges and processes\<close>

lemma count_slots_le: "count_slots P p \<le> int (length (pl_slots p))"
  by (simp add: count_slots_def)

lemma busy_exact:
  assumes "pool_inv p" and "pl_size p < 2 ^ 63"
  shows "stats p = (pl_size p, count_slots running p) \<and> 0 \<le> count_slots running p \<and> count_slots running p \<le> pl_size p"
proof -
  from assms(1) have inv: "shape p" "procs_ok p" by (auto simp: pool_inv_def)
  have le: "count_slots running p \<le> pl_size p"
    using count_slots_le [of running p] inv(1) by (simp add: shape_def)
  have "sint (word_of_int (count_slots running p) :: i64) = count_slots running p"
    using le assms(2) places_nonneg(2) [of running p]
    by (simp add: signed_of_int signed_take_bit_int_eq_self)
  with inv le places_nonneg(2) [of running p] show ?thesis by (simp add: stats_def procs_ok_def)
qed

text \<open>
  C26. The saturation gauge is exact and bounded: in every reachable state \<open>stats\<close> reports the size
  and the number of slots inside a worker call, which is between zero and the size.
\<close>

theorem busy_gauge:
  assumes "newPool sz aff = Some p0" and "run_actions pool_act as p0 = Some p" and "sz < 2 ^ 63"
  shows "stats p = (sz, count_slots running p) \<and> 0 \<le> count_slots running p \<and> count_slots running p \<le> sz"
  using busy_exact [OF pool_reachable [OF assms(1,2)]] reachable_size [OF assms(1,2)] assms(3) by simp

theorem busy_gauge_witness:
  "stats (state_after reading_run) = (1, count_slots running (state_after reading_run))"
  using busy_gauge [OF pool1_new state_after_run(2)] by simp



section \<open>Backoff\<close>

text \<open>
  The backoff doubles from 200 ms up to 10 s: after \<open>n\<close> failed starts it is \<open>min 10000 (200 * 2^n)\<close>.
\<close>

theorem backoff_closed_form: "(next_backoff ^^ n) initialBackoff = min maxBackoff (initialBackoff * 2 ^ n)"
proof (induction n)
  case 0
  then show ?case by (simp add: initialBackoff_def maxBackoff_def)
next
  case (Suc n)
  then show ?case by (auto simp: next_backoff_def min_def)
qed

section \<open>Panics\<close>

text \<open>
  No dispatch panics in a pool of at least one slot: in every reachable state no call has indexed
  the affinity channels out of range.
\<close>

theorem no_panic:
  assumes "newPool sz aff = Some p0" and "run_actions pool_act as p0 = Some p"
    and "0 < sz" and "sz < 2 ^ 32" and "j < length (pl_calls p)"
  shows "ca_phase (pl_calls p ! j) \<noteq> Panicked"
  by (rule never_panicked [OF assms])

theorem no_panic_witness: "ca_phase (pl_calls served ! 0) \<noteq> Panicked"
  by (rule no_panic [OF pool1_new served_run]) (simp_all add: served_call)

text \<open>
  With size zero, which \<open>newPool\<close> accepts and \<open>slotFor\<close> documents as safe, the first keyed call
  indexes the empty slice and panics.
\<close>

theorem empty_pool_panics:
  "map_option (\<lambda>p. ca_phase (pl_calls p ! 0))
     (run_actions pool_act [Enter keyed_request, Check 0, Affinity 0] (the (newPool 0 True))) = Some Panicked"
  by code_simp

section \<open>The headroom version\<close>

text \<open>A version is only ever replaced by another non-empty one.\<close>

definition ver_ok :: "pool \<Rightarrow> bool" where
  "ver_ok p \<longleftrightarrow> headroomVersion p \<noteq> Some ''''"

definition ver_known :: "pool \<Rightarrow> nat" where
  "ver_known p = (if headroomVersion p = None then 0 else 1)"

lemma ver_frame [simp]:
  "pl_headroomVer (answer j r p) = pl_headroomVer p" "pl_headroomVer (set_phase j ph p) = pl_headroomVer p"
  "pl_headroomVer (sent j rt af p) = pl_headroomVer p" "pl_headroomVer (receive k j p) = pl_headroomVer p"
  "pl_headroomVer (spawned k af' w p) = pl_headroomVer p" "pl_headroomVer (spawn_nil k af' p) = pl_headroomVer p"
  "pl_headroomVer (recycle k j e p) = pl_headroomVer p"
  by (simp_all add: call_upd_defs receive_def spawned_def spawn_nil_def recycle_def
      split: slot.split option.split after_spawn.split)

lemma ver_answer_all [simp]: "pl_headroomVer (answer_all js p) = pl_headroomVer p"
  by (induction js p rule: answer_all.induct) simp_all

lemma ver_act:
  assumes "pool_act a p = Some p'"
  shows "pl_headroomVer p' = pl_headroomVer p \<or> (\<exists>v. v \<noteq> '''' \<and> pl_headroomVer p' = Some v)"
  using assms
  by (cases a)
     (auto simp: pool_step_defs call_enter_def recordHeadroomVersion_def Let_def split: pool_splits)

interpretation version: monotone_system pool_act pool_init ver_ok ver_known
proof unfold_locales
  show "pool_init p \<Longrightarrow> ver_ok p" for p
    by (auto simp: pool_init_def newPool_def ver_ok_def headroomVersion_def split: if_splits)
  show "ver_ok p \<Longrightarrow> pool_act a p = Some p' \<Longrightarrow> ver_ok p'" for p a p'
    using ver_act by (fastforce simp: ver_ok_def headroomVersion_def)
  show "ver_ok p \<Longrightarrow> pool_act a p = Some p' \<Longrightarrow> ver_known p \<le> ver_known p'" for p a p'
    using ver_act by (fastforce simp: ver_known_def headroomVersion_def)
qed

text \<open>
  The version the pool reports is never empty, and once one is known it stays known, whatever
  workers die or restart afterwards.
\<close>

theorem version_stays_known:
  assumes "newPool sz aff = Some p0" and "run_actions pool_act as p0 = Some p"
    and "run_actions pool_act bs p = Some q"
  shows "headroomVersion p \<noteq> Some '''' \<and> (headroomVersion p \<noteq> None \<longrightarrow> headroomVersion q \<noteq> None)"
proof -
  have ok: "ver_ok p" by (rule version.inv_reachable [OF _ assms(2)]) (use assms in \<open>auto simp: pool_init_def\<close>)
  from version.gauge_run [OF ok assms(3)] ok show ?thesis
    by (auto simp: ver_known_def ver_ok_def split: if_splits)
qed

theorem version_stays_known_witness: "headroomVersion (served\<lparr>pl_done := True\<rparr>) \<noteq> None"
proof -
  have "headroomVersion served \<noteq> None" by code_simp
  moreover have "run_actions pool_act [Cancel] served = Some (served\<lparr>pl_done := True\<rparr>)"
    by (simp add: shutdown_cancel_def)
  ultimately show ?thesis using version_stays_known [OF pool1_new served_run] by blast
qed

section \<open>Progress\<close>

text \<open>The steps of the program and its workers, as opposed to new calls, cancellation and shutdown.\<close>

fun internal :: "pool_action \<Rightarrow> bool" where
  "internal (Enter req) = False"
| "internal (CancelCtx j) = False"
| "internal Cancel = False"
| "internal (GiveUp j) = False"
| "internal _ = True"

lemma slot_progress:
  assumes "k < length (pl_slots p)" and "\<not> is_parked (pl_slots p ! k)" and "\<not> pl_done p" and "spawns_ok p"
  shows "\<exists>a p'. internal a \<and> pool_act a p = Some p'"
proof (cases "pl_slots p ! k")
  case (Spawning af b ph)
  show ?thesis
  proof (cases ph)
    case Checking
    with Spawning assms(1) show ?thesis
      by (intro exI [of _ "SpawnCheck k"]) (simp add: slot_check_def)
  next
    case Starting
    with Spawning assms(1) show ?thesis
      by (intro exI [of _ "SpawnStart k ready_start"])
         (simp add: slot_start_def split: sum.split prod.split)
  next
    case Sleeping
    with Spawning assms(1) show ?thesis
      by (intro exI [of _ "SpawnWake k"]) (simp add: slot_wake_def)
  qed
next
  case (Writing w j)
  with assms(1) show ?thesis
    by (intro exI [of _ "Write k empty_heap None"]) (simp add: slot_write_def split: sum.split prod.split)
next
  case (Reading w j)
  with assms(1) show ?thesis
    by (intro exI [of _ "Read k (CtxDone deadline_exceeded)"])
       (simp add: slot_read_def may_end_def split: sum.split)
qed (use assms spawn_ok_at [OF assms(4,1)] in \<open>auto simp: is_parked_def\<close>)

lemma filled_buffer:
  assumes "0 < in_buffers p j"
  shows "\<exists>k < length (pl_affinity p). pl_affinity p ! k \<noteq> []"
proof (rule ccontr)
  assume "\<not> ?thesis"
  then have "\<forall>b \<in> set (pl_affinity p). count_list b j = 0" by (auto simp: in_set_conv_nth)
  then have "in_buffers p j = 0" by (auto simp: in_buffers_def sum_list_eq_0_iff)
  with assms show False by simp
qed

lemma held_by_slot:
  assumes "0 < count_slots P p"
  shows "\<exists>k < length (pl_slots p). P (pl_slots p ! k)"
proof -
  from assms have "filter P (pl_slots p) \<noteq> []" by (auto simp: count_slots_def)
  then obtain s where "s \<in> set (pl_slots p)" "P s" by (auto simp: filter_empty_conv)
  then show ?thesis by (auto simp: in_set_conv_nth)
qed

text \<open>A waiting call is answered, or its job is in a buffer, or a slot holds it.\<close>

lemma waiting_place:
  assumes "pool_inv p" and "j < length (pl_calls p)" and "ca_phase (pl_calls p ! j) = Waiting"
  obtains "ca_resp (pl_calls p ! j) \<noteq> None"
  | k where "k < length (pl_affinity p)" "pl_affinity p ! k \<noteq> []"
  | k where "k < length (pl_slots p)" "\<not> is_parked (pl_slots p ! k)"
proof -
  note inv = assms(1) [unfolded pool_inv_def]
  have "submitted p j = 1"
    using call_phase_ok [OF call_at [OF _ assms(2)] assms(3)] inv assms(2) by (auto simp: submitted_def)
  then have "in_buffers p j + count_slots (\<lambda>s. job_of s = Some j) p + answered p j = 1"
    using inv by (simp add: conserved_def places_def)
  then consider "0 < answered p j" | "0 < in_buffers p j" | "0 < count_slots (\<lambda>s. job_of s = Some j) p"
    using places_nonneg(1,3) [of p j] places_nonneg(2) [of "\<lambda>s. job_of s = Some j" p] by linarith
  then show ?thesis
  proof cases
    case 1
    with that(1) show ?thesis by (auto simp: answered_def split: if_splits)
  next
    case 2
    with that(2) filled_buffer show ?thesis by blast
  next
    case 3
    then obtain k where k: "k < length (pl_slots p)" "job_of (pl_slots p ! k) = Some j"
      using held_by_slot by blast
    then have "\<not> is_parked (pl_slots p ! k)" using is_parked_job [of "pl_slots p ! k"] by fastforce
    with k(1) that(3) show ?thesis by blast
  qed
qed

text \<open>
  C7. No deadlock: in every reachable state of a pool that is not shutting down, as long as some call
  has not returned, a step of a goroutine or of a worker is possible.
\<close>

theorem pool_progress:
  assumes "newPool sz aff = Some p0" and "run_actions pool_act as p0 = Some p"
    and "0 < sz" and "sz < 2 ^ 32" and "\<not> pl_done p"
    and "j < length (pl_calls p)" and "\<forall>r. ca_phase (pl_calls p ! j) \<noteq> Returned r"
  shows "\<exists>a p'. internal a \<and> pool_act a p = Some p'"
proof -
  note reach = pool_reachable [OF assms(1,2)]
  note inv = reach [unfolded pool_inv_def]
  from reachable_size [OF assms(1,2)] inv assms(3)
  have len: "length (pl_slots p) = nat sz" "length (pl_affinity p) = nat sz" and pos: "0 < nat sz"
    by (auto simp: shape_def)
  have busy: "\<exists>a p'. internal a \<and> pool_act a p = Some p'" if "k < nat sz" "\<not> is_parked (pl_slots p ! k)" for k
    by (rule slot_progress [of k]) (use that assms(5) inv len in auto)
  show ?thesis
  proof (cases "ca_phase (pl_calls p ! j)")
    case Entering
    with assms(6) show ?thesis by (intro exI [of _ "Check j"]) (simp add: call_check_def)
  next
    case AtAffinity
    with assms(6) show ?thesis by (intro exI [of _ "Affinity j"]) (simp add: call_affinity_def Let_def)
  next
    case AtShared
    with assms(6) len pos busy [of 0] show ?thesis
      by (cases "is_parked (pl_slots p ! 0)")
        (auto intro: exI [of _ "Shared j 0"] simp: call_shared_def)
  next
    case (Counting hit)
    with assms(6) show ?thesis by (intro exI [of _ "Count j"]) (simp add: call_count_def)
  next
    case Waiting
    from reach assms(6) Waiting show ?thesis
    proof (cases rule: waiting_place)
      case 1
      with Waiting assms(6) show ?thesis by (intro exI [of _ "Return j"]) (auto simp: call_return_def)
    next
      case (2 k)
      with len busy [of k] show ?thesis
        by (cases "is_parked (pl_slots p ! k)")
          (auto intro!: exI [of _ "Take k"] simp: slot_take_def split: list.split)
    qed (use busy len in simp)
  qed (use never_panicked [OF assms(1-4,6)] assms(7) in simp_all)
qed

theorem pool_progress_witness:
  "\<exists>a p'. internal a \<and> pool_act a (state_after busy_run) = Some p'"
proof (rule pool_progress [OF pool1_new state_after_run(1), of 1])
  show "\<not> pl_done (state_after busy_run)" "1 < length (pl_calls (state_after busy_run))" by code_simp+
  have "ca_phase (pl_calls (state_after busy_run) ! 1) = Waiting" by code_simp
  then show "\<forall>r. ca_phase (pl_calls (state_after busy_run) ! 1) \<noteq> Returned r" by simp
qed simp_all

section \<open>Shutdown\<close>

lemma resp_answer:
  "j < length (pl_calls q) \<Longrightarrow> ca_resp (pl_calls (answer i r q) ! j) =
     (if i = j then Some r else ca_resp (pl_calls q ! j))"
  by (auto simp: answer_def nth_upd)

lemma answered_stays:
  "j < length (pl_calls q) \<Longrightarrow> ca_resp (pl_calls q ! j) = Some (Inl ShuttingDown) \<Longrightarrow>
   ca_resp (pl_calls (answer_all ks q) ! j) = Some (Inl ShuttingDown)"
  by (induction ks q rule: answer_all.induct) (simp_all add: resp_answer)

lemma answered_once_all:
  "j \<in> set js \<Longrightarrow> j < length (pl_calls p) \<Longrightarrow>
   ca_resp (pl_calls (answer_all js p) ! j) = Some (Inl ShuttingDown)"
  by (induction js p rule: answer_all.induct) (auto simp: resp_answer answered_stays)

text \<open>
  Shutdown loses nobody that it finds: once all slots have exited, every job handed over is
  answered or still in an affinity buffer, and each drain step answers the jobs of its buffer with the
  shutdown error and leaves the buffer empty.
\<close>

theorem shutdown_drains:
  assumes "newPool sz aff = Some p0" and "run_actions pool_act as p0 = Some p"
    and "list_all (\<lambda>s. s = Exited) (pl_slots p)"
  shows "(\<forall>j. j < length (pl_calls p) \<and> ca_sent (pl_calls p ! j) \<noteq> None \<and> ca_resp (pl_calls p ! j) = None \<longrightarrow>
      in_buffers p j = 1) \<and>
    (\<forall>p' j. pool_act Drain p = Some p' \<longrightarrow> j \<in> set (pl_affinity p ! pl_drained p) \<longrightarrow>
      ca_resp (pl_calls p' ! j) = Some (Inl ShuttingDown) \<and> pl_affinity p' ! pl_drained p = [])"
proof -
  note inv = pool_reachable [OF assms(1,2), unfolded pool_inv_def]
  have none: "count_slots (\<lambda>s. job_of s = Some j) p = 0" for j
    using assms(3) by (auto simp: count_slots_def list_all_iff filter_empty_conv)
  have "in_buffers p j = 1"
    if "j < length (pl_calls p)" "ca_sent (pl_calls p ! j) \<noteq> None" "ca_resp (pl_calls p ! j) = None" for j
  proof -
    have "places p j = submitted p j" using inv by (simp add: conserved_def)
    with none [of j] that show ?thesis by (simp add: places_def answered_def submitted_def)
  qed
  moreover have "ca_resp (pl_calls p' ! j) = Some (Inl ShuttingDown) \<and> pl_affinity p' ! pl_drained p = []"
    if d: "pool_act Drain p = Some p'" and j: "j \<in> set (pl_affinity p ! pl_drained p)" for p' j
  proof -
    from d have len: "pl_drained p < length (pl_affinity p)"
      and p': "p' = set_buffer (pl_drained p) [] (answer_all (pl_affinity p ! pl_drained p)
        (p\<lparr>pl_drained := pl_drained p + 1\<rparr>))"
      by (auto simp: shutdown_drain_def split: if_splits)
    have "j < length (pl_calls p)" using job_in_buffer [OF _ len j] inv by simp
    with j len show ?thesis unfolding p' by (simp add: answered_once_all)
  qed
  ultimately show ?thesis by blast
qed

theorem shutdown_drains_witness: "in_buffers (state_after stopped_run) 1 = 1"
proof -
  have "list_all (\<lambda>s. s = Exited) (pl_slots (state_after stopped_run))"
    "1 < length (pl_calls (state_after stopped_run))"
    "ca_resp (pl_calls (state_after stopped_run) ! 1) = None"
    "ca_sent (pl_calls (state_after stopped_run) ! 1) \<noteq> None" by code_simp+
  then show ?thesis using shutdown_drains [OF pool1_new state_after_run(3)] by blast
qed

text \<open>
  A call stranded by the race: \<open>Shutdown\<close> has returned, and the call's job sits in a buffer nobody
  will read. Every step but the cancellation of that call's own context keeps it so.
\<close>

definition stranded :: "nat \<Rightarrow> pool \<Rightarrow> bool" where
  "stranded j p \<longleftrightarrow>
     list_all (\<lambda>s. s = Exited) (pl_slots p) \<and> length (pl_affinity p) = length (pl_slots p) \<and>
     pl_drained p = length (pl_affinity p) \<and>
     j < length (pl_calls p) \<and> ca_resp (pl_calls p ! j) = None \<and> \<not> ca_ctx (pl_calls p ! j) \<and>
     ca_phase (pl_calls p ! j) \<in> {Counting True, Waiting}"

definition act_unless :: "nat \<Rightarrow> pool_action \<Rightarrow> pool \<Rightarrow> pool option" where
  "act_unless j a p = (if a = CancelCtx j then None else pool_act a p)"

lemma stranded_act:
  assumes "stranded j p" and "pool_act a p = Some p'" and "a \<noteq> CancelCtx j"
  shows "stranded j p'"
proof -
  have ex: "pl_slots p ! k = Exited" if "k < length (pl_slots p)" for k
    using assms(1) that by (simp add: stranded_def list_all_length)
  show ?thesis
  proof (cases a)
    case (Affinity i)
    let ?k = "nat (slotFor (rq_AffinityKey (ca_req (pl_calls p ! i))) (pl_size p))"
    have "\<not> is_parked (pl_slots p ! ?k)" if "?k < length (pl_affinity p)"
      using ex [of ?k] that assms(1) by (simp add: stranded_def is_parked_def)
    with assms Affinity show ?thesis
      by (auto simp: call_affinity_def stranded_def call_upd_defs nth_upd Let_def split: if_splits)
  next
    case (Enter req)
    with assms show ?thesis by (auto simp: stranded_def call_enter_def nth_append)
  qed (use assms ex in
      \<open>auto simp: pool_step_defs stranded_def call_upd_defs nth_upd is_parked_def
        split: if_splits call_phase.splits\<close>)
qed

interpretation strand: step_system "act_unless j" "stranded j" "stranded j" for j
  by unfold_locales (auto simp: act_unless_def intro: stranded_act split: if_splits)

lemma run_unless:
  "CancelCtx j \<notin> set as \<Longrightarrow> run_actions (act_unless j) as p = run_actions pool_act as p"
  by (induction as arbitrary: p) (auto simp: act_unless_def split: option.splits)

definition race_run :: "pool_action list" where
  "race_run = start_run @
     [Enter keyed_request, Check 0, Cancel, Stop 0, Closed 0 True, Drain, Affinity 0]"

definition raced :: pool where
  "raced = the (run_actions pool_act race_run pool1)"

lemma raced_run: "run_actions pool_act race_run pool1 = Some raced"
proof -
  have "run_actions pool_act race_run pool1 \<noteq> None" by code_simp
  then show ?thesis by (simp add: raced_def)
qed

lemma raced_stranded: "stranded 0 raced"
  by code_simp

text \<open>
  C20. The shutdown race: a call that passes \<open>dispatch\<close>'s check just before \<open>Shutdown\<close> cancels, and whose
  affinity send comes after the drain, is stranded. \<open>Shutdown\<close> has returned, and whatever happens next,
  short of the call's own context ending, the call never returns.
\<close>

theorem shutdown_race:
  "run_actions pool_act race_run pool1 = Some raced \<and>
   pl_drained raced = length (pl_affinity raced) \<and>
   (\<forall>as p r. CancelCtx 0 \<notin> set as \<longrightarrow> run_actions pool_act as raced = Some p \<longrightarrow>
      ca_phase (pl_calls p ! 0) \<noteq> Returned r)"
proof (intro conjI allI impI)
  show "run_actions pool_act race_run pool1 = Some raced" by (rule raced_run)
  show "pl_drained raced = length (pl_affinity raced)" using raced_stranded by (simp add: stranded_def)
  fix as p r
  assume "CancelCtx 0 \<notin> set as" and "run_actions pool_act as raced = Some p"
  then have "run_actions (act_unless 0) as raced = Some p" by (simp add: run_unless)
  from strand.inv_run [OF raced_stranded this] show "ca_phase (pl_calls p ! 0) \<noteq> Returned r"
    by (auto simp: stranded_def)
qed

theorem shutdown_race_witness: "ca_phase (pl_calls raced ! 0) \<noteq> Returned (Inl ShuttingDown)"
proof -
  have "run_actions pool_act [] raced = Some raced" by simp
  with shutdown_race show ?thesis by (metis list.set(1) empty_iff)
qed

section \<open>The hard cap\<close>

lemma nth_other_slot: "i \<noteq> k \<Longrightarrow> (pl_slots p)[i := s] ! k = pl_slots p ! k"
  by simp

text \<open>
  The hard cap bounds the read of a call but not its write: a slot that reads can always be freed by
  the cap, while a slot that is still writing to its worker's stdin changes only when that very write
  returns, whatever the clock, the callers or \<open>Shutdown\<close> do.
\<close>

theorem write_not_bounded:
  assumes "k < length (pl_slots p)"
  shows "(\<forall>w j. pl_slots p ! k = Reading w j \<longrightarrow>
      pool_act (Read k (CtxDone deadline_exceeded)) p = Some (recycle k j (ReadWorker deadline_exceeded) p)) \<and>
    (\<forall>w j a p'. pl_slots p ! k = Writing w j \<longrightarrow> pool_act a p = Some p' \<longrightarrow>
      (\<forall>h wrote. a \<noteq> Write k h wrote) \<longrightarrow> pl_slots p' ! k = Writing w j)"
proof (intro conjI allI impI)
  fix w j
  assume "pl_slots p ! k = Reading w j"
  with assms show "pool_act (Read k (CtxDone deadline_exceeded)) p =
      Some (recycle k j (ReadWorker deadline_exceeded) p)"
    by (simp add: slot_read_def may_end_def do_receive_def readLine_def)
next
  fix w j a p'
  assume s: "pl_slots p ! k = Writing w j" and step: "pool_act a p = Some p'"
    and a: "\<forall>h wrote. a \<noteq> Write k h wrote"
  have np: "\<not> is_parked (Writing w j)" by (simp add: is_parked_def)
  have rec: "pl_slots (receive i x q) ! k = Writing w j"
    if "is_parked (pl_slots q ! i)" "pl_slots q ! k = Writing w j" for i x q
    using that np by (cases "i = k") (auto simp: receive_def split: slot.split option.split)
  have spn: "pl_slots (spawned i af w' q) ! k = Writing w j" "pl_slots (spawn_nil i af q) ! k = Writing w j"
    "pl_slots (recycle i x e q) ! k = Writing w j"
    if "i \<noteq> k" "pl_slots q ! k = Writing w j" for i af w' q x e
    using that by (cases af; simp add: spawned_def spawn_nil_def recycle_def)+
  have ik: "i \<noteq> k" if "pl_slots p ! i \<noteq> Writing w j" for i using that s by auto
  show "pl_slots p' ! k = Writing w j"
  proof (cases a)
    case (Write i h wrote)
    with a have "i \<noteq> k" by auto
    with Write step s spn show ?thesis by (auto simp: slot_write_def split: pool_splits)
  qed (use step s rec spn ik np in
      \<open>auto simp: pool_step_defs call_enter_def Let_def split: pool_splits\<close>)
qed

theorem write_not_bounded_witness:
  "map_option (\<lambda>p. pl_slots p ! 0) (pool_act Cancel (state_after busy_run)) = Some (pl_slots (state_after busy_run) ! 0)"
proof -
  have k: "0 < length (pl_slots (state_after busy_run))" by code_simp
  have "case pl_slots (state_after busy_run) ! 0 of Writing w j \<Rightarrow> True | _ \<Rightarrow> False" by code_simp
  then obtain w j where "pl_slots (state_after busy_run) ! 0 = Writing w j" by (auto split: slot.splits)
  with write_not_bounded [OF k] show ?thesis by (auto simp: shutdown_cancel_def)
qed



end
