(* ===== verification/PoolShutdown.thy ===== *)
theory PoolShutdown
  imports PoolProps
begin

text \<open>
  Once \<open>Shutdown\<close> has cancelled the pool's context, the program has only finitely many steps left: a
  load on the slots, the buffers and the calls decreases with each. When none is left, every slot has
  exited, every buffer is drained and every caller has its answer, but for those of the race between
  \<open>dispatch\<close> and \<open>Shutdown\<close>.
\<close>

section \<open>The load\<close>

text \<open>New calls, cancelled requests and a second shutdown are not steps of the program itself.\<close>

fun own_step :: "pool_action \<Rightarrow> bool" where
  "own_step (Enter req) = False"
| "own_step (CancelCtx j) = False"
| "own_step Cancel = False"
| "own_step _ = True"

fun slot_load :: "slot \<Rightarrow> nat" where
  "slot_load Exited = 0"
| "slot_load (Closing w) = 1"
| "slot_load (Parked w) = 2"
| "slot_load (Spawning af b Checking) = 3"
| "slot_load (Spawning af b Sleeping) = 4"
| "slot_load (Reading w j) = 4"
| "slot_load (Writing w j) = 5"
| "slot_load (Spawning af b Starting) = 6"

fun phase_load :: "call_phase \<Rightarrow> nat" where
  "phase_load Entering = 1"
| "phase_load AtAffinity = 7"
| "phase_load AtShared = 6"
| "phase_load (Counting hit) = 2"
| "phase_load Waiting = 1"
| "phase_load (Returned r) = 0"
| "phase_load Panicked = 0"

definition slots_load :: "pool \<Rightarrow> nat" where
  "slots_load p = sum_list (map slot_load (pl_slots p))"

definition calls_load :: "pool \<Rightarrow> nat" where
  "calls_load p = sum_list (map (\<lambda>c. phase_load (ca_phase c)) (pl_calls p))"

definition buffers_load :: "pool \<Rightarrow> nat" where
  "buffers_load p = sum_list (map (\<lambda>b. 4 * length b) (pl_affinity p))"

definition load :: "pool \<Rightarrow> nat" where
  "load p = slots_load p + calls_load p + buffers_load p + (length (pl_affinity p) - pl_drained p)"

lemma sum_list_list_update:
  fixes f :: "'a \<Rightarrow> nat"
  shows "k < length xs \<Longrightarrow> sum_list (map f (xs[k := y])) + f (xs ! k) = sum_list (map f xs) + f y"
  using sum_list_update_nat [of k "map f xs" "f y"] by (simp add: map_update)

lemma load_set_slot:
  "k < length (pl_slots p) \<Longrightarrow> load (set_slot k s p) + slot_load (pl_slots p ! k) = load p + slot_load s"
  using sum_list_list_update [of k "pl_slots p" slot_load s]
  by (simp add: load_def slots_load_def calls_load_def buffers_load_def set_slot_def)

lemma load_upd_call:
  "j < length (pl_calls p) \<Longrightarrow> load (upd_call j f p) + phase_load (ca_phase (pl_calls p ! j)) =
     load p + phase_load (ca_phase (f (pl_calls p ! j)))"
  using sum_list_list_update [of j "pl_calls p" "\<lambda>c. phase_load (ca_phase c)" "f (pl_calls p ! j)"]
  by (simp add: load_def slots_load_def calls_load_def buffers_load_def upd_call_def)

lemma load_set_buffer:
  "k < length (pl_affinity p) \<Longrightarrow>
   load (set_buffer k b p) + 4 * length (pl_affinity p ! k) = load p + 4 * length b"
  using sum_list_list_update [of k "pl_affinity p" "\<lambda>b. 4 * length b" b]
  by (simp add: load_def slots_load_def calls_load_def buffers_load_def set_buffer_def)

lemma load_set_phase:
  "j < length (pl_calls p) \<Longrightarrow>
   load (set_phase j ph p) + phase_load (ca_phase (pl_calls p ! j)) = load p + phase_load ph"
  using load_upd_call [of j p "\<lambda>c. c\<lparr>ca_phase := ph\<rparr>"] by (simp add: set_phase_def)

lemma load_sent:
  "j < length (pl_calls p) \<Longrightarrow>
   load (sent j rt af p) + phase_load (ca_phase (pl_calls p ! j)) \<le> load p + 2"
  using load_upd_call [of j p] by (auto simp: sent_def)

lemma load_answer [simp]: "load (answer j r p) = load p"
proof (cases "j < length (pl_calls p)")
  case True
  with load_upd_call [of j p "\<lambda>c. c\<lparr>ca_resp := Some r\<rparr>"] show ?thesis by (simp add: answer_def)
next
  case False
  then have "answer j r p = p" by (simp add: answer_def upd_call_def list_update_beyond)
  then show ?thesis by simp
qed

lemma set_slot_less:
  "k < length (pl_slots q) \<Longrightarrow> load q = load p \<Longrightarrow> slot_load s < slot_load (pl_slots q ! k) \<Longrightarrow>
   load (set_slot k s q) < load p"
  using load_set_slot [of k q s] by linarith

lemma set_phase_less:
  "j < length (pl_calls q) \<Longrightarrow> load q = load p \<Longrightarrow> phase_load ph < phase_load (ca_phase (pl_calls q ! j)) \<Longrightarrow>
   load (set_phase j ph q) < load p"
  using load_set_phase [of j q ph] by linarith

lemma load_scalar [simp]:
  "load (p\<lparr>pl_busy := x\<rparr>) = load p"
  "load (p\<lparr>pl_started := n\<rparr>) = load p"
  "load (p\<lparr>pl_reaped := n\<rparr>) = load p"
  "load (p\<lparr>pl_affinityHits := y\<rparr>) = load p"
  "load (p\<lparr>pl_affinitySpills := y\<rparr>) = load p"
  "load (p\<lparr>pl_headroomVer := v\<rparr>) = load p"
  by (simp_all add: load_def slots_load_def calls_load_def buffers_load_def)

lemma load_version [simp]: "load (recordHeadroomVersion ver p) = load p"
  by (simp add: recordHeadroomVersion_def)

lemma load_answer_all [simp]: "load (answer_all js p) = load p"
  by (induction js p rule: answer_all.induct) simp_all

lemma slot_at_scalar [simp]:
  "pl_slots (recordHeadroomVersion ver p) = pl_slots p"
  "pl_slots (answer j r p) = pl_slots p"
  by (simp_all add: recordHeadroomVersion_def answer_def upd_call_def)

lemma load_receive:
  assumes "k < length (pl_slots p)" and "is_parked (pl_slots p ! k)"
  shows "load (receive k j p) \<le> load p + 3"
proof -
  have "load (set_slot k s q) + 2 = load p + slot_load s"
    if "load q = load p" "pl_slots q = pl_slots p" for s q
    using load_set_slot [of k q s] assms that by (auto simp: is_parked_def split: slot.splits)
  from this [of p] this [of "p\<lparr>pl_busy := pl_busy p + 1\<rparr>"] have
    "load (set_slot k s p) + 2 = load p + slot_load s"
    "load (set_slot k s (p\<lparr>pl_busy := pl_busy p + 1\<rparr>)) + 2 = load p + slot_load s" for s by simp_all
  from this(1) [of "Spawning (Retry j) initialBackoff Checking"] this(2) [of "Writing w j" for w]
  show ?thesis by (auto simp: receive_def split: slot.split option.split)
qed

lemma load_spawned:
  assumes "k < length (pl_slots p)" and "pl_slots p ! k = Spawning af b Starting"
  shows "load (spawned k af w p) < load p"
  using assms by (cases af) (auto simp: spawned_def intro!: set_slot_less)

lemma load_spawn_nil:
  assumes "k < length (pl_slots p)" and "pl_slots p ! k = Spawning af b ph" and "ph \<noteq> Starting"
  shows "load (spawn_nil k af p) < load p"
proof -
  have "3 \<le> slot_load (Spawning af b ph)" using assms(3) by (cases ph) simp_all
  then show ?thesis
    using assms by (cases af) (auto simp: spawn_nil_def intro!: set_slot_less)
qed

lemma load_recycle:
  assumes "k < length (pl_slots p)" and "3 < slot_load (pl_slots p ! k)"
  shows "load (recycle k j e p) < load p"
  using assms by (auto simp: recycle_def intro!: set_slot_less)

lemma load_drain:
  assumes "k < length (pl_affinity p)" and "pl_drained p = k"
  shows "load (set_buffer k [] (answer_all js (p\<lparr>pl_drained := k + 1\<rparr>))) < load p"
proof -
  let ?q = "answer_all js (p\<lparr>pl_drained := k + 1\<rparr>)"
  have "load (p\<lparr>pl_drained := k + 1\<rparr>) < load p"
    using assms by (simp add: load_def slots_load_def calls_load_def buffers_load_def)
  then have "load ?q < load p" by simp
  moreover have "load (set_buffer k [] ?q) \<le> load ?q" using load_set_buffer [of k ?q "[]"] assms by simp
  ultimately show ?thesis by simp
qed

section \<open>Every step of the program decreases it\<close>

lemma load_call_affinity:
  assumes "shape p" and "call_affinity j p = Some p'"
  shows "load p' < load p"
proof -
  let ?k = "nat (slotFor (rq_AffinityKey (ca_req (pl_calls p ! j))) (pl_size p))"
  from assms(2) have j: "j < length (pl_calls p)" and ph: "ca_phase (pl_calls p ! j) = AtAffinity"
    by (auto simp: call_affinity_def split: if_splits)
  have s: "load (sent j (Hit ?k) True p) + 5 \<le> load p" using load_sent [OF j, of "Hit ?k" True] ph by simp
  consider "p' = set_phase j Panicked p" | "p' = set_phase j AtShared p"
    | "?k < length (pl_affinity p)" "is_parked (pl_slots p ! ?k)" "p' = receive ?k j (sent j (Hit ?k) True p)"
    | "?k < length (pl_affinity p)" "pl_affinity p ! ?k = []"
      "p' = set_buffer ?k (pl_affinity p ! ?k @ [j]) (sent j (Hit ?k) True p)"
    using assms(2) by (auto simp: call_affinity_def Let_def split: if_splits)
  then show ?thesis
  proof cases
    case 3
    then have "load p' \<le> load (sent j (Hit ?k) True p) + 3"
      using assms(1) load_receive [of ?k "sent j (Hit ?k) True p" j] by (simp add: shape_def)
    with s show ?thesis by linarith
  next
    case 4
    then have "load p' \<le> load (sent j (Hit ?k) True p) + 4"
      using load_set_buffer [of ?k "sent j (Hit ?k) True p" "[j]"] by simp
    with s show ?thesis by linarith
  qed (use j ph in \<open>auto intro!: set_phase_less\<close>)
qed

lemma load_call_shared:
  assumes "call_shared j k p = Some p'"
  shows "load p' < load p"
proof -
  let ?q = "sent j (Spill k) (affined p (ca_req (pl_calls p ! j))) p"
  from assms have j: "j < length (pl_calls p)" and ph: "ca_phase (pl_calls p ! j) = AtShared"
    and k: "k < length (pl_slots p)" "is_parked (pl_slots p ! k)" and p': "p' = receive k j ?q"
    by (auto simp: call_shared_def split: if_splits)
  have "load p' \<le> load ?q + 3" unfolding p' by (rule load_receive) (use k in simp_all)
  moreover have "load ?q + 4 \<le> load p" using load_sent [OF j, of "Spill k" "affined p (ca_req (pl_calls p ! j))"] ph by simp
  ultimately show ?thesis by linarith
qed

lemma load_slot_take:
  assumes "shape p" and "slot_take k p = Some p'"
  shows "load p' < load p"
proof -
  from assms(2) obtain j rest where k: "k < length (pl_slots p)" "is_parked (pl_slots p ! k)"
    and b: "pl_affinity p ! k = j # rest" and p': "p' = receive k j (set_buffer k rest p)"
    by (auto simp: slot_take_def split: if_splits list.splits)
  have "load p' \<le> load (set_buffer k rest p) + 3" unfolding p' by (rule load_receive) (use k in simp_all)
  moreover have "load (set_buffer k rest p) + 4 = load p"
    using load_set_buffer [of k p rest] b k assms(1) by (simp add: shape_def)
  ultimately show ?thesis by linarith
qed

lemma load_slot_read:
  assumes "slot_read k got p = Some p'"
  shows "load p' < load p"
  using assms load_recycle
  by (auto simp: slot_read_def intro!: set_slot_less split: if_splits slot.splits sum.splits)

lemma load_slot_write:
  assumes "slot_write k h wrote p = Some p'"
  shows "load p' < load p"
  using assms load_recycle
  by (auto simp: slot_write_def intro!: set_slot_less split: if_splits slot.splits sum.splits prod.splits option.splits)

lemma load_slot_start:
  assumes "slot_start k so p = Some p'"
  shows "load p' < load p"
proof -
  from assms obtain af b where k: "k < length (pl_slots p)" "pl_slots p ! k = Spawning af b Starting"
    by (auto simp: slot_start_def split: if_splits slot.splits spawn_phase.splits)
  have "load (spawned k af w (recordHeadroomVersion v (p\<lparr>pl_started := n\<rparr>))) < load p" for w v n
    using load_spawned [of k "recordHeadroomVersion v (p\<lparr>pl_started := n\<rparr>)" af b w] k by simp
  with assms k show ?thesis
    by (auto simp: slot_start_def intro!: set_slot_less split: sum.splits prod.splits)
qed

lemma load_act:
  assumes "shape p" and "pl_done p" and "own_step a" and "pool_act a p = Some p'"
  shows "load p' < load p"
proof (cases a)
  case (Affinity j)
  with assms load_call_affinity show ?thesis by simp
next
  case (Shared j k)
  with assms load_call_shared show ?thesis by simp
next
  case (Take k)
  with assms load_slot_take show ?thesis by simp
next
  case (Read k got)
  with assms load_slot_read show ?thesis by simp
next
  case (Write k h wrote)
  with assms load_slot_write show ?thesis by simp
next
  case (SpawnStart k so)
  with assms load_slot_start show ?thesis by simp
next
  case (SpawnCheck k)
  with assms load_spawn_nil show ?thesis
    by (auto simp: slot_check_def split: if_splits slot.splits spawn_phase.splits)
next
  case (SpawnAbort k)
  with assms load_spawn_nil show ?thesis
    by (auto simp: slot_sleep_done_def split: if_splits slot.splits spawn_phase.splits)
next
  case (SpawnWake k)
  with assms show ?thesis
    by (auto simp: slot_wake_def intro!: set_slot_less split: if_splits slot.splits spawn_phase.splits)
next
  case (Stop k)
  with assms show ?thesis
    by (auto simp: slot_stop_def intro!: set_slot_less split: if_splits slot.splits option.splits)
next
  case (Closed k g)
  with assms show ?thesis
    by (auto simp: slot_closed_def intro!: set_slot_less split: if_splits slot.splits)
next
  case Drain
  with assms load_drain show ?thesis by (auto simp: shutdown_drain_def split: if_splits)
next
  case (Check j)
  with assms show ?thesis by (auto simp: call_check_def intro!: set_phase_less split: if_splits)
next
  case (GiveUp j)
  with assms show ?thesis by (auto simp: call_give_up_def intro!: set_phase_less split: if_splits)
next
  case (SeeShutdown j)
  with assms show ?thesis by (auto simp: call_see_shutdown_def intro!: set_phase_less split: if_splits)
next
  case (Count j)
  with assms show ?thesis
    by (auto simp: call_count_def intro!: set_phase_less split: if_splits call_phase.splits)
next
  case (Return j)
  with assms show ?thesis by (auto simp: call_return_def intro!: set_phase_less split: if_splits)
qed (use assms(3) in simp_all)

lemma done_stays: "pool_act a p = Some p' \<Longrightarrow> pl_done p \<Longrightarrow> pl_done p'"
  by (cases a) (auto simp: pool_step_defs call_enter_def receive_frame Let_def split: pool_splits)

lemma load_run:
  "pool_inv p \<Longrightarrow> pl_done p \<Longrightarrow> list_all own_step as \<Longrightarrow> run_actions pool_act as p = Some p' \<Longrightarrow>
   load p' + length as \<le> load p"
proof (induction as arbitrary: p)
  case (Cons a as)
  from Cons.prems(4) obtain q where q: "pool_act a p = Some q" "run_actions pool_act as q = Some p'"
    by (auto split: option.splits)
  have "load q < load p" using load_act [of p a q] q(1) Cons.prems(1-3) by (simp add: pool_inv_def)
  moreover have "load p' + length as \<le> load q"
    using Cons.IH [OF pool_inv_act [OF Cons.prems(1) q(1)] done_stays [OF q(1)]] Cons.prems q(2) by simp
  ultimately show ?case by simp
qed simp

lemma sum_list_le: "(\<And>x. x \<in> set xs \<Longrightarrow> f x \<le> c) \<Longrightarrow> sum_list (map f xs) \<le> length xs * (c :: nat)"
proof (induction xs)
  case (Cons x xs)
  then have "f x \<le> c" "sum_list (map f xs) \<le> length xs * c" by auto
  then show ?case by simp
qed simp

lemma slot_load_le: "slot_load s \<le> 6"
  by (induction s rule: slot_load.induct) simp_all

lemma phase_load_le: "phase_load ph \<le> 7"
  by (cases ph) simp_all

lemma load_bound:
  assumes "pool_inv p"
  shows "load p \<le> 7 * length (pl_calls p) + 11 * nat (pl_size p)"
proof -
  from assms have sh: "length (pl_slots p) = nat (pl_size p)" "length (pl_affinity p) = nat (pl_size p)"
    "\<forall>b \<in> set (pl_affinity p). length b \<le> 1" by (auto simp: pool_inv_def shape_def)
  have "slots_load p \<le> length (pl_slots p) * 6"
    unfolding slots_load_def by (rule sum_list_le) (rule slot_load_le)
  moreover have "calls_load p \<le> length (pl_calls p) * 7"
    unfolding calls_load_def by (rule sum_list_le) (rule phase_load_le)
  moreover have "buffers_load p \<le> length (pl_affinity p) * 4"
    unfolding buffers_load_def by (rule sum_list_le) (use sh(3) in fastforce)
  ultimately show ?thesis using sh by (simp add: load_def)
qed

section \<open>\<open>Shutdown\<close> ends, and what it leaves\<close>

text \<open>
  C8. Shutdown terminates: after the cancellation, however the goroutines interleave and whatever the workers
  do, the pool takes at most seven steps per call and eleven per slot, unless new calls arrive.
\<close>

theorem shutdown_terminates:
  assumes "newPool sz aff = Some p0" and "run_actions pool_act as p0 = Some p" and "pl_done p"
    and "list_all own_step bs" and "run_actions pool_act bs p = Some p'"
  shows "length bs \<le> 7 * length (pl_calls p) + 11 * nat sz"
proof -
  note inv = pool_reachable [OF assms(1,2)]
  have "length bs \<le> load p" using load_run [OF inv assms(3-5)] by simp
  also have "\<dots> \<le> 7 * length (pl_calls p) + 11 * nat (pl_size p)" by (rule load_bound [OF inv])
  finally show ?thesis using reachable_size [OF assms(1,2)] by simp
qed

text \<open>
  The end of a shutdown: the slots have exited, the buffers are drained, every process has been waited
  for, and every call has returned or is one whose affinity send came after the drain.
\<close>

definition finished :: "pool \<Rightarrow> bool" where
  "finished p \<longleftrightarrow>
     list_all (\<lambda>s. s = Exited) (pl_slots p) \<and> pl_drained p = length (pl_affinity p) \<and>
     pl_started p = pl_reaped p \<and>
     (\<forall>j < length (pl_calls p). (\<exists>r. ca_phase (pl_calls p ! j) = Returned r) \<or>
        (ca_phase (pl_calls p ! j) = Waiting \<and> in_buffers p j = 1))"

definition stuck :: "pool \<Rightarrow> bool" where
  "stuck p \<longleftrightarrow> (\<forall>a. own_step a \<longrightarrow> pool_act a p = None)"

lemma stuckD: "stuck p \<Longrightarrow> own_step a \<Longrightarrow> pool_act a p = None"
  by (simp add: stuck_def)

text \<open>A slot that has not exited can always step; a write uses the heap \<open>g\<close>.\<close>

lemma slot_can_step:
  assumes "pl_done p" and "k < length (pl_slots p)" and "pl_slots p ! k \<noteq> Exited"
  shows "\<exists>a p'. pool_act a p = Some p' \<and> own_step a \<and> a \<noteq> Drain \<and> (\<forall>k h w. a = Write k h w \<longrightarrow> h = g)"
proof (cases "pl_slots p ! k")
  case (Spawning af b ph)
  show ?thesis
  proof (cases ph)
    case Checking
    with Spawning assms(2) show ?thesis by (intro exI [of _ "SpawnCheck k"]) (simp add: slot_check_def)
  next
    case Starting
    with Spawning assms(2) show ?thesis
      by (intro exI [of _ "SpawnStart k ready_start"]) (simp add: slot_start_def split: sum.split prod.split)
  next
    case Sleeping
    with Spawning assms(2) show ?thesis by (intro exI [of _ "SpawnWake k"]) (simp add: slot_wake_def)
  qed
next
  case (Parked w)
  with assms show ?thesis by (intro exI [of _ "Stop k"]) (cases w; simp add: slot_stop_def)
next
  case (Writing w j)
  with assms(2) show ?thesis
    by (intro exI [of _ "Write k g None"]) (simp add: slot_write_def split: sum.split prod.split)
next
  case (Reading w j)
  with assms(2) show ?thesis
    by (intro exI [of _ "Read k (CtxDone deadline_exceeded)"])
       (simp add: slot_read_def may_end_def split: sum.split)
next
  case (Closing w)
  with assms(2) show ?thesis by (intro exI [of _ "Closed k True"]) (simp add: slot_closed_def)
qed (use assms(3) in simp)

lemma stuck_exited:
  assumes "stuck p" and "pl_done p" and "k < length (pl_slots p)"
  shows "pl_slots p ! k = Exited"
  using slot_can_step [OF assms(2,3), of empty_heap] stuckD [OF assms(1)] by fastforce

lemma stuck_call:
  assumes "stuck p" and "pl_done p" and "j < length (pl_calls p)" and "ca_phase (pl_calls p ! j) \<noteq> Panicked"
  shows "(\<exists>r. ca_phase (pl_calls p ! j) = Returned r) \<or>
    (ca_phase (pl_calls p ! j) = Waiting \<and> ca_resp (pl_calls p ! j) = None)"
proof (cases "ca_phase (pl_calls p ! j)")
  case Entering
  have "pool_act (Check j) p = None" by (rule stuckD [OF assms(1)]) simp
  with Entering assms(3) show ?thesis by (simp add: call_check_def)
next
  case AtAffinity
  have "pool_act (Affinity j) p = None" by (rule stuckD [OF assms(1)]) simp
  with AtAffinity assms(3) show ?thesis by (auto simp: call_affinity_def Let_def split: if_splits)
next
  case AtShared
  have "pool_act (SeeShutdown j) p = None" by (rule stuckD [OF assms(1)]) simp
  with AtShared assms(2,3) show ?thesis by (simp add: call_see_shutdown_def)
next
  case (Counting hit)
  have "pool_act (Count j) p = None" by (rule stuckD [OF assms(1)]) simp
  with Counting assms(3) show ?thesis by (simp add: call_count_def)
next
  case Waiting
  have "pool_act (Return j) p = None" by (rule stuckD [OF assms(1)]) simp
  with Waiting assms(3) show ?thesis by (simp add: call_return_def)
qed (use assms(4) in simp_all)

lemma stuck_finished:
  assumes "pool_inv p" and "stuck p" and "pl_done p"
    and "\<And>j. j < length (pl_calls p) \<Longrightarrow> ca_phase (pl_calls p ! j) \<noteq> Panicked"
  shows "finished p"
proof -
  have ex: "list_all (\<lambda>s. s = Exited) (pl_slots p)"
    using stuck_exited [OF assms(2,3)] by (simp add: list_all_length)
  then have none: "count_slots P p = 0" if "\<not> P Exited" for P
    using that by (auto simp: count_slots_def list_all_iff filter_empty_conv)
  have "pool_act Drain p = None" by (rule stuckD [OF assms(2)]) simp
  then have "length (pl_affinity p) \<le> pl_drained p" using ex assms(3) by (auto simp: shutdown_drain_def split: if_splits)
  moreover have "pl_drained p \<le> length (pl_affinity p)" using assms(1) by (simp add: pool_inv_def drain_ok_def)
  moreover have "pl_started p = pl_reaped p"
    using assms(1) none [of live] by (simp add: pool_inv_def procs_ok_def)
  moreover have "in_buffers p j = 1"
    if "j < length (pl_calls p)" "ca_phase (pl_calls p ! j) = Waiting" "ca_resp (pl_calls p ! j) = None" for j
  proof -
    have "submitted p j = 1"
      using call_phase_ok [OF call_at [OF _ that(1)] that(2)] assms(1) that(1)
      by (auto simp: submitted_def pool_inv_def)
    moreover have "places p j = submitted p j" using assms(1) by (simp add: conserved_def pool_inv_def)
    ultimately show ?thesis using none [of "\<lambda>s. job_of s = Some j"] that by (simp add: places_def answered_def)
  qed
  ultimately show ?thesis using ex stuck_call [OF assms(2,3) _ assms(4)] unfolding finished_def by auto
qed

text \<open>
  C24. Shutdown completes: from every state after the cancellation, however far the goroutines have come, they
  can take a further step or everything is over, and over it is: no slot, no process and no undrained
  job is left, and the only callers still waiting are those of the race in \<open>dispatch\<close>.
\<close>

theorem shutdown_completes:
  assumes "newPool sz aff = Some p0" and "run_actions pool_act as p0 = Some p" and "pl_done p"
    and "0 < sz" and "sz < 2 ^ 32"
  shows "(\<exists>a p'. own_step a \<and> pool_act a p = Some p') \<or> finished p"
proof -
  have "finished p" if "stuck p"
    by (rule stuck_finished [OF pool_reachable [OF assms(1,2)] that assms(3)])
       (rule never_panicked [OF assms(1,2,4,5)])
  then show ?thesis unfolding stuck_def by (meson not_Some_eq)
qed

definition end_run :: "pool_action list" where
  "end_run = [Drain, Return 0, Return 1]"

theorem shutdown_terminates_witness: "length end_run \<le> 7 * length (pl_calls (state_after stopped_run)) + 11"
proof -
  have "run_actions pool_act end_run (state_after stopped_run) \<noteq> None" by code_simp
  then obtain p' where p': "run_actions pool_act end_run (state_after stopped_run) = Some p'" by blast
  have "pl_done (state_after stopped_run)" "list_all own_step end_run" by code_simp+
  from shutdown_terminates [OF pool1_new state_after_run(3) this p'] show ?thesis by simp
qed

theorem shutdown_completes_witness:
  "(\<exists>a p'. own_step a \<and> pool_act a (state_after stopped_run) = Some p') \<or> finished (state_after stopped_run)"
proof (rule shutdown_completes [OF pool1_new state_after_run(3)])
  show "pl_done (state_after stopped_run)" by code_simp
qed simp_all

end
