(* ===== verification/Handler.thy ===== *)
theory Handler
  imports Worker Encoding Metrics GoHash
begin

text \<open>
  \<open>handler.go\<close>: the aperture pre-request hook. A hook body is decoded, checked to be a chat request
  with a message array, handed to the compressor, and answered with \<open>allow\<close> or \<open>modify\<close>; the reply is
  written as JSON, gzipped when the caller takes gzip, and the call is folded into the metrics.

  \<open>process\<close> is split where the program waits for the compressor: \<open>process_start\<close> gives either the
  final reply or the request to submit, and \<open>process_finish\<close> handles the compressor's outcome. The
  compressor's error type is a type variable, as the handler only logs it. \<open>compress/gzip\<close>'s writer and
  the clock are arguments.
\<close>

section \<open>Data\<close>

record hookMetadata =
  md_Provider :: string
  md_Model :: string
  md_SessionID :: string

text \<open>A nil \<open>json.RawMessage\<close> is the empty list.\<close>

record hookCallData =
  hc_Metadata :: hookMetadata
  hc_RequestBody :: bytes

text \<open>\<open>RequestBody\<close> is \<open>any\<close>; the program only stores nil or a map of raw messages in it.\<close>

record guardrailResponse =
  gr_Action :: string
  gr_RequestBody :: "string dict option"

record Handler =
  hd_verbose :: bool
  hd_gzipResponse :: bool
  hd_acceptCompressed :: bool

definition allow :: guardrailResponse where
  "allow = \<lparr>gr_Action = ''allow'', gr_RequestBody = None\<rparr>"

section \<open>Decoding the hook call\<close>

definition metadata_step :: "string \<Rightarrow> string \<Rightarrow> json \<Rightarrow> hookMetadata \<Rightarrow> hookMetadata \<times> bool" where
  "metadata_step f raw v m =
     (if f = ''provider'' then (case decode_string (md_Provider m) v of (s, e) \<Rightarrow> (m\<lparr>md_Provider := s\<rparr>, e))
      else if f = ''model'' then (case decode_string (md_Model m) v of (s, e) \<Rightarrow> (m\<lparr>md_Model := s\<rparr>, e))
      else if f = ''session_id'' then
        (case decode_string (md_SessionID m) v of (s, e) \<Rightarrow> (m\<lparr>md_SessionID := s\<rparr>, e))
      else (m, False))"

definition call_data_step :: "string \<Rightarrow> string \<Rightarrow> json \<Rightarrow> hookCallData \<Rightarrow> hookCallData \<times> bool" where
  "call_data_step f raw v d =
     (if f = ''metadata'' then
        (case decode_struct [''provider'', ''model'', ''session_id''] metadata_step v (hc_Metadata d) of
           (m, e) \<Rightarrow> (d\<lparr>hc_Metadata := m\<rparr>, e))
      else if f = ''request_body'' then (d\<lparr>hc_RequestBody := raw\<rparr>, False)
      else (d, False))"

definition zeroCallData :: hookCallData where
  "zeroCallData =
     \<lparr>hc_Metadata = \<lparr>md_Provider = [], md_Model = [], md_SessionID = []\<rparr>, hc_RequestBody = []\<rparr>"

definition decode_call_data :: "bytes \<Rightarrow> hookCallData option" where
  "decode_call_data body =
     (case json_check body of
        None \<Rightarrow> None
      | Some v \<Rightarrow>
          (case decode_struct [''metadata'', ''request_body''] call_data_step v zeroCallData of
             (d, bad) \<Rightarrow> if bad then None else Some d))"

section \<open>The affinity key\<close>

text \<open>A message parsed and marshalled again, or its raw bytes when it does not parse.\<close>

definition normal_message :: "bytes \<Rightarrow> bytes" where
  "normal_message m =
     (case json_check m of
        None \<Rightarrow> m
      | Some v \<Rightarrow> if json_numbers_ok v then marshal_any v else m)"

definition affinityKey :: "string \<Rightarrow> bytes list \<Rightarrow> string" where
  "affinityKey sessionID messages =
     (if sessionID \<noteq> '''' then sessionID
      else if messages = [] then ''''
      else hex_text (unat (foldl fnv64a_write fnv64a_init (map normal_message (take 2 messages)))))"

section \<open>\<open>process\<close>\<close>

record prepared =
  pr_request :: compressRequest
  pr_summary :: summary
  pr_body :: "string dict"

definition passthrough :: "hookMetadata option \<Rightarrow> guardrailResponse \<times> summary" where
  "passthrough md =
     (allow,
      case md of
        None \<Rightarrow> zero_summary\<lparr>sm_reason := ''allow(passthrough)'', sm_slot := -1\<rparr>
      | Some m \<Rightarrow> zero_summary\<lparr>sm_reason := ''allow(passthrough)'', sm_provider := md_Provider m,
                               sm_model := md_Model m, sm_slot := -1\<rparr>)"

text \<open>The model of the request body, when aperture resolved none.\<close>

definition body_model :: "string dict \<Rightarrow> string" where
  "body_model reqBody =
     (case map_of reqBody ''model'' of
        None \<Rightarrow> ''''
      | Some raw \<Rightarrow> (case json_check raw of None \<Rightarrow> '''' | Some v \<Rightarrow> fst (decode_string '''' v)))"

definition process_start ::
  "Handler \<Rightarrow> CompressSettings \<Rightarrow> bytes \<Rightarrow> (guardrailResponse \<times> summary) + prepared" where
  "process_start h cfg body =
     (case decode_call_data body of
        None \<Rightarrow> Inl (passthrough None)
      | Some d \<Rightarrow>
     if hc_RequestBody d = [] then Inl (passthrough None)
     else (case Option.bind (json_check (hc_RequestBody d)) decode_raw_map of
        None \<Rightarrow> Inl (passthrough (Some (hc_Metadata d)))
      | Some reqBody \<Rightarrow>
     (case map_of reqBody ''messages'' of
        None \<Rightarrow> Inl (passthrough (Some (hc_Metadata d)))
      | Some rawMessages \<Rightarrow>
     (case Option.bind (json_check rawMessages) decode_raw_list of
        None \<Rightarrow> Inl (passthrough (Some (hc_Metadata d)))
      | Some msgs \<Rightarrow>
          let md = hc_Metadata d;
              model = (if md_Model md = '''' then body_model reqBody else md_Model md);
              s = zero_summary\<lparr>sm_inMessages := int (length msgs), sm_provider := md_Provider md,
                               sm_model := model, sm_slot := -1\<rparr>;
              s1 = (if hd_verbose h
                    then s\<lparr>sm_inBytes := int (length rawMessages), sm_outBytes := int (length rawMessages)\<rparr>
                    else s)
          in Inr \<lparr>pr_request = \<lparr>rq_Messages = rawMessages, rq_Model = model, rq_Config = cfg,
                                rq_AffinityKey = affinityKey (md_SessionID md) msgs\<rparr>,
                  pr_summary = s1, pr_body = reqBody\<rparr>))))"

definition process_finish ::
  "Handler \<Rightarrow> prepared \<Rightarrow> 'e + compressResult \<Rightarrow> guardrailResponse \<times> summary" where
  "process_finish h p outcome =
     (case outcome of
        Inl e \<Rightarrow> (allow, (pr_summary p)\<lparr>sm_reason := ''allow(error)''\<rparr>)
      | Inr res \<Rightarrow>
          let s = (pr_summary p)\<lparr>sm_workerMs := rs_ElapsedMs res, sm_cold := rs_ColdFirstCall res,
                     sm_modelLimit := rs_ModelLimit res, sm_slot := rs_Slot res,
                     sm_tokensBefore := rs_TokensBefore res, sm_tokensSaved := rs_TokensSaved res,
                     sm_tokensAfter := rs_TokensAfter res\<rparr>
          in if rs_TokensSaved res \<le> 0 \<or> rs_Messages res = []
             then (allow, s\<lparr>sm_reason := ''allow(noop)''\<rparr>)
             else (\<lparr>gr_Action = ''modify'',
                    gr_RequestBody = Some (AList.update ''messages'' (rs_Messages res) (pr_body p))\<rparr>,
                   (if hd_verbose h then s\<lparr>sm_outBytes := int (length (rs_Messages res))\<rparr> else s)
                     \<lparr>sm_reason := ''modify''\<rparr>))"

definition process ::
  "Handler \<Rightarrow> CompressSettings \<Rightarrow> (compressRequest \<Rightarrow> 'e + compressResult) \<Rightarrow> bytes \<Rightarrow>
   guardrailResponse \<times> summary" where
  "process h cfg compress body =
     (case process_start h cfg body of
        Inl r \<Rightarrow> r
      | Inr p \<Rightarrow> process_finish h p (compress (pr_request p)))"

section \<open>Writing the reply\<close>

definition response_text :: "guardrailResponse \<Rightarrow> string" where
  "response_text resp =
     object_text ([(''action'', quote (gr_Action resp))] @
       (case gr_RequestBody resp of None \<Rightarrow> [] | Some m \<Rightarrow> [(''request_body'', raw_map_text m)])) @
     [CHR 0x0A]"

definition acceptsGzip :: "http_request \<Rightarrow> bool" where
  "acceptsGzip r =
     list_ex (\<lambda>enc. equal_fold (trim_space (hd (split_n 2 (CHR '';'') enc))) ''gzip'')
       (split_on (CHR '','') (header_get (rq_header r) ''Accept-Encoding''))"

text \<open>\<open>gz\<close> is the compressed text, or the error of encoding into or closing the gzip writer.\<close>

definition writeHookResponse ::
  "Handler \<Rightarrow> (bytes \<Rightarrow> bytes result) \<Rightarrow> string dict \<Rightarrow> http_request \<Rightarrow> guardrailResponse \<Rightarrow> http_response" where
  "writeHookResponse h gz hdr r resp =
     (let hdr1 = header_set ''Content-Type'' ''application/json'' hdr;
          plain = \<lparr>rs_status = http_ok, rs_header = hdr1, rs_body = response_text resp\<rparr>
      in if hd_gzipResponse h \<and> acceptsGzip r then
           (case gz (response_text resp) of
              Inr buf \<Rightarrow>
                \<lparr>rs_status = http_ok,
                 rs_header = header_set ''Content-Length'' (nat_text (length buf))
                               (header_set ''Content-Encoding'' ''gzip'' hdr1),
                 rs_body = buf\<rparr>
            | Inl e \<Rightarrow> plain)
         else plain)"

section \<open>\<open>ServeHTTP\<close>\<close>

definition reqLabel :: "string \<Rightarrow> string" where
  "reqLabel enc = (if enc = '''' then ''request'' else ''request('' @ enc @ '')'')"

text \<open>From whole microseconds.\<close>

definition msSince :: "int \<Rightarrow> float64" where
  "msSince us = f64_div_nat (f64_of_int us) 1000"

text \<open>What the body leads to: a guardrail reply, or the rejection of its coding.\<close>

datatype hook_reply = Reply guardrailResponse summary | Reject summary

definition hook_reply ::
  "Handler \<Rightarrow> coders \<Rightarrow> CompressSettings \<Rightarrow> (compressRequest \<Rightarrow> 'e + compressResult) \<Rightarrow>
   http_request \<Rightarrow> hook_reply" where
  "hook_reply h cd cfg compress r =
     (case read_limited maxBody (rq_body r) of
        (body, Some e) \<Rightarrow>
          Reply allow (zero_summary\<lparr>sm_reason := ''allow(read-error)'', sm_wireBytes := int (length body), sm_slot := -1\<rparr>)
      | (body, None) \<Rightarrow>
          (case decodeRequestBody cd body (header_get (rq_header r) ''Content-Encoding'') of
             (Inl (ErrUnsupportedEncoding k), coding) \<Rightarrow>
               Reject (zero_summary\<lparr>sm_reason := ''reject(encoding)'', sm_enc := coding,
                         sm_wireBytes := int (length body), sm_slot := -1\<rparr>)
           | (Inl (ErrDecode e), coding) \<Rightarrow>
               Reply allow (zero_summary\<lparr>sm_reason := ''allow(decode-error)'', sm_enc := coding,
                              sm_wireBytes := int (length body), sm_slot := -1\<rparr>)
           | (Inr decoded, coding) \<Rightarrow>
               (case process h cfg compress decoded of
                  (resp, s) \<Rightarrow> Reply resp (s\<lparr>sm_enc := coding, sm_wireBytes := int (length body)\<rparr>))))"

text \<open>The clock readings of one request, in microseconds since its start or since the write's start.\<close>

record timings =
  tm_read :: int
  tm_write :: int
  tm_total :: int

definition reject_line :: "timings \<Rightarrow> summary \<Rightarrow> string" where
  "reject_line tm s =
     reqLabel (sm_enc s) @ '' wire_bytes='' @ int_text (sm_wireBytes s) @
     '' read_ms='' @ fixed_text 0 (msSince (tm_read tm)) @ '' -> '' @ sm_reason s @ [CHR 0x0A]"

definition summary_line :: "timings \<Rightarrow> summary \<Rightarrow> string" where
  "summary_line tm s =
     reqLabel (sm_enc s) @
     '' in_msgs='' @ int_text (sm_inMessages s) @ '' in_bytes='' @ int_text (sm_inBytes s) @
     '' out_bytes='' @ int_text (sm_outBytes s) @ '' wire_bytes='' @ int_text (sm_wireBytes s) @
     '' dur_ms='' @ fixed_text 0 (msSince (tm_total tm)) @
     '' read_ms='' @ fixed_text 0 (msSince (tm_read tm)) @
     '' write_ms='' @ fixed_text 0 (msSince (tm_write tm)) @
     '' worker_ms='' @ fixed_text 0 (sm_workerMs s) @ '' slot='' @ int_text (sm_slot s) @
     '' cold='' @ bool_text (sm_cold s) @ '' model_limit='' @ int_text (sm_modelLimit s) @
     '' -> '' @ sm_reason s @ [CHR 0x0A]"

text \<open>The response, the metrics afterwards, and what is printed with \<open>-v\<close>.\<close>

definition serve_hook ::
  "Handler \<Rightarrow> coders \<Rightarrow> (bytes \<Rightarrow> bytes result) \<Rightarrow> CompressSettings \<Rightarrow>
   (compressRequest \<Rightarrow> 'e + compressResult) \<Rightarrow> timings \<Rightarrow> Metrics option \<Rightarrow> http_request \<Rightarrow>
   http_response \<times> Metrics option \<times> string" where
  "serve_hook h cd gz cfg compress tm mp r =
     (let m1 = inboundStart mp;
          hdr = (if hd_acceptCompressed h then header_set ''Accept-Encoding'' (acceptEncoding cd) [] else [])
      in if rq_method r \<noteq> ''POST''
         then (http_error hdr ''method not allowed'' http_method_not_allowed, inboundDone m1, '''')
         else case hook_reply h cd cfg compress r of
                Reject s \<Rightarrow>
                  (http_error (header_set ''Accept-Encoding'' (acceptEncoding cd) hdr)
                     ''unsupported content-encoding'' http_unsupported_media,
                   inboundDone (record_call m1 s (msSince (tm_total tm))),
                   if hd_verbose h then reject_line tm s else '''')
              | Reply resp s \<Rightarrow>
                  (writeHookResponse h gz hdr r resp,
                   inboundDone (record_call m1 s (msSince (tm_total tm))),
                   if hd_verbose h then summary_line tm s else ''''))"

section \<open>What the hook promises\<close>

lemmas hook_reply_cases = prod.splits option.splits sum.splits decode_error.splits

lemma process_start_Inl:
  "process_start h cfg body = Inl r \<Longrightarrow> gr_Action (fst r) = ''allow'' \<and> gr_RequestBody (fst r) = None \<and>
     sm_reason (snd r) = ''allow(passthrough)'' \<and> sm_slot (snd r) = -1"
  by (auto simp: process_start_def passthrough_def allow_def Let_def split: option.splits if_splits)

lemma process_start_Inr:
  assumes "process_start h cfg body = Inr p"
  shows "\<exists>d ms msgs. decode_call_data body = Some d \<and>
    Option.bind (json_check (hc_RequestBody d)) decode_raw_map = Some (pr_body p) \<and>
    map_of (pr_body p) ''messages'' = Some ms \<and>
    Option.bind (json_check ms) decode_raw_list = Some msgs \<and>
    rq_Messages (pr_request p) = ms \<and> rq_Config (pr_request p) = cfg \<and>
    rq_AffinityKey (pr_request p) = affinityKey (md_SessionID (hc_Metadata d)) msgs \<and>
    sm_slot (pr_summary p) = -1"
  using assms by (auto simp: process_start_def Let_def split: option.splits if_splits)

lemma process_finish_cases:
  obtains (failed) e where "outcome = Inl e" "process_finish h p outcome = (allow, (pr_summary p)\<lparr>sm_reason := ''allow(error)''\<rparr>)"
  | (noop) res s where "outcome = Inr res" "rs_TokensSaved res \<le> 0 \<or> rs_Messages res = []"
      "process_finish h p outcome = (allow, s)" "sm_reason s = ''allow(noop)''" "sm_slot s = rs_Slot res"
  | (modify) res s where "outcome = Inr res" "0 < rs_TokensSaved res" "rs_Messages res \<noteq> []"
      "process_finish h p outcome =
        (\<lparr>gr_Action = ''modify'', gr_RequestBody = Some (AList.update ''messages'' (rs_Messages res) (pr_body p))\<rparr>, s)"
      "sm_reason s = ''modify''" "sm_slot s = rs_Slot res"
proof (cases outcome)
  case (Inl e)
  with failed show ?thesis by (simp add: process_finish_def)
next
  case (Inr res)
  show ?thesis
  proof (cases "rs_TokensSaved res \<le> 0 \<or> rs_Messages res = []")
    case True
    with Inr noop show ?thesis by (simp add: process_finish_def Let_def)
  next
    case False
    with Inr modify show ?thesis by (simp add: process_finish_def Let_def)
  qed
qed

end
