(* ===== verification/HandlerProps.thy ===== *)
theory HandlerProps
  imports Handler "HOL-Library.Multiset"
begin

text \<open>
  Properties of the hook handler: it never blocks a request, it answers \<open>modify\<close> exactly when the
  compressor saved tokens and then changes nothing but the messages, the routing key depends on the
  opening messages only and not on the order of their members, every POST is recorded once; and the
  inputs that slip past its guards.
\<close>

section \<open>Replies\<close>

lemma process_action:
  "gr_Action (fst (process h cfg compress body)) = ''allow'' \<and> fst (process h cfg compress body) = allow \<or>
   gr_Action (fst (process h cfg compress body)) = ''modify'' \<and> gr_RequestBody (fst (process h cfg compress body)) \<noteq> None"
proof (cases "process_start h cfg body")
  case (Inl r)
  with process_start_Inl [OF Inl] show ?thesis by (cases "fst r") (simp add: process_def allow_def)
next
  case (Inr p)
  show ?thesis
    by (rule process_finish_cases [of "compress (pr_request p)" h p]) (simp_all add: process_def Inr allow_def)
qed

lemma hook_reply_action:
  assumes "hook_reply h cd cfg compress r = Reply resp s"
  shows "resp = allow \<or> gr_Action resp = ''modify'' \<and> gr_RequestBody resp \<noteq> None"
  using assms process_action [of h cfg compress]
  by (auto simp: hook_reply_def split: hook_reply_cases) (metis fst_conv)+

definition coding_of :: "coders \<Rightarrow> http_request \<Rightarrow> string" where
  "coding_of cd r = normalizeCoding cd (header_get (rq_header r) ''Content-Encoding'')"

definition body_readable :: "http_request \<Rightarrow> bool" where
  "body_readable r \<longleftrightarrow> snd (read_limited maxBody (rq_body r)) = None"

lemma hook_reply_reject_iff:
  "(\<exists>s. hook_reply h cd cfg compress r = Reject s) \<longleftrightarrow>
   body_readable r \<and> coding_of cd r \<notin> set ['''', ''zstd'', ''gzip'']"
proof -
  obtain body e where b: "read_limited maxBody (rq_body r) = (body, e)" by fastforce
  obtain x k where d: "decodeRequestBody cd body (header_get (rq_header r) ''Content-Encoding'') = (x, k)"
    by fastforce
  have "(\<exists>k. x = Inl (ErrUnsupportedEncoding k)) \<longleftrightarrow> coding_of cd r \<notin> set ['''', ''zstd'', ''gzip'']"
    using decodeRequestBody_unsupported_iff [of cd body "header_get (rq_header r) ''Content-Encoding''"] d
    by (auto simp: coding_of_def)
  with b d show ?thesis
    by (cases e; cases x) (auto simp: hook_reply_def body_readable_def split: decode_error.splits prod.splits)
qed

lemma writeHookResponse_200 [simp]: "rs_status (writeHookResponse h gz hdr r resp) = http_ok"
  by (auto simp: writeHookResponse_def Let_def split: sum.split)

lemma writeHookResponse_body:
  "rs_body (writeHookResponse h gz hdr r resp) = response_text resp \<or>
   gz (response_text resp) = Inr (rs_body (writeHookResponse h gz hdr r resp))"
  by (auto simp: writeHookResponse_def Let_def split: sum.split)

lemma writeHookResponse_header:
  "k \<notin> set [''Content-Type'', ''Content-Encoding'', ''Content-Length''] \<Longrightarrow>
   header_get (rs_header (writeHookResponse h gz hdr r resp)) k = header_get hdr k"
  by (auto simp: writeHookResponse_def Let_def split: sum.split)

text \<open>
  C1. The hook never blocks a request: whatever the body holds and however the compressor, the body
  decoders and the gzip writer behave, a POST whose coding is not refused gets status 200 and a reply
  that is allow without a body, or modify with one.
\<close>

theorem never_blocks:
  assumes "rq_method r = ''POST''"
    and "body_readable r \<longrightarrow> coding_of cd r \<in> set ['''', ''zstd'', ''gzip'']"
  shows "\<exists>resp. (resp = allow \<or> gr_Action resp = ''modify'' \<and> gr_RequestBody resp \<noteq> None) \<and>
    rs_status (fst (serve_hook h cd gz cfg compress tm mp r)) = http_ok \<and>
    (rs_body (fst (serve_hook h cd gz cfg compress tm mp r)) = response_text resp \<or>
     gz (response_text resp) = Inr (rs_body (fst (serve_hook h cd gz cfg compress tm mp r))))"
proof (cases "hook_reply h cd cfg compress r")
  case (Reject s)
  then have "body_readable r \<and> coding_of cd r \<notin> set ['''', ''zstd'', ''gzip'']"
    using hook_reply_reject_iff by metis
  with assms(2) show ?thesis by blast
next
  case (Reply resp s)
  show ?thesis
  proof (intro exI [of _ resp] conjI)
    show "resp = allow \<or> gr_Action resp = ''modify'' \<and> gr_RequestBody resp \<noteq> None"
      by (rule hook_reply_action [OF Reply])
  qed (use assms(1) Reply writeHookResponse_body in \<open>auto simp: serve_hook_def Let_def simp del: http_codes\<close>)
qed

text \<open>
  C29. The status and the advertised codings of every reply: 405 for another method, 415 exactly for a POST
  in a coding outside the table, 200 otherwise; Accept-Encoding carries the table on every reply when
  advertising is on, and on a 415 in any case.
\<close>

theorem status_and_advertisement:
  "rs_status (fst (serve_hook h cd gz cfg compress tm mp r)) =
     (if rq_method r \<noteq> ''POST'' then 405
      else if body_readable r \<and> coding_of cd r \<notin> set ['''', ''zstd'', ''gzip''] then 415 else 200) \<and>
   header_get (rs_header (fst (serve_hook h cd gz cfg compress tm mp r))) ''Accept-Encoding'' =
     (if hd_acceptCompressed h \<or>
         rq_method r = ''POST'' \<and> body_readable r \<and> coding_of cd r \<notin> set ['''', ''zstd'', ''gzip'']
      then ''zstd, gzip'' else '''')"
proof (cases "hook_reply h cd cfg compress r")
  case (Reject s)
  then have "body_readable r \<and> coding_of cd r \<notin> set ['''', ''zstd'', ''gzip'']"
    using hook_reply_reject_iff by metis
  with Reject show ?thesis
    by (auto simp: serve_hook_def Let_def http_error_def acceptEncoding_text)
next
  case (Reply resp s)
  then have "\<not> (body_readable r \<and> coding_of cd r \<notin> set ['''', ''zstd'', ''gzip''])"
    using hook_reply_reject_iff [of h cd cfg compress r] by auto
  with Reply show ?thesis
    by (auto simp: serve_hook_def Let_def http_error_def acceptEncoding_text writeHookResponse_header)
qed

section \<open>When the body is modified\<close>

text \<open>
  C2. The body is modified exactly when it is a chat request, the compressor answered, tokens were saved
  and the returned messages are not empty; the new body then has the compressor's messages and every
  other member exactly as it came.
\<close>

theorem modify_iff:
  "gr_Action (fst (process h cfg compress body)) = ''modify'' \<longleftrightarrow>
     (\<exists>p res. process_start h cfg body = Inr p \<and> compress (pr_request p) = Inr res \<and>
        0 < rs_TokensSaved res \<and> rs_Messages res \<noteq> [] \<and>
        (\<exists>m. gr_RequestBody (fst (process h cfg compress body)) = Some m \<and>
           map_of m = (map_of (pr_body p))(''messages'' \<mapsto> rs_Messages res)))"
proof (cases "process_start h cfg body")
  case (Inl r)
  with process_start_Inl [OF Inl] show ?thesis by (simp add: process_def)
next
  case (Inr p)
  show ?thesis
    by (rule process_finish_cases [of "compress (pr_request p)" h p])
      (auto simp: process_def Inr allow_def update_conv')
qed

text \<open>
  What is submitted: the compressor is asked only for a body whose request_body is an object with a
  messages array, and it gets the raw bytes of that array, the settings in force, and the routing key
  of the session or of the messages.
\<close>

theorem submitted_request:
  assumes "process_start h cfg body = Inr p"
  shows "\<exists>d ms msgs. decode_call_data body = Some d \<and>
    Option.bind (json_check (hc_RequestBody d)) decode_raw_map = Some (pr_body p) \<and>
    map_of (pr_body p) ''messages'' = Some ms \<and>
    Option.bind (json_check ms) decode_raw_list = Some msgs \<and>
    rq_Messages (pr_request p) = ms \<and> rq_Config (pr_request p) = cfg \<and>
    rq_AffinityKey (pr_request p) = affinityKey (md_SessionID (hc_Metadata d)) msgs"
  using process_start_Inr [OF assms] by blast

section \<open>The routing key\<close>

lemma hex_text_ne [simp]: "hex_text n \<noteq> []"
  by (subst hex_text.simps) simp

text \<open>Values that differ in the order of object members and in white space.\<close>

inductive reordered :: "json \<Rightarrow> json \<Rightarrow> bool" where
  same: "reordered v v"
| array: "list_all2 (\<lambda>e e'. reordered (snd e) (snd e')) es es' \<Longrightarrow> reordered (JArr es) (JArr es')"
| object: "list_all2 (\<lambda>m m'. fst m = fst m' \<and> reordered (snd (snd m)) (snd (snd m'))) ms ns \<Longrightarrow>
    distinct (map fst ms) \<Longrightarrow> mset ns = mset ns' \<Longrightarrow> reordered (JObj ms) (JObj ns')"

abbreviation marshal_member :: "string \<times> string \<times> json \<Rightarrow> string \<times> string" where
  "marshal_member m \<equiv> (fst m, marshal_any (snd (snd m)))"

definition map_object :: "string dict \<Rightarrow> string" where
  "map_object kvs = object_text (map (\<lambda>k. (k, the (map_of kvs k))) (sort (map fst kvs)))"

lemma marshal_object:
  assumes "distinct (map fst ms)"
  shows "marshal_any (JObj ms) = map_object (map marshal_member ms)"
proof -
  have "map fst (map marshal_member ms) = map fst ms" by simp
  with assms have "distinct (map fst (map marshal_member ms))" by (simp only:)
  with foldl_update_distinct [of "[]" "map marshal_member ms"]
  have "foldl (\<lambda>m kv. AList.update (fst kv) (snd kv) m) [] (map marshal_member ms) = map marshal_member ms"
    by (simp only: append_Nil)
  then show ?thesis by (simp only: marshal_any.simps Let_def map_object_def)
qed

lemma sort_map_mset: "mset xs = mset ys \<Longrightarrow> sort (map f xs) = sort (map f ys)"
  by (metis mset_map properties_for_sort mset_sort sorted_sort)

lemma map_of_mset:
  assumes "mset xs = mset ys" and "distinct (map fst xs)"
  shows "map_of xs = map_of ys"
proof -
  have "distinct (map fst ys)" using assms by (metis mset_eq_imp_distinct_iff mset_map)
  moreover have "set xs = set ys" using assms(1) by (metis set_mset_mset)
  ultimately show ?thesis using assms(2) map_of_inject_set by blast
qed

lemma map_object_mset: "mset xs = mset ys \<Longrightarrow> distinct (map fst xs) \<Longrightarrow> map_object xs = map_object ys"
  by (simp only: map_object_def map_of_mset sort_map_mset [of xs ys fst])

lemma reordered_marshal: "reordered v v' \<Longrightarrow> marshal_any v = marshal_any v'"
proof (induction rule: reordered.induct)
  case (array es es')
  then have "map (\<lambda>e. marshal_any (snd e)) es = map (\<lambda>e. marshal_any (snd e)) es'"
    by (induction rule: list_all2_induct) auto
  then show ?case by simp
next
  case (object ms ns ns')
  from object.IH have eq: "map marshal_member ms = map marshal_member ns" by (induction rule: list_all2_induct) auto
  have keys: "map fst (map marshal_member ms) = map fst ms" "map fst (map marshal_member ns') = map fst ns'"
    by simp_all
  have "mset (map marshal_member ns) = mset (map marshal_member ns')" using object(3) by (simp only: mset_map)
  with eq have perm: "mset (map marshal_member ms) = mset (map marshal_member ns')" by (simp only:)
  have dm: "distinct (map fst (map marshal_member ms))" using object(2) keys(1) by (simp only:)
  have "mset (map fst (map marshal_member ms)) = mset (map fst (map marshal_member ns'))"
    using perm by (simp only: mset_map)
  with dm have "distinct (map fst (map marshal_member ns'))" using mset_eq_imp_distinct_iff by blast
  then have "distinct (map fst ns')" by (simp only: keys(2))
  with object(2) map_object_mset [OF perm dm] show ?case by (simp only: marshal_object)
qed simp

lemma reordered_numbers: "reordered v v' \<Longrightarrow> json_numbers_ok v = json_numbers_ok v'"
proof (induction rule: reordered.induct)
  case (array es es')
  then show ?case by (induction rule: list_all2_induct) auto
next
  case (object ms ns ns')
  from object.IH have "list_all (\<lambda>m. json_numbers_ok (snd (snd m))) ms =
      list_all (\<lambda>m. json_numbers_ok (snd (snd m))) ns" by (induction rule: list_all2_induct) auto
  moreover have "set ns = set ns'" using object(3) by (metis set_mset_mset)
  ultimately show ?case by (simp add: list_all_iff)
qed simp

lemma normal_message_reordered:
  "json_check m = Some v \<Longrightarrow> json_check m' = Some v' \<Longrightarrow> json_numbers_ok v \<Longrightarrow> reordered v v' \<Longrightarrow>
   normal_message m = normal_message m'"
  using reordered_marshal reordered_numbers by (auto simp: normal_message_def)

text \<open>
  C18. A conversation keeps its routing key: from the second message on the key does not change as the
  conversation grows, nor when a client reorders the members of the opening messages or their white
  space; it is empty only without session and messages, and the session takes precedence.
\<close>

theorem affinity_stable:
  assumes "json_check a = Some va" and "json_check a' = Some va'" and "json_numbers_ok va" and "reordered va va'"
    and "json_check b = Some vb" and "json_check b' = Some vb'" and "json_numbers_ok vb" and "reordered vb vb'"
  shows "affinityKey sid (a # b # later) = affinityKey sid (a' # b' # later') \<and>
    (affinityKey sid msgs = '''' \<longleftrightarrow> sid = '''' \<and> msgs = []) \<and>
    (sid \<noteq> '''' \<longrightarrow> affinityKey sid msgs = sid)"
  using normal_message_reordered [OF assms(1-4)] normal_message_reordered [OF assms(5-8)]
  by (simp add: affinityKey_def)

section \<open>Concrete requests\<close>

definition plain_handler :: Handler where
  "plain_handler = \<lparr>hd_verbose = True, hd_gzipResponse = True, hd_acceptCompressed = True\<rparr>"

definition user_message :: bytes where
  "user_message = object_text [(''role'', quote ''user''), (''content'', quote ''hi'')]"

definition user_message' :: bytes where
  "user_message' = object_text [(''content'', quote ''hi''), (''role'', quote ''user'')]"

definition reply_message :: bytes where
  "reply_message = object_text [(''role'', quote ''assistant''), (''content'', quote ''hello'')]"

definition hook_body :: "bytes \<Rightarrow> bytes" where
  "hook_body messages =
     object_text
       [(''metadata'', object_text [(''provider'', quote ''anthropic''), (''model'', quote ''m1'')]),
        (''request_body'', object_text [(''system'', quote ''be brief''), (''messages'', messages)])]"

definition chat_body :: bytes where
  "chat_body = hook_body (''['' @ user_message @ '']'')"

definition post :: "bytes \<Rightarrow> http_request" where
  "post body =
     \<lparr>rq_method = ''POST'', rq_path = ''/'', rq_header = [(''Accept-Encoding'', ''gzip;q=0'')],
      rq_body = (body, None)\<rparr>"

definition saving :: "compressRequest \<Rightarrow> unit + compressResult" where
  "saving req = Inr (zeroResult\<lparr>rs_Messages := ''[]'', rs_TokensSaved := 5\<rparr>)"

definition one_ms :: timings where
  "one_ms = \<lparr>tm_read = 0, tm_write = 0, tm_total = 1000\<rparr>"

lemma chat_prepared: "is_ok (process_start plain_handler defaultSettings chat_body)"
  by code_simp

theorem never_blocks_witness:
  "rs_status (fst (serve_hook plain_handler copying_coders Inr defaultSettings saving one_ms None (post ''{'')))
     = http_ok"
proof -
  have "rq_method (post ''{'') = ''POST''" by (simp add: post_def)
  moreover have "coding_of copying_coders (post ''{'') \<in> set ['''', ''zstd'', ''gzip'']" by code_simp
  ultimately show ?thesis using never_blocks [of "post ''{''" copying_coders] by blast
qed

theorem submitted_request_witness:
  "rq_Messages (pr_request (projr (process_start plain_handler defaultSettings chat_body))) = ''['' @ user_message @ '']''"
proof -
  obtain p where p: "process_start plain_handler defaultSettings chat_body = Inr p"
    using chat_prepared by (auto simp: is_ok_iff)
  from submitted_request [OF p] have "map_of (pr_body p) ''messages'' = Some (rq_Messages (pr_request p))" by blast
  moreover have "map_of (pr_body (projr (process_start plain_handler defaultSettings chat_body))) ''messages'' =
      Some (''['' @ user_message @ '']'')" by code_simp
  ultimately show ?thesis using p by simp
qed

definition parsed :: "bytes \<Rightarrow> json" where
  "parsed m = the (json_check m)"

theorem affinity_stable_witness:
  "affinityKey '''' [user_message, reply_message] = affinityKey '''' [user_message', reply_message, user_message]"
proof -
  have "json_check user_message \<noteq> None" "json_check user_message' \<noteq> None" "json_check reply_message \<noteq> None"
    by code_simp+
  then have ok: "json_check user_message = Some (parsed user_message)"
    "json_check user_message' = Some (parsed user_message')"
    "json_check reply_message = Some (parsed reply_message)" by (simp_all add: parsed_def)
  have num: "json_numbers_ok (parsed user_message)" "json_numbers_ok (parsed reply_message)" by code_simp+
  let ?r = "(''role'', quote ''user'', JStr ''user'')" and ?c = "(''content'', quote ''hi'', JStr ''hi'')"
  have "parsed user_message = JObj [?r, ?c]" "parsed user_message' = JObj [?c, ?r]" by code_simp+
  moreover have "reordered (JObj [?r, ?c]) (JObj [?c, ?r])"
    by (rule reordered.object [of "[?r, ?c]" "[?r, ?c]"]) (auto intro: reordered.same)
  ultimately have re: "reordered (parsed user_message) (parsed user_message')" by simp
  from affinity_stable [OF ok(1,2) num(1) re ok(3,3) num(2) reordered.same] show ?thesis by blast
qed

definition bare_message :: "string \<Rightarrow> bytes" where
  "bare_message role = object_text [(''role'', quote role)]"

lemma first_turn_key: "affinityKey '''' [bare_message ''user''] = ''6c8d14b745a98650''"
  by code_simp

lemma second_turn_key:
  "affinityKey '''' [bare_message ''user'', bare_message ''assistant'', bare_message ''user''] = ''9161288e42c5642e''"
  by code_simp

text \<open>
  Without a session the key is not stable when the conversation opens with a single message: the key
  of the first turn, one user message, differs from the key of the next turn, where an answer has
  followed it.
\<close>

theorem first_turn_key_changes:
  "affinityKey '''' [bare_message ''user''] \<noteq>
   affinityKey '''' [bare_message ''user'', bare_message ''assistant'', bare_message ''user'']"
  by (simp add: first_turn_key second_turn_key)

section \<open>What the guards miss\<close>

text \<open>
  A null messages member counts as an array: instead of passing the body through, the hook submits it
  to the compressor with zero messages, the raw text null and an empty routing key.
\<close>

theorem null_messages_submitted:
  "map_sum (\<lambda>_. ()) (\<lambda>p. (rq_Messages (pr_request p), sm_inMessages (pr_summary p), rq_AffinityKey (pr_request p)))
     (process_start plain_handler defaultSettings (hook_body ''null'')) = Inr (''null'', 0, '''')"
  by code_simp

definition null_answer :: bytes where
  "null_answer = object_text
     [(''id'', ''1''), (''ok'', ''true''),
      (''result'', object_text [(''messages'', ''null''), (''tokens_saved'', ''5'')])]"

text \<open>
  A worker result whose messages are null passes the guard against nulling out the body, because a raw
  message holds the four bytes of null: the reply is modify with messages null.
\<close>

theorem null_result_modifies:
  "let answer = do_receive (sample_worker\<lparr>wk_nextID := 1\<rparr>) (Line null_answer);
       p = projr (process_start plain_handler defaultSettings chat_body)
   in is_ok answer \<and>
      map_option (\<lambda>m. map_of m ''messages'') (gr_RequestBody (fst (process_finish plain_handler p answer))) =
        Some (Some ''null'')"
  by code_simp

text \<open>A caller that refuses gzip with a zero q-value is still sent gzip.\<close>

lemma gzip_despite_q0: "acceptsGzip (post [])"
  by code_simp

section \<open>Accounting\<close>

definition reply_outcome :: "hook_reply \<Rightarrow> string" where
  "reply_outcome x = (case x of Reply resp s \<Rightarrow> outcomeFromReason (sm_reason s) | Reject s \<Rightarrow> outcomeFromReason (sm_reason s))"

text \<open>
  C30. Each request is accounted for once: it is counted as inbound and completed and leaves the in-flight
  gauge as it was; a POST, and nothing else, adds one to the request counter and to the counter of its
  outcome.
\<close>

theorem recorded_once:
  assumes "0 \<le>s inboundActive m" and "inboundActive m <s 2 ^ 63 - 1"
  shows "\<exists>m'. fst (snd (serve_hook h cd gz cfg compress tm (Some m) r)) = Some m' \<and>
    inboundTotal m' = inboundTotal m + 1 \<and> inboundCompleted m' = inboundCompleted m + 1 \<and>
    inboundActive m' = inboundActive m \<and>
    requestsTotal m' = requestsTotal m + (if rq_method r = ''POST'' then 1 else 0) \<and>
    (\<forall>k. counter_at (byOutcome m') k = counter_at (byOutcome m) k +
       (if rq_method r = ''POST'' \<and> reply_outcome (hook_reply h cd cfg compress r) = k then 1 else 0))"
proof -
  have "sint (inboundActive m + 1) = sint (inboundActive m) + 1"
    using assms by (simp add: word_sless_alt word_sle_eq sint_word_ariths signed_take_bit_int_eq_self)
  with assms(1) have pos: "0 <s inboundActive m + 1" by (simp add: word_sless_alt word_sle_eq)
  show ?thesis
  proof (cases "hook_reply h cd cfg compress r")
    case (Reply resp s)
    with pos show ?thesis
      by (auto simp: serve_hook_def Let_def inboundStart_def inboundDone_def record_call_eq reply_outcome_def
          counter_at_bump)
  next
    case (Reject s)
    with pos show ?thesis
      by (auto simp: serve_hook_def Let_def inboundStart_def inboundDone_def record_call_eq reply_outcome_def
          counter_at_bump)
  qed
qed

theorem recorded_once_witness:
  "\<exists>m'. fst (snd (serve_hook plain_handler copying_coders Inr defaultSettings saving one_ms (Some newMetrics) (post ''{''))) = Some m' \<and>
     requestsTotal m' = 1"
proof -
  have "0 \<le>s inboundActive newMetrics" "inboundActive newMetrics <s 2 ^ 63 - 1"
    by (simp_all add: newMetrics_def word_sless_alt word_sle_eq)
  from recorded_once [OF this, of plain_handler copying_coders Inr defaultSettings saving one_ms "post ''{''"]
  show ?thesis by (auto simp: newMetrics_def post_def)
qed

text \<open>
  C31. The outcome that is counted is what happened: modify exactly when the body was modified, error exactly
  when the compressor was asked and failed.
\<close>

theorem outcome_truthful:
  "(reply_outcome (hook_reply h cd cfg compress r) = ''modify'' \<longleftrightarrow>
     (\<exists>resp s. hook_reply h cd cfg compress r = Reply resp s \<and> gr_Action resp = ''modify'')) \<and>
   (reply_outcome (hook_reply h cd cfg compress r) = ''error'' \<longleftrightarrow>
     (\<exists>body decoded k p e. read_limited maxBody (rq_body r) = (body, None) \<and>
        decodeRequestBody cd body (header_get (rq_header r) ''Content-Encoding'') = (Inr decoded, k) \<and>
        process_start h cfg decoded = Inr p \<and> compress (pr_request p) = Inl e))"
proof -
  obtain body e where b: "read_limited maxBody (rq_body r) = (body, e)" by fastforce
  obtain x k where d: "decodeRequestBody cd body (header_get (rq_header r) ''Content-Encoding'') = (x, k)"
    by fastforce
  show ?thesis
  proof (cases e)
    case (Some e')
    with b show ?thesis by (simp add: hook_reply_def reply_outcome_def outcomeFromReason_def allow_def)
  next
    case None
    show ?thesis
    proof (cases x)
      case (Inl err)
      with b d None show ?thesis
        by (cases err) (simp_all add: hook_reply_def reply_outcome_def outcomeFromReason_def allow_def)
    next
      case (Inr decoded)
      show ?thesis
      proof (cases "process_start h cfg decoded")
        case (Inl a)
        with process_start_Inl [OF Inl] b d None Inr show ?thesis
          by (cases a) (simp add: hook_reply_def process_def reply_outcome_def outcomeFromReason_def)
      next
        case p: (Inr p)
        show ?thesis
          by (rule process_finish_cases [of "compress (pr_request p)" h p])
            (simp_all add: hook_reply_def process_def reply_outcome_def outcomeFromReason_def allow_def b d None Inr p)
      qed
    qed
  qed
qed

end
