(* ===== verification/Backend.thy ===== *)
theory Backend
  imports PoolProps HandlerProps
begin

text \<open>
  The interface between the hook handler and the worker pool. \<open>compressor\<close> in \<open>handler.go\<close> is an
  interface with one method; the locale \<open>hook_compressor\<close> states what the handler may rely on when a
  call of it returns: a result names a slot of the pool and carries the messages that a worker
  answered. \<open>pool_returns\<close> is the pool's side: the
  outcomes with which a call can return in some reachable state.
\<close>

definition reachable_pool :: "int \<Rightarrow> bool \<Rightarrow> pool \<Rightarrow> bool" where
  "reachable_pool sz aff p \<longleftrightarrow> (\<exists>p0 as. newPool sz aff = Some p0 \<and> run_actions pool_act as p0 = Some p)"

definition pool_returns :: "int \<Rightarrow> bool \<Rightarrow> compressRequest \<Rightarrow> job_result \<Rightarrow> bool" where
  "pool_returns sz aff req r \<longleftrightarrow>
     (\<exists>p j. reachable_pool sz aff p \<and> j < length (pl_calls p) \<and> ca_req (pl_calls p ! j) = req \<and>
        ca_phase (pl_calls p ! j) = Returned r)"

section \<open>Results name a slot and carry what a worker answered\<close>

text \<open>The messages of the result are those of a line that \<open>do\<close> accepted.\<close>

definition from_worker :: "compressResult \<Rightarrow> bool" where
  "from_worker res \<longleftrightarrow> (\<exists>w got r. do_receive w got = Inr r \<and> rs_Messages res = rs_Messages r)"

lemma from_worker_stamp: "do_receive w got = Inr r \<Longrightarrow> from_worker (r\<lparr>rs_Slot := k\<rparr>)"
  unfolding from_worker_def by (intro exI conjI) auto

definition result_ok :: "int \<Rightarrow> compressResult \<Rightarrow> bool" where
  "result_ok n res \<longleftrightarrow> 0 \<le> rs_Slot res \<and> rs_Slot res < n \<and> from_worker res"

lemma stamped_ok: "do_receive w got = Inr r \<Longrightarrow> k < nat n \<Longrightarrow> result_ok n (r\<lparr>rs_Slot := int k\<rparr>)"
  unfolding result_ok_def using from_worker_stamp by (auto simp: nat_less_iff [symmetric])

definition answers_ok :: "pool \<Rightarrow> bool" where
  "answers_ok p \<longleftrightarrow>
     (\<forall>c \<in> set (pl_calls p). \<forall>res. ca_resp c = Some (Inr res) \<longrightarrow> result_ok (pl_size p) res)"

lemma answers_cong:
  "answers_ok p \<Longrightarrow> pl_size q = pl_size p \<Longrightarrow>
   (\<And>c. c \<in> set (pl_calls q) \<Longrightarrow> \<exists>c' \<in> set (pl_calls p). ca_resp c = ca_resp c') \<Longrightarrow> answers_ok q"
  unfolding answers_ok_def by metis

lemma answers_upd:
  assumes "answers_ok p"
    and "\<And>c. ca_resp (f c) = ca_resp c \<or> (\<exists>e. ca_resp (f c) = Some (Inl e)) \<or>
      (\<exists>res. ca_resp (f c) = Some (Inr res) \<and> result_ok (pl_size p) res)"
  shows "answers_ok (upd_call j f p)"
proof (cases "j < length (pl_calls p)")
  case True
  have "\<forall>res. ca_resp (f (pl_calls p ! j)) = Some (Inr res) \<longrightarrow> result_ok (pl_size p) res"
    using assms(1) assms(2) [of "pl_calls p ! j"] True unfolding answers_ok_def by (auto simp: all_set_conv_all_nth)
  with assms(1) show ?thesis
    unfolding answers_ok_def by (auto dest!: set_update_subset_insert [THEN subsetD])
next
  case False
  then have "pl_calls (upd_call j f p) = pl_calls p" by (simp add: list_update_beyond)
  with assms(1) show ?thesis by (simp add: answers_ok_def)
qed

lemma answers_upd_simps [intro]:
  "answers_ok p \<Longrightarrow> answers_ok (set_phase j ph p)"
  "answers_ok p \<Longrightarrow> answers_ok (sent j rt af p)"
  "answers_ok p \<Longrightarrow> answers_ok (answer j (Inl e) p)"
  "answers_ok p \<Longrightarrow> result_ok (pl_size p) res \<Longrightarrow> answers_ok (answer j (Inr res) p)"
  by (auto simp: call_upd_defs intro!: answers_upd)

lemma answers_frame [simp]:
  "answers_ok (set_slot k s p) = answers_ok p" "answers_ok (set_buffer k b p) = answers_ok p"
  "answers_ok (p\<lparr>pl_busy := n\<rparr>) = answers_ok p" "answers_ok (p\<lparr>pl_affinityHits := n\<rparr>) = answers_ok p"
  "answers_ok (p\<lparr>pl_affinitySpills := n\<rparr>) = answers_ok p" "answers_ok (p\<lparr>pl_started := x\<rparr>) = answers_ok p"
  "answers_ok (p\<lparr>pl_started := x, pl_reaped := y\<rparr>) = answers_ok p"
  "answers_ok (p\<lparr>pl_reaped := x\<rparr>) = answers_ok p" "answers_ok (p\<lparr>pl_done := d\<rparr>) = answers_ok p"
  "answers_ok (p\<lparr>pl_busy := n, pl_reaped := y\<rparr>) = answers_ok p"
  "answers_ok (p\<lparr>pl_drained := x\<rparr>) = answers_ok p" "answers_ok (recordHeadroomVersion v p) = answers_ok p"
  by (simp_all add: answers_ok_def set_slot_def set_buffer_def recordHeadroomVersion_def)

lemma answers_composite [intro]:
  "answers_ok p \<Longrightarrow> answers_ok (receive k j p)" "answers_ok p \<Longrightarrow> answers_ok (spawned k af w p)"
  "answers_ok p \<Longrightarrow> answers_ok (spawn_nil k af p)" "answers_ok p \<Longrightarrow> answers_ok (recycle k j e p)"
  by (auto simp: receive_def spawned_def spawn_nil_def recycle_def split: slot.split option.split after_spawn.split)

lemma answers_all: "answers_ok p \<Longrightarrow> answers_ok (answer_all js p)"
  by (induction js p rule: answer_all.induct) auto

lemma answers_act:
  assumes "answers_ok p" and "shape p" and "pool_act a p = Some p'"
  shows "answers_ok p'"
proof (cases a)
  case (Enter req)
  with assms show ?thesis by (auto simp: answers_ok_def call_enter_def)
next
  case (CancelCtx j)
  with assms show ?thesis by (auto simp: call_cancel_def intro!: answers_upd split: if_splits)
next
  case (Read k got)
  with assms show ?thesis
    by (auto simp: slot_read_def shape_def intro!: answers_upd_simps(4) stamped_ok split: pool_splits)
next
  case Drain
  with assms show ?thesis by (auto simp: shutdown_drain_def intro!: answers_all split: if_splits)
qed (use assms in \<open>auto simp: pool_step_defs Let_def split: pool_splits\<close>)

interpretation answers: step_system pool_act pool_init "\<lambda>p. pool_inv p \<and> answers_ok p"
proof unfold_locales
  show "pool_init p \<Longrightarrow> pool_inv p \<and> answers_ok p" for p
    using pool_inv_init by (auto simp: pool_init_def newPool_def answers_ok_def split: if_splits)
  fix p a p'
  assume inv: "pool_inv p \<and> answers_ok p" and step: "pool_act a p = Some p'"
  then have "shape p" by (simp add: pool_inv_def)
  with inv step pool_inv_act answers_act show "pool_inv p' \<and> answers_ok p'" by blast
qed

lemma reachable_pool_inv: "reachable_pool sz aff p \<Longrightarrow> pool_inv p \<and> answers_ok p \<and> pl_size p = sz"
  using answers.inv_reachable reachable_size by (fastforce simp: reachable_pool_def pool_init_def)

lemma pool_returns_ok:
  assumes "pool_returns sz aff req (Inr res)"
  shows "result_ok sz res"
proof -
  from assms obtain p j where p: "reachable_pool sz aff p" "j < length (pl_calls p)"
    and ph: "ca_phase (pl_calls p ! j) = Returned (Inr res)" by (auto simp: pool_returns_def)
  from reachable_pool_inv [OF p(1)] have inv: "calls_ok p" "answers_ok p" "pl_size p = sz"
    by (auto simp: pool_inv_def)
  from call_phase_ok [OF call_at [OF inv(1) p(2)] ph] have "ca_resp (pl_calls p ! j) = Some (Inr res)" by simp
  with inv(2,3) p(2) show ?thesis by (auto simp: answers_ok_def)
qed

section \<open>The interface\<close>

locale hook_compressor =
  fixes returns :: "compressRequest \<Rightarrow> 'e + compressResult \<Rightarrow> bool"
    and slots :: int
  assumes slot_named: "returns req (Inr res) \<Longrightarrow> 0 \<le> rs_Slot res \<and> rs_Slot res < slots"
    and worker_answered: "returns req (Inr res) \<Longrightarrow> from_worker res"
begin

text \<open>The slot a hook call reports is a slot of the pool, or -1 when no worker served it.\<close>

lemma finish_slot:
  assumes "process_start h cfg body = Inr p" and "returns (pr_request p) out"
  shows "if is_ok out then 0 \<le> sm_slot (snd (process_finish h p out)) \<and> sm_slot (snd (process_finish h p out)) < slots
    else sm_slot (snd (process_finish h p out)) = -1"
proof (rule process_finish_cases [of out h p])
  fix e
  assume "out = Inl e" "process_finish h p out = (allow, (pr_summary p)\<lparr>sm_reason := ''allow(error)''\<rparr>)"
  moreover have "sm_slot (pr_summary p) = -1" using process_start_Inr [OF assms(1)] by blast
  ultimately show ?thesis by simp
qed (use assms(2) slot_named in auto)

end

interpretation pool_hook: hook_compressor "pool_returns sz aff" sz for sz aff
  by unfold_locales (auto dest!: pool_returns_ok simp: result_ok_def)

text \<open>
  C37. The slot reported for a hook call is real: whatever the pool does, a call that got a result reports
  a slot of the pool, and one that failed open reports -1.
\<close>

theorem reported_slot:
  assumes "process_start h cfg body = Inr p" and "pool_returns sz aff (pr_request p) out"
  shows "if is_ok out
    then 0 \<le> sm_slot (snd (process_finish h p out)) \<and> sm_slot (snd (process_finish h p out)) < sz
    else sm_slot (snd (process_finish h p out)) = -1"
  by (rule pool_hook.finish_slot [OF assms])

definition session_body :: bytes where
  "session_body = object_text
     [(''metadata'', object_text [(''session_id'', quote ''conv-A'')]),
      (''request_body'', object_text [(''messages'', ''[]''), (''model'', quote ''m2'')])]"

definition session_prepared :: prepared where
  "session_prepared = projr (process_start plain_handler defaultSettings session_body)"

definition hook_run :: "pool_action list" where
  "hook_run = start_run @
     [Enter (pr_request session_prepared), Check 0, Affinity 0, Count 0, Write 0 empty_heap None,
      Read 0 (Line (answer_line 1)), Return 0]"

definition hook_served :: pool where
  "hook_served = the (run_actions pool_act hook_run pool1)"

definition session_out :: job_result where
  "session_out = Inr (zeroResult\<lparr>rs_Messages := ''[]'', rs_TokensSaved := 5, rs_Slot := 0\<rparr>)"

lemma session_start: "process_start plain_handler defaultSettings session_body = Inr session_prepared"
proof -
  have "is_ok (process_start plain_handler defaultSettings session_body)" by code_simp
  then show ?thesis by (auto simp: session_prepared_def is_ok_iff)
qed

lemma session_returns: "pool_returns 1 True (pr_request session_prepared) session_out"
proof -
  have "run_actions pool_act hook_run pool1 \<noteq> None" by code_simp
  then have "reachable_pool 1 True hook_served"
    using pool1_new by (auto simp: reachable_pool_def hook_served_def)
  moreover have "0 < length (pl_calls hook_served)" by code_simp
  moreover have "ca_req (pl_calls hook_served ! 0) = pr_request session_prepared" by code_simp
  moreover have "ca_phase (pl_calls hook_served ! 0) = Returned session_out" by code_simp
  ultimately show ?thesis unfolding pool_returns_def by blast
qed

theorem reported_slot_witness: "sm_slot (snd (process_finish plain_handler session_prepared session_out)) < 1"
  using reported_slot [OF session_start session_returns] by (simp add: session_out_def)

end
