(* ===== verification/Service.thy ===== *)
theory Service
  imports Backend ConfigStore
begin

text \<open>
  \<open>main.go\<close>: the wiring. One settings store, one pool and one metrics object are shared by the three
  endpoints and by the slot goroutines. A state of the running service holds the three and the hook
  calls that wait for the pool; an action is one step of one of its goroutines, so that requests to the
  three endpoints and steps of the pool interleave freely. The flags, the routing and the command line
  of a worker are here too. Listening, signals and logging are left out.
\<close>

section \<open>Start-up\<close>

record flags =
  fl_hostname :: string
  fl_poolSize :: int
  fl_maxCompress :: int
  fl_python :: string
  fl_script :: string
  fl_addr :: string
  fl_stateDir :: string
  fl_config :: string
  fl_localAddr :: string
  fl_verbose :: bool
  fl_noAffinity :: bool
  fl_gzipResp :: bool
  fl_acceptComp :: bool

text \<open>The defaults of the command line; the cap is in milliseconds.\<close>

definition default_flags :: flags where
  "default_flags =
     \<lparr>fl_hostname = ''tsheadroom'', fl_poolSize = 8, fl_maxCompress = 60000, fl_python = ''python3'',
      fl_script = ''worker.py'', fl_addr = '':80'', fl_stateDir = [],
      fl_config = ''tsheadroom.config.json'', fl_localAddr = [], fl_verbose = False,
      fl_noAffinity = False, fl_gzipResp = True, fl_acceptComp = True\<rparr>"

definition modeName :: "string \<Rightarrow> string" where
  "modeName localAddr = (if localAddr \<noteq> '''' then ''local'' else ''tsnet'')"

definition listenAddr :: "string \<Rightarrow> string \<Rightarrow> string" where
  "listenAddr localAddr addr = (if localAddr \<noteq> '''' then localAddr else addr)"

text \<open>What the kernel is told of a child: the signal it gets when the parent dies (0 is none), its group.\<close>

record sysProcAttr =
  pa_Pdeathsig :: nat
  pa_Setpgid :: bool

record command =
  cm_args :: "string list"
  cm_env :: "string list"
  cm_SysProcAttr :: "sysProcAttr option"

text \<open>The command of a worker; \<open>preload\<close> is \<open>None\<close> when no function was given.\<close>

definition worker_command :: "string \<Rightarrow> string \<Rightarrow> bool option \<Rightarrow> string list \<Rightarrow> command" where
  "worker_command python script preload environ =
     \<lparr>cm_args = [python, ''-u'', script],
      cm_env = environ @ [''TSHEADROOM_PRELOAD='' @ (if preload = Some True then ''1'' else ''0'')],
      cm_SysProcAttr = None\<rparr>"

definition SIGKILL :: nat where
  "SIGKILL = 9"

text \<open>\<open>setProcAttr\<close> of \<open>procattr_linux.go\<close> and of \<open>procattr_other.go\<close>; the build picks one.\<close>

definition setProcAttr_linux :: "command \<Rightarrow> command" where
  "setProcAttr_linux cmd = cmd\<lparr>cm_SysProcAttr := Some \<lparr>pa_Pdeathsig = SIGKILL, pa_Setpgid = True\<rparr>\<rparr>"

definition setProcAttr_other :: "command \<Rightarrow> command" where
  "setProcAttr_other cmd = cmd\<lparr>cm_SysProcAttr := Some \<lparr>pa_Pdeathsig = 0, pa_Setpgid = True\<rparr>\<rparr>"

datatype endpoint = ConfigAPI | MetricsAPI | HookAPI

text \<open>The mux, for a cleaned path.\<close>

definition route_path :: "string \<Rightarrow> endpoint" where
  "route_path path =
     (if path = ''/config'' then ConfigAPI else if path = ''/metrics'' then MetricsAPI else HookAPI)"

section \<open>A hook call, up to and after its wait\<close>

record pending =
  pn_call :: nat
  pn_prepared :: prepared
  pn_coding :: string
  pn_wire :: int

definition hook_begin ::
  "Handler \<Rightarrow> coders \<Rightarrow> CompressSettings \<Rightarrow> nat \<Rightarrow> http_request \<Rightarrow> hook_reply + pending" where
  "hook_begin h cd cfg j r =
     (case read_limited maxBody (rq_body r) of
        (body, Some e) \<Rightarrow>
          Inl (Reply allow (zero_summary\<lparr>sm_reason := ''allow(read-error)'', sm_wireBytes := int (length body), sm_slot := -1\<rparr>))
      | (body, None) \<Rightarrow>
          (case decodeRequestBody cd body (header_get (rq_header r) ''Content-Encoding'') of
             (Inl (ErrUnsupportedEncoding k), coding) \<Rightarrow>
               Inl (Reject (zero_summary\<lparr>sm_reason := ''reject(encoding)'', sm_enc := coding,
                              sm_wireBytes := int (length body), sm_slot := -1\<rparr>))
           | (Inl (ErrDecode e), coding) \<Rightarrow>
               Inl (Reply allow (zero_summary\<lparr>sm_reason := ''allow(decode-error)'', sm_enc := coding,
                                   sm_wireBytes := int (length body), sm_slot := -1\<rparr>))
           | (Inr decoded, coding) \<Rightarrow>
               (case process_start h cfg decoded of
                  Inl (resp, s) \<Rightarrow> Inl (Reply resp (s\<lparr>sm_enc := coding, sm_wireBytes := int (length body)\<rparr>))
                | Inr p \<Rightarrow> Inr \<lparr>pn_call = j, pn_prepared = p, pn_coding = coding, pn_wire = int (length body)\<rparr>)))"

definition hook_end :: "Handler \<Rightarrow> pending \<Rightarrow> 'e + compressResult \<Rightarrow> hook_reply" where
  "hook_end h pn out =
     (case process_finish h (pn_prepared pn) out of
        (resp, s) \<Rightarrow> Reply resp (s\<lparr>sm_enc := pn_coding pn, sm_wireBytes := pn_wire pn\<rparr>))"

lemma hook_split:
  "hook_reply h cd cfg compress r =
     (case hook_begin h cd cfg j r of
        Inl x \<Rightarrow> x
      | Inr pn \<Rightarrow> hook_end h pn (compress (pr_request (pn_prepared pn))))"
  by (auto simp: hook_reply_def hook_begin_def hook_end_def process_def split: hook_reply_cases)

section \<open>The running service\<close>

record service =
  sv_handler :: Handler
  sv_settings :: settingsStore
  sv_metrics :: Metrics
  sv_pool :: pool
  sv_pending :: "pending list"

definition start_service :: "flags \<Rightarrow> fs \<Rightarrow> service option" where
  "start_service fl d =
     map_option
       (\<lambda>p. \<lparr>sv_handler = \<lparr>hd_verbose = fl_verbose fl, hd_gzipResponse = fl_gzipResp fl,
                            hd_acceptCompressed = fl_acceptComp fl\<rparr>,
              sv_settings = loadSettings (fl_config fl) empty_heap d,
              sv_metrics = newMetrics, sv_pool = p, sv_pending = []\<rparr>)
       (newPool (fl_poolSize fl) (\<not> fl_noAffinity fl))"

text \<open>The worker command of a spawn in a given state.\<close>

definition spawn_command :: "flags \<Rightarrow> string list \<Rightarrow> service \<Rightarrow> command" where
  "spawn_command fl environ s =
     worker_command (fl_python fl) (fl_script fl) (Some (textEnabled (store_get (sv_settings s)))) environ"

definition config_endpoint :: "(bytes \<Rightarrow> string) \<Rightarrow> service \<Rightarrow> configHandler" where
  "config_endpoint json_error s =
     \<lparr>ch_headroomVersion = Some (headroomVersion (sv_pool s)), ch_json_error = json_error\<rparr>"

definition scrape :: "service \<Rightarrow> http_request \<Rightarrow> http_response" where
  "scrape s r =
     serve_metrics (Some (sv_metrics s)) (Some (stats (sv_pool s))) (Some (affinityStats (sv_pool s))) r"

definition reply_summary :: "hook_reply \<Rightarrow> summary" where
  "reply_summary x = (case x of Reply resp s \<Rightarrow> s | Reject s \<Rightarrow> s)"

definition finish_call :: "hook_reply \<Rightarrow> nat \<Rightarrow> Metrics \<Rightarrow> Metrics" where
  "finish_call x us m = the (inboundDone (record_call (Some m) (reply_summary x) (msSince (int us))))"

text \<open>
  The actions: a request to \<open>/config\<close>; a hook request up to its reply or its wait, with its duration when
  it is answered at once; the end of a waiting call whose \<open>Compress\<close> has returned; a step of the pool,
  where a write to a worker marshals the request against the current heap.
\<close>

datatype service_action =
    Configure "bytes \<Rightarrow> string" http_request
  | HookBegin coders http_request nat
  | HookEnd nat nat
  | PoolStep pool_action
  | PoolWrite nat "string option"

fun internal_step :: "pool_action \<Rightarrow> bool" where
  "internal_step (Enter req) = False"
| "internal_step (Write k h wrote) = False"
| "internal_step a = True"

definition hook_start :: "coders \<Rightarrow> http_request \<Rightarrow> nat \<Rightarrow> service \<Rightarrow> service" where
  "hook_start cd r us s =
     (let m1 = the (inboundStart (Some (sv_metrics s))) in
      if rq_method r \<noteq> ''POST'' then s\<lparr>sv_metrics := the (inboundDone (Some m1))\<rparr>
      else case hook_begin (sv_handler s) cd (store_get (sv_settings s)) (length (pl_calls (sv_pool s))) r of
             Inl x \<Rightarrow> s\<lparr>sv_metrics := finish_call x us m1\<rparr>
           | Inr pn \<Rightarrow> s\<lparr>sv_metrics := m1,
                          sv_pool := call_enter (pr_request (pn_prepared pn)) (sv_pool s),
                          sv_pending := sv_pending s @ [pn]\<rparr>)"

definition hook_finish :: "nat \<Rightarrow> nat \<Rightarrow> service \<Rightarrow> service option" where
  "hook_finish i us s =
     (if i < length (sv_pending s) then
        let pn = sv_pending s ! i in
        (case ca_phase (pl_calls (sv_pool s) ! pn_call pn) of
           Returned out \<Rightarrow>
             Some (s\<lparr>sv_metrics := finish_call (hook_end (sv_handler s) pn out) us (sv_metrics s),
                     sv_pending := take i (sv_pending s) @ drop (Suc i) (sv_pending s)\<rparr>)
         | _ \<Rightarrow> None)
      else None)"

fun service_act :: "service_action \<Rightarrow> service \<Rightarrow> service option" where
  "service_act (Configure je r) s =
     Some (s\<lparr>sv_settings := fst (serve_config (config_endpoint je s) (sv_settings s) r)\<rparr>)"
| "service_act (HookBegin cd r us) s =
     (if length (sv_pending s) + 1 < 2 ^ 63 then Some (hook_start cd r us s) else None)"
| "service_act (HookEnd i us) s = hook_finish i us s"
| "service_act (PoolStep a) s =
     (if internal_step a then map_option (\<lambda>p. s\<lparr>sv_pool := p\<rparr>) (pool_act a (sv_pool s)) else None)"
| "service_act (PoolWrite k wrote) s =
     map_option (\<lambda>p. s\<lparr>sv_pool := p\<rparr>) (pool_act (Write k (st_heap (sv_settings s)) wrote) (sv_pool s))"

end
