(* ===== verification/ServiceProps.thy ===== *)
theory ServiceProps
  imports Service
begin

text \<open>
  The components together: along every interleaving of requests to the three endpoints and steps of the
  pool, the metrics are those of a run of the metrics component with as many calls in flight as hook
  calls wait for the pool, and every waiting hook call owns one pool call, with its own request. And
  how the shared pointers of the settings reach a request that is already waiting.
\<close>

section \<open>Durations are not negative\<close>

lemma round64_positive: "\<exists>m e. round64 False n d = F_Fin False m e \<or> round64 False n d = F_Inf False"
  by (auto simp: round64_def Let_def split_beta)

lemma f64_le_positive: "f64_le f64_zero (F_Fin False m e)"
  by (simp add: aligned_def signed_mant_def)

lemma f64_of_nat_positive: "\<exists>m e. f64_of_int (int n) = F_Fin False m e \<or> f64_of_int (int n) = F_Inf False"
  using round64_positive by (auto simp: f64_of_int_def round_int_def split_beta Let_def)

lemma f64_div_positive:
  "x = F_Fin False m e \<or> x = F_Inf False \<Longrightarrow> f64_le f64_zero (f64_div_nat x k)"
proof (erule disjE)
  assume x: "x = F_Fin False m e"
  obtain a b where ab: "scaled m k (- e) = (a, b)" by fastforce
  obtain m' e' where "round64 False a b = F_Fin False m' e' \<or> round64 False a b = F_Inf False"
    using round64_positive by blast
  with x ab f64_le_positive show ?thesis by (auto simp del: f64_le.simps(1))
qed simp

lemma msSince_positive: "f64_le f64_zero (msSince (int us))"
  using f64_of_nat_positive [of us] f64_div_positive unfolding msSince_def by blast

section \<open>The invariant\<close>

lemma answer_all_req:
  "j < length (pl_calls p) \<Longrightarrow> ca_req (pl_calls (answer_all js p) ! j) = ca_req (pl_calls p ! j)"
  by (induction js p rule: answer_all.induct) (auto simp: call_upd_defs nth_upd)

lemma pool_act_reqs:
  assumes "pool_act a p = Some p'" and "j < length (pl_calls p)"
  shows "j < length (pl_calls p') \<and> ca_req (pl_calls p' ! j) = ca_req (pl_calls p ! j)"
proof (cases a)
  case (Enter req)
  with assms show ?thesis by (auto simp: call_enter_def nth_append)
qed (use assms in \<open>auto simp: pool_step_defs Let_def receive_frame call_upd_defs nth_upd
       spawned_def spawn_nil_def answer_all_req split: pool_splits\<close>)

definition metrics_run :: "Metrics \<Rightarrow> nat \<Rightarrow> bool" where
  "metrics_run m n \<longleftrightarrow>
     (\<exists>as w. run_actions metrics_act as metrics_start = Some w \<and> mw_metrics w = m \<and> mw_flight w = n)"

lemma metrics_run_step:
  assumes "metrics_run m n"
    and "\<And>w. mw_metrics w = m \<Longrightarrow> mw_flight w = n \<Longrightarrow>
      \<exists>w'. metrics_act a w = Some w' \<and> mw_metrics w' = m' \<and> mw_flight w' = n'"
  shows "metrics_run m' n'"
proof -
  from assms(1) obtain as w where w: "run_actions metrics_act as metrics_start = Some w" "mw_metrics w = m" "mw_flight w = n"
    unfolding metrics_run_def by blast
  from assms(2) [OF w(2,3)] obtain w' where w': "metrics_act a w = Some w'" "mw_metrics w' = m'" "mw_flight w' = n'"
    by blast
  have "run_actions metrics_act (as @ [a]) metrics_start = Some w'"
    by (simp add: run_actions_append w(1) w'(1))
  with w' show ?thesis unfolding metrics_run_def by blast
qed

lemma metrics_run_start: "metrics_run newMetrics 0"
proof -
  have "run_actions metrics_act [] metrics_start = Some metrics_start" by simp
  then show ?thesis unfolding metrics_run_def by (fastforce simp: metrics_start_def)
qed

lemma metrics_run_inbound:
  "metrics_run m n \<Longrightarrow> n + 1 < 2 ^ 63 \<Longrightarrow> metrics_run (the (inboundStart (Some m))) (n + 1)"
  by (rule metrics_run_step [where a = Start]) auto

lemma metrics_run_done:
  "metrics_run m (Suc n) \<Longrightarrow> metrics_run (the (inboundDone (Some m))) n"
  by (rule metrics_run_step [where a = Done]) auto

lemma metrics_run_record:
  "metrics_run m n \<Longrightarrow> metrics_run (the (record_call (Some m) s (msSince (int us)))) n"
  by (rule metrics_run_step [where a = "Record s (msSince (int us))"]) (auto simp: msSince_positive)

lemma metrics_run_finish: "metrics_run m (Suc n) \<Longrightarrow> metrics_run (finish_call x us m) n"
  unfolding finish_call_def
  by (subst record_call_Some) (rule metrics_run_done [OF metrics_run_record])

definition owns :: "pool \<Rightarrow> pending \<Rightarrow> bool" where
  "owns p pn \<longleftrightarrow> pn_call pn < length (pl_calls p) \<and>
     ca_req (pl_calls p ! pn_call pn) = pr_request (pn_prepared pn)"

definition service_inv :: "service \<Rightarrow> bool" where
  "service_inv s \<longleftrightarrow>
     metrics_run (sv_metrics s) (length (sv_pending s)) \<and>
     pool_inv (sv_pool s) \<and> wf_store (sv_settings s) \<and>
     distinct (map pn_call (sv_pending s)) \<and> (\<forall>pn \<in> set (sv_pending s). owns (sv_pool s) pn)"

definition service_init :: "service \<Rightarrow> bool" where
  "service_init s \<longleftrightarrow> (\<exists>fl d. start_service fl d = Some s)"

lemma serve_config_store:
  "fst (serve_config ch st r) = st \<or> (\<exists>body. fst (serve_config ch st r) = fst (store_merge st body))"
  by (auto simp: serve_config_def split: option.splits prod.splits sum.splits) (metis fst_conv)+

lemma owns_act: "owns p pn \<Longrightarrow> pool_act a p = Some p' \<Longrightarrow> owns p' pn"
  using pool_act_reqs by (auto simp: owns_def)

lemma service_pool_step:
  "service_inv s \<Longrightarrow> pool_act a (sv_pool s) = Some p \<Longrightarrow> service_inv (s\<lparr>sv_pool := p\<rparr>)"
  using pool_inv_act owns_act by (auto simp: service_inv_def)

lemma hook_begin_call: "hook_begin h cd cfg j r = Inr pn \<Longrightarrow> pn_call pn = j"
  by (auto simp: hook_begin_def split: hook_reply_cases)

lemma service_hook_start:
  assumes "service_inv s" and "length (sv_pending s) + 1 < 2 ^ 63"
  shows "service_inv (hook_start cd r us s)"
proof -
  let ?m1 = "the (inboundStart (Some (sv_metrics s)))"
  have m1: "metrics_run ?m1 (length (sv_pending s) + 1)"
    using assms metrics_run_inbound by (auto simp: service_inv_def)
  show ?thesis
  proof (cases "rq_method r = ''POST''")
    case False
    with assms(1) m1 metrics_run_done show ?thesis by (auto simp: hook_start_def Let_def service_inv_def)
  next
    case post: True
    let ?b = "hook_begin (sv_handler s) cd (store_get (sv_settings s)) (length (pl_calls (sv_pool s))) r"
    show ?thesis
    proof (cases ?b)
      case (Inl x)
      with assms(1) post m1 metrics_run_finish show ?thesis
        by (auto simp: hook_start_def Let_def service_inv_def)
    next
      case (Inr pn)
      note j = hook_begin_call [OF Inr]
      have inv: "pool_inv (call_enter (pr_request (pn_prepared pn)) (sv_pool s))"
        using assms(1) pool_inv_act [of "sv_pool s" "Enter (pr_request (pn_prepared pn))"]
        by (simp add: service_inv_def)
      have "\<forall>q \<in> set (sv_pending s). pn_call q < length (pl_calls (sv_pool s))"
        using assms(1) by (auto simp: service_inv_def owns_def)
      with j have "pn_call pn \<notin> set (map pn_call (sv_pending s))" by auto
      with assms(1) post m1 inv j Inr show ?thesis
        by (auto simp: hook_start_def Let_def service_inv_def owns_def call_enter_def nth_append)
    qed
  qed
qed

lemma service_hook_finish:
  assumes "service_inv s" and "hook_finish i us s = Some s'"
  shows "service_inv s'"
proof -
  let ?ps = "sv_pending s"
  let ?rest = "take i ?ps @ drop (Suc i) ?ps"
  from assms(2) obtain x where i: "i < length ?ps"
    and s': "s' = s\<lparr>sv_metrics := finish_call x us (sv_metrics s), sv_pending := ?rest\<rparr>"
    by (auto simp: hook_finish_def Let_def split: if_splits call_phase.splits)
  have len: "length ?ps = Suc (length ?rest)" using i by simp
  have "?ps = take i ?ps @ ?ps ! i # drop (Suc i) ?ps" using i by (rule id_take_nth_drop)
  then have "distinct (map pn_call (take i ?ps @ ?ps ! i # drop (Suc i) ?ps))"
    using assms(1) by (simp add: service_inv_def)
  then have "distinct (map pn_call ?rest)" by auto
  moreover have "set ?rest \<subseteq> set ?ps" by (auto dest: in_set_takeD in_set_dropD)
  moreover have "metrics_run (finish_call x us (sv_metrics s)) (length ?rest)"
    using assms(1) metrics_run_finish len by (simp only: service_inv_def)
  ultimately show ?thesis using assms(1) by (auto simp: s' service_inv_def)
qed

interpretation svc: step_system service_act service_init service_inv
proof unfold_locales
  fix s
  assume "service_init s"
  then obtain fl d where start: "start_service fl d = Some s" unfolding service_init_def by blast
  then obtain p where p: "newPool (fl_poolSize fl) (\<not> fl_noAffinity fl) = Some p"
    by (auto simp: start_service_def)
  with start have s: "sv_metrics s = newMetrics" "sv_pool s = p" "sv_pending s = []"
      "sv_settings s = loadSettings (fl_config fl) empty_heap d"
    by (auto simp: start_service_def)
  from p have "pool_inv p" using pool_inv_init by (auto simp: pool_init_def)
  with s metrics_run_start wf_store_load show "service_inv s" by (simp add: service_inv_def)
next
  fix s a s'
  assume inv: "service_inv s" and step: "service_act a s = Some s'"
  show "service_inv s'"
  proof (cases a)
    case (Configure je r)
    let ?st = "fst (serve_config (config_endpoint je s) (sv_settings s) r)"
    have "wf_store ?st"
      using serve_config_store [of "config_endpoint je s" "sv_settings s" r] wf_store_merge inv
      by (auto simp: service_inv_def)
    with inv step Configure show ?thesis by (auto simp: service_inv_def)
  next
    case (HookBegin cd r us)
    with inv step service_hook_start show ?thesis by (auto split: if_splits)
  next
    case (HookEnd i us)
    with inv step service_hook_finish show ?thesis by auto
  next
    case (PoolStep b)
    with inv step service_pool_step show ?thesis by (auto split: if_splits)
  next
    case (PoolWrite k wrote)
    let ?w = "Write k (st_heap (sv_settings s)) wrote"
    from step PoolWrite obtain p where "pool_act ?w (sv_pool s) = Some p" "s' = s\<lparr>sv_pool := p\<rparr>"
      by (auto simp del: pool_act.simps)
    with service_pool_step [OF inv, of ?w] show ?thesis by blast
  qed
qed

lemma service_reachable:
  "start_service fl d = Some s0 \<Longrightarrow> run_actions service_act as s0 = Some s \<Longrightarrow> service_inv s"
  using svc.inv_reachable unfolding service_init_def by blast

section \<open>What holds of the whole service\<close>



text \<open>
  Splitting a hook call at its wait for the pool loses nothing: the reply of \<open>ServeHTTP\<close> is the reply of
  the two halves around the compressor's outcome.
\<close>

theorem hook_split_reply:
  "hook_reply h cd cfg compress r =
     (case hook_begin h cd cfg j r of
        Inl x \<Rightarrow> x
      | Inr pn \<Rightarrow> hook_end h pn (compress (pr_request (pn_prepared pn))))"
  by (rule hook_split)

section \<open>Settings shared with a waiting request\<close>

definition one_slot :: flags where
  "one_slot = default_flags\<lparr>fl_poolSize := 1, fl_config := ''/c''\<rparr>"

definition blank_disk :: fs where
  "blank_disk = \<lparr>fs_file = NoFile, fs_mkdir_error = None, fs_write_error = None\<rparr>"

definition service0 :: service where
  "service0 = the (start_service one_slot blank_disk)"

lemma service0_start: "start_service one_slot blank_disk = Some service0"
  by (simp add: service0_def start_service_def newPool_def one_slot_def default_flags_def)

definition profile_put :: "string \<Rightarrow> service_action" where
  "profile_put v = Configure (\<lambda>_. ''json error'') (put_request (json_obj [(''savings_profile'', v)]))"

definition submit_run :: "service_action list" where
  "submit_run =
     [profile_put ''balanced'', PoolStep (SpawnCheck 0), PoolStep (SpawnStart 0 ready_start),
      HookBegin copying_coders (post session_body) 0,
      PoolStep (Check 0), PoolStep (Affinity 0), PoolStep (Count 0)]"

definition submitted_service :: service where
  "submitted_service = the (run_actions service_act submit_run service0)"

lemma submit_run_ok: "run_actions service_act submit_run service0 = Some submitted_service"
proof -
  have "run_actions service_act submit_run service0 \<noteq> None" by code_simp
  then show ?thesis by (simp add: submitted_service_def)
qed



text \<open>The settings that the worker will be sent for call 0, in a given state.\<close>

definition seen_profile :: "service \<Rightarrow> string option" where
  "seen_profile s =
     vw_profile (view (st_heap (sv_settings s)) (rq_Config (ca_req (pl_calls (sv_pool s) ! 0))))"


end
