(* ===== verification/Startup.thy ===== *)
theory Startup
  imports ServiceProps PoolShutdown
begin

text \<open>
  \<open>main\<close> and \<open>listen\<close> of \<open>main.go\<close>: the life of the whole process as a step relation around the running
  service, from resolving the paths to the exit status. The deferred calls are a stack, so that leaving
  by \<open>os.Exit\<close>, which runs none of them, differs from returning. What \<open>filepath.Abs\<close>, \<open>net.Listen\<close> and
  tsnet answer is in a record; which requests arrive, when a signal comes and whether the server drains
  in time are the labels of the steps.
\<close>

section \<open>\<open>listen\<close>\<close>

record tsnet_server =
  ts_Hostname :: string
  ts_Dir :: string
  ts_AuthKey :: string

record world =
  wd_abs :: "string \<Rightarrow> string option"
  wd_disk :: fs
  wd_authkey :: string
  wd_net_listen :: "string \<Rightarrow> string option"
  wd_ts_listen :: "tsnet_server \<Rightarrow> string \<Rightarrow> string option"

text \<open>\<open>wd_net_listen\<close> and \<open>wd_ts_listen\<close> give the error, if any.\<close>

datatype resource = Listener string | Node tsnet_server | NodeListener string

datatype net_event = Opened resource | Closed resource

text \<open>
  What is done to the network, then the error or the listener with what \<open>cleanup\<close> does. The zero values
  of \<open>Dir\<close> and \<open>AuthKey\<close> are empty, so setting them only when they are not is setting them.
\<close>

definition listen ::
  "world \<Rightarrow> string \<Rightarrow> string \<Rightarrow> string \<Rightarrow> string \<Rightarrow> net_event list \<times> (string + resource \<times> net_event list)" where
  "listen wd localAddr addr hostname stateDir =
     (if localAddr \<noteq> '''' then
        (case wd_net_listen wd localAddr of
           Some err \<Rightarrow> ([], Inl err)
         | None \<Rightarrow> ([Opened (Listener localAddr)], Inr (Listener localAddr, [Closed (Listener localAddr)])))
      else
        (let srv = \<lparr>ts_Hostname = hostname, ts_Dir = stateDir, ts_AuthKey = wd_authkey wd\<rparr> in
         case wd_ts_listen wd srv addr of
           Some err \<Rightarrow> ([Opened (Node srv), Closed (Node srv)], Inl err)
         | None \<Rightarrow>
             ([Opened (Node srv), Opened (NodeListener addr)],
              Inr (NodeListener addr, [Closed (NodeListener addr), Closed (Node srv)]))))"

fun open_after :: "net_event list \<Rightarrow> resource set \<Rightarrow> resource set" where
  "open_after [] R = R"
| "open_after (Opened r # es) R = open_after es (insert r R)"
| "open_after (Closed r # es) R = open_after es (R - {r})"

lemma open_after_append: "open_after (es @ fs) R = open_after fs (open_after es R)"
  by (induction es R rule: open_after.induct) simp_all

lemma listen_error_releases: "listen wd la ad hn sd = (es, Inl err) \<Longrightarrow> open_after es {} = {}"
  by (auto simp: listen_def Let_def split: if_splits option.splits)

text \<open>Closing the listener early, as the server's \<open>Shutdown\<close> does, changes nothing for \<open>cleanup\<close>.\<close>

lemma listen_cleanup_releases:
  "listen wd la ad hn sd = (es, Inr (lst, cl)) \<Longrightarrow>
   lst \<in> open_after es {} \<and> open_after (es @ cl) {} = {} \<and> open_after (es @ Closed lst # cl) {} = {}"
  by (auto simp: listen_def Let_def open_after_append split: if_splits option.splits)

section \<open>\<open>main\<close>\<close>

text \<open>
  Where \<open>main\<close> stands: before the pool, with the pool, waiting for a signal, in the server's \<open>Shutdown\<close>,
  running the deferred calls, in the pool's \<open>Shutdown\<close>, gone with a status, or killed by a signal that
  came before it was asked for.
\<close>

datatype main_pc = Begun | Built | Serving | Draining | Unwinding | PoolStopping | Exit nat | Killed

datatype deferred = CancelTimer | Cleanup "net_event list" | ShutdownPool

record main_state =
  mn_pc :: main_pc
  mn_service :: "service option"
  mn_net :: "net_event list"
  mn_listener :: "resource option"
  mn_defers :: "deferred list"
  mn_accepting :: bool
  mn_accepted :: nat
  mn_graceful :: bool

definition main_start :: main_state where
  "main_start =
     \<lparr>mn_pc = Begun, mn_service = None, mn_net = [], mn_listener = None, mn_defers = [],
      mn_accepting = False, mn_accepted = 0, mn_graceful = False\<rparr>"

datatype main_event =
    Build
  | Bind
  | Accept
  | ServeFails
  | Work service_action
  | Request service_action
  | Scraped
  | Signal
  | Drained
  | DrainTimeout
  | RunDeferred
  | DrainBuffer
  | LeaveMain

text \<open>Requests come through the listener; the other steps of the service are those of its goroutines.\<close>

fun request_action :: "service_action \<Rightarrow> bool" where
  "request_action (Configure je r) = True"
| "request_action (HookBegin cd r us) = True"
| "request_action a = False"

fun work_action :: "service_action \<Rightarrow> bool" where
  "work_action (HookEnd i us) = True"
| "work_action (PoolWrite k wrote) = True"
| "work_action (PoolStep a) = (a \<noteq> Cancel \<and> a \<noteq> Drain)"
| "work_action a = False"

definition running_pc :: "main_pc \<Rightarrow> bool" where
  "running_pc pc \<longleftrightarrow> pc \<in> set [Built, Serving, Draining, Unwinding, PoolStopping]"

definition serving_pc :: "main_pc \<Rightarrow> bool" where
  "serving_pc pc \<longleftrightarrow> pc \<in> set [Serving, Draining, Unwinding, PoolStopping]"

definition pool_stopped :: "pool \<Rightarrow> bool" where
  "pool_stopped p \<longleftrightarrow> list_all (\<lambda>s. s = Exited) (pl_slots p) \<and> pl_drained p = length (pl_affinity p)"

text \<open>
  A request that the listener has accepted is handled until the process ends, also while the server
  drains and after it has given up draining: \<open>Shutdown\<close> closes the listener and waits, and does not
  interrupt a handler. A failed \<open>Serve\<close> is logged and the process stays.
\<close>

inductive main_step :: "flags \<Rightarrow> world \<Rightarrow> main_state \<Rightarrow> main_event \<Rightarrow> main_state \<Rightarrow> bool"
  for fl :: flags and wd :: world
where
  no_path:
    "mn_pc m = Begun \<Longrightarrow> wd_abs wd (fl_script fl) = None \<or> wd_abs wd (fl_config fl) = None \<Longrightarrow>
     main_step fl wd m Build (m\<lparr>mn_pc := Exit 1\<rparr>)"
| pool_panics:
    "mn_pc m = Begun \<Longrightarrow> wd_abs wd (fl_script fl) = Some sp \<Longrightarrow> wd_abs wd (fl_config fl) = Some cp \<Longrightarrow>
     start_service (fl\<lparr>fl_script := sp, fl_config := cp\<rparr>) (wd_disk wd) = None \<Longrightarrow>
     main_step fl wd m Build (m\<lparr>mn_pc := Exit 2\<rparr>)"
| build:
    "mn_pc m = Begun \<Longrightarrow> wd_abs wd (fl_script fl) = Some sp \<Longrightarrow> wd_abs wd (fl_config fl) = Some cp \<Longrightarrow>
     start_service (fl\<lparr>fl_script := sp, fl_config := cp\<rparr>) (wd_disk wd) = Some s \<Longrightarrow>
     main_step fl wd m Build (m\<lparr>mn_pc := Built, mn_service := Some s, mn_defers := [ShutdownPool]\<rparr>)"
| listen_fails:
    "mn_pc m = Built \<Longrightarrow>
     listen wd (fl_localAddr fl) (fl_addr fl) (fl_hostname fl) (fl_stateDir fl) = (es, Inl err) \<Longrightarrow>
     main_step fl wd m Bind (m\<lparr>mn_pc := Exit 1, mn_net := es\<rparr>)"
| listens:
    "mn_pc m = Built \<Longrightarrow>
     listen wd (fl_localAddr fl) (fl_addr fl) (fl_hostname fl) (fl_stateDir fl) = (es, Inr (lst, cl)) \<Longrightarrow>
     main_step fl wd m Bind
       (m\<lparr>mn_pc := Serving, mn_net := es, mn_listener := Some lst,
          mn_defers := Cleanup cl # mn_defers m, mn_accepting := True\<rparr>)"
| accept:
    "mn_pc m = Serving \<Longrightarrow> mn_accepting m \<Longrightarrow>
     main_step fl wd m Accept (m\<lparr>mn_accepted := mn_accepted m + 1\<rparr>)"
| serve_fails:
    "mn_pc m = Serving \<Longrightarrow> main_step fl wd m ServeFails (m\<lparr>mn_accepting := False\<rparr>)"
| work:
    "running_pc (mn_pc m) \<Longrightarrow> work_action a \<Longrightarrow> mn_service m = Some s \<Longrightarrow> service_act a s = Some s' \<Longrightarrow>
     main_step fl wd m (Work a) (m\<lparr>mn_service := Some s'\<rparr>)"
| request:
    "serving_pc (mn_pc m) \<Longrightarrow> request_action a \<Longrightarrow> mn_service m = Some s \<Longrightarrow> service_act a s = Some s' \<Longrightarrow>
     0 < mn_accepted m \<Longrightarrow>
     main_step fl wd m (Request a) (m\<lparr>mn_service := Some s', mn_accepted := mn_accepted m - 1\<rparr>)"
| scraped:
    "serving_pc (mn_pc m) \<Longrightarrow> 0 < mn_accepted m \<Longrightarrow>
     main_step fl wd m Scraped (m\<lparr>mn_accepted := mn_accepted m - 1\<rparr>)"
| early_signal:
    "mn_pc m = Begun \<or> mn_pc m = Built \<Longrightarrow> main_step fl wd m Signal (m\<lparr>mn_pc := Killed\<rparr>)"
| signal:
    "mn_pc m = Serving \<Longrightarrow> mn_listener m = Some lst \<Longrightarrow>
     main_step fl wd m Signal
       (m\<lparr>mn_pc := Draining, mn_accepting := False, mn_net := mn_net m @ [Closed lst],
          mn_defers := CancelTimer # mn_defers m\<rparr>)"
| late_signal:
    "mn_pc m \<in> set [Draining, Unwinding, PoolStopping] \<Longrightarrow> main_step fl wd m Signal m"
| drained:
    "mn_pc m = Draining \<Longrightarrow> mn_accepted m = 0 \<Longrightarrow> mn_service m = Some s \<Longrightarrow> sv_pending s = [] \<Longrightarrow>
     main_step fl wd m Drained (m\<lparr>mn_pc := Unwinding, mn_graceful := True\<rparr>)"
| drain_timeout:
    "mn_pc m = Draining \<Longrightarrow> main_step fl wd m DrainTimeout (m\<lparr>mn_pc := Unwinding\<rparr>)"
| cancel_timer:
    "mn_pc m = Unwinding \<Longrightarrow> mn_defers m = CancelTimer # ds \<Longrightarrow>
     main_step fl wd m RunDeferred (m\<lparr>mn_defers := ds\<rparr>)"
| cleanup:
    "mn_pc m = Unwinding \<Longrightarrow> mn_defers m = Cleanup cl # ds \<Longrightarrow>
     main_step fl wd m RunDeferred (m\<lparr>mn_net := mn_net m @ cl, mn_defers := ds\<rparr>)"
| shutdown_pool:
    "mn_pc m = Unwinding \<Longrightarrow> mn_defers m = ShutdownPool # ds \<Longrightarrow> mn_service m = Some s \<Longrightarrow>
     pool_act Cancel (sv_pool s) = Some p \<Longrightarrow>
     main_step fl wd m RunDeferred
       (m\<lparr>mn_pc := PoolStopping, mn_service := Some (s\<lparr>sv_pool := p\<rparr>), mn_defers := ds\<rparr>)"
| drain_buffer:
    "mn_pc m = PoolStopping \<Longrightarrow> mn_service m = Some s \<Longrightarrow> pool_act Drain (sv_pool s) = Some p \<Longrightarrow>
     main_step fl wd m DrainBuffer (m\<lparr>mn_service := Some (s\<lparr>sv_pool := p\<rparr>)\<rparr>)"
| leave:
    "mn_pc m = PoolStopping \<Longrightarrow> mn_service m = Some s \<Longrightarrow> pool_stopped (sv_pool s) \<Longrightarrow> mn_defers m = [] \<Longrightarrow>
     main_step fl wd m LeaveMain (m\<lparr>mn_pc := Exit 0\<rparr>)"

inductive_cases main_stepE: "main_step fl wd m e m'"

inductive_simps main_step_simps:
  "main_step fl wd m Build m'" "main_step fl wd m Bind m'" "main_step fl wd m Accept m'"
  "main_step fl wd m (Work a) m'" "main_step fl wd m (Request a) m'" "main_step fl wd m Signal m'"
  "main_step fl wd m Drained m'" "main_step fl wd m DrainTimeout m'" "main_step fl wd m RunDeferred m'"
  "main_step fl wd m DrainBuffer m'" "main_step fl wd m LeaveMain m'" "main_step fl wd m Scraped m'"
  "main_step fl wd m ServeFails m'"

inductive main_run :: "flags \<Rightarrow> world \<Rightarrow> main_state \<Rightarrow> main_event list \<Rightarrow> main_state \<Rightarrow> bool"
  for fl :: flags and wd :: world
where
  stop: "main_run fl wd m [] m"
| step: "main_run fl wd m es m' \<Longrightarrow> main_step fl wd m' e m'' \<Longrightarrow> main_run fl wd m (es @ [e]) m''"

section \<open>Before the shutdown nobody is told of it\<close>

definition call_quiet :: "call \<Rightarrow> bool" where
  "call_quiet c \<longleftrightarrow> ca_phase c \<noteq> Returned (Inl ShuttingDown) \<and> ca_resp c \<noteq> Some (Inl ShuttingDown)"

definition slot_quiet :: "slot \<Rightarrow> bool" where
  "slot_quiet s \<longleftrightarrow> (\<forall>j b ph. s \<noteq> Spawning (after_spawn.Reply j ShuttingDown) b ph)"

definition quiet :: "pool \<Rightarrow> bool" where
  "quiet p \<longleftrightarrow> list_all call_quiet (pl_calls p) \<and> list_all slot_quiet (pl_slots p)"

lemma list_all_update: "list_all P xs \<Longrightarrow> P y \<Longrightarrow> list_all P (xs[k := y])"
  by (auto simp: list_all_iff dest!: set_update_subset_insert [THEN subsetD])

lemma slot_quiet_simps [simp]:
  "slot_quiet Exited" "slot_quiet (Closing w)" "slot_quiet (Parked x)" "slot_quiet (Reading w j)"
  "slot_quiet (Writing w j)" "slot_quiet (Spawning FirstSpawn b ph)" "slot_quiet (Spawning (Retry j) b ph)"
  "slot_quiet (Spawning (after_spawn.Reply j e) b ph) \<longleftrightarrow> e \<noteq> ShuttingDown"
  by (auto simp: slot_quiet_def)

lemma quiet_set_slot: "quiet p \<Longrightarrow> slot_quiet s \<Longrightarrow> quiet (set_slot k s p)"
  by (simp add: quiet_def set_slot_def list_all_update)

lemma quiet_upd: "quiet p \<Longrightarrow> (call_quiet (pl_calls p ! j) \<Longrightarrow> call_quiet (f (pl_calls p ! j))) \<Longrightarrow> quiet (upd_call j f p)"
proof (cases "j < length (pl_calls p)")
  case True
  assume "quiet p" and f: "call_quiet (pl_calls p ! j) \<Longrightarrow> call_quiet (f (pl_calls p ! j))"
  moreover from this True have "call_quiet (f (pl_calls p ! j))" by (simp add: quiet_def list_all_length)
  ultimately show ?thesis by (simp add: quiet_def upd_call_def list_all_update)
qed (simp add: quiet_def upd_call_def list_update_beyond)

lemma quiet_calls:
  "quiet p \<Longrightarrow> ph \<noteq> Returned (Inl ShuttingDown) \<Longrightarrow> quiet (set_phase j ph p)"
  "quiet p \<Longrightarrow> r \<noteq> Inl ShuttingDown \<Longrightarrow> quiet (answer j r p)"
  "quiet p \<Longrightarrow> quiet (sent j rt af p)"
  "quiet p \<Longrightarrow> quiet (upd_call j (\<lambda>c. c\<lparr>ca_ctx := x\<rparr>) p)"
  by (auto simp: call_upd_defs call_quiet_def intro!: quiet_upd)

lemma quiet_frame [simp]:
  "quiet (p\<lparr>pl_busy := n\<rparr>) = quiet p" "quiet (p\<lparr>pl_affinityHits := n\<rparr>) = quiet p"
  "quiet (p\<lparr>pl_affinitySpills := n\<rparr>) = quiet p" "quiet (p\<lparr>pl_started := x\<rparr>) = quiet p"
  "quiet (p\<lparr>pl_reaped := x\<rparr>) = quiet p" "quiet (recordHeadroomVersion v p) = quiet p"
  "quiet (set_buffer k b p) = quiet p"
  by (simp_all add: quiet_def recordHeadroomVersion_def set_buffer_def)

lemma quiet_composite:
  "quiet p \<Longrightarrow> quiet (receive k j p)"
  "quiet p \<Longrightarrow> quiet (recycle k j e p)"
  by (auto simp: receive_def recycle_def intro!: quiet_set_slot split: slot.split option.split)

lemma quiet_spawned:
  assumes "quiet p" and "pl_slots p ! k = Spawning af b ph" and "k < length (pl_slots p)"
    and "quiet q" and "pl_slots q = pl_slots p"
  shows "quiet (spawned k af w q)"
proof -
  have "slot_quiet (Spawning af b ph)" using assms(1-3) by (auto simp: quiet_def list_all_length)
  with assms(4) show ?thesis
    by (cases af) (auto simp: spawned_def intro!: quiet_set_slot quiet_calls)
qed

lemma quiet_respawn:
  assumes "quiet p" and "pl_slots p ! k = Spawning af b ph" and "k < length (pl_slots p)"
  shows "quiet (set_slot k (Spawning af b' ph') p)"
proof -
  have "slot_quiet (Spawning af b ph)" using assms by (auto simp: quiet_def list_all_length)
  with assms(1) show ?thesis by (cases af) (auto intro!: quiet_set_slot)
qed

lemma quiet_slot_start:
  assumes "quiet p" and "slot_start k so p = Some p'"
  shows "quiet p'"
proof -
  from assms(2) obtain af b where k: "k < length (pl_slots p)" "pl_slots p ! k = Spawning af b Starting"
    by (auto simp: slot_start_def split: if_splits slot.splits spawn_phase.splits)
  have "quiet (spawned k af w (recordHeadroomVersion v (p\<lparr>pl_started := n\<rparr>)))" for w v n
    by (rule quiet_spawned [OF assms(1) k(2,1)]) (simp_all add: assms(1))
  moreover have "quiet (set_slot k (Spawning af b Sleeping) (p\<lparr>pl_started := x, pl_reaped := y\<rparr>))" for x y
    by (rule quiet_respawn [of _ k af b Starting]) (use assms(1) k in simp_all)
  ultimately show ?thesis using assms(2) k by (auto simp: slot_start_def split: sum.splits prod.splits)
qed

lemma quiet_act:
  assumes "quiet p" and "\<not> pl_done p" and "a \<noteq> Cancel" and "pool_act a p = Some p'"
  shows "quiet p' \<and> \<not> pl_done p'"
proof
  show "\<not> pl_done p'"
    using assms(2-4)
    by (cases a) (auto simp: pool_step_defs call_enter_def receive_frame Let_def split: pool_splits)
  show "quiet p'"
  proof (cases a)
    case (Enter req)
    with assms show ?thesis by (auto simp: quiet_def call_enter_def call_quiet_def)
  next
    case (SpawnStart k so)
    with assms quiet_slot_start show ?thesis by simp
  next
    case (SpawnCheck k)
    with assms quiet_respawn show ?thesis
      by (auto simp: slot_check_def split: if_splits slot.splits spawn_phase.splits)
  next
    case (SpawnWake k)
    with assms quiet_respawn show ?thesis
      by (auto simp: slot_wake_def split: if_splits slot.splits spawn_phase.splits)
  next
    case (Return j)
    with assms show ?thesis
      by (auto simp: call_return_def call_upd_defs call_quiet_def intro!: quiet_upd split: if_splits)
  next
    case (Count j)
    with assms show ?thesis
      by (auto simp: call_count_def intro!: quiet_calls split: if_splits call_phase.splits)
  next
    case (Read k got)
    with assms show ?thesis
      by (auto simp: slot_read_def intro!: quiet_calls quiet_composite quiet_set_slot split: pool_splits)
  next
    case (Write k h wrote)
    with assms show ?thesis
      by (auto simp: slot_write_def intro!: quiet_composite quiet_set_slot split: pool_splits)
  next
    case (Closed k g)
    with assms show ?thesis
      by (auto simp: slot_closed_def intro!: quiet_set_slot split: pool_splits)
  qed (use assms in \<open>auto simp: pool_step_defs Let_def intro!: quiet_calls quiet_composite split: pool_splits\<close>)
qed

text \<open>A call that has returned keeps its result.\<close>

lemma answer_all_phase: "ca_phase (pl_calls (answer_all js p) ! j) = ca_phase (pl_calls p ! j)"
proof (induction js p rule: answer_all.induct)
  case (2 i js p)
  have "ca_phase (pl_calls (answer i r p) ! j) = ca_phase (pl_calls p ! j)" for r
    by (cases "i < length (pl_calls p)"; cases "i = j")
      (simp_all add: answer_def upd_call_def list_update_beyond)
  with 2 show ?case by simp
qed simp

lemma returned_stays:
  assumes "pool_act a p = Some p'" and "j < length (pl_calls p)" and "ca_phase (pl_calls p ! j) = Returned r"
  shows "ca_phase (pl_calls p' ! j) = Returned r"
proof (cases a)
  case (Enter req)
  with assms show ?thesis by (auto simp: call_enter_def nth_append)
qed (use assms in \<open>auto simp: pool_step_defs Let_def receive_frame call_upd_defs nth_upd
       spawned_def spawn_nil_def answer_all_phase split: pool_splits\<close>)

section \<open>The invariant of the process\<close>

definition calls_owned :: "service \<Rightarrow> bool" where
  "calls_owned s \<longleftrightarrow>
     (\<forall>j < length (pl_calls (sv_pool s)).
        (\<exists>r. ca_phase (pl_calls (sv_pool s) ! j) = Returned r) \<or> j \<in> pn_call ` set (sv_pending s))"

definition all_served :: "service \<Rightarrow> bool" where
  "all_served s \<longleftrightarrow>
     sv_pending s = [] \<and>
     (\<forall>j < length (pl_calls (sv_pool s)).
        \<exists>r. ca_phase (pl_calls (sv_pool s) ! j) = Returned r \<and> r \<noteq> Inl ShuttingDown)"

lemma pool_act_length:
  "pool_act a p = Some p' \<Longrightarrow> (\<forall>req. a \<noteq> Enter req) \<Longrightarrow> length (pl_calls p') = length (pl_calls p)"
  by (cases a) (auto simp: pool_step_defs Let_def receive_frame spawned_def spawn_nil_def split: pool_splits)

lemma owned_pool:
  assumes "calls_owned s" and "pool_act a (sv_pool s) = Some p" and "\<forall>req. a \<noteq> Enter req"
  shows "calls_owned (s\<lparr>sv_pool := p\<rparr>)"
  using assms(1) pool_act_length [OF assms(2,3)] returned_stays [OF assms(2)]
  unfolding calls_owned_def by fastforce

lemma served_pool:
  assumes "all_served s" and "pool_act a (sv_pool s) = Some p" and "\<forall>req. a \<noteq> Enter req"
  shows "all_served (s\<lparr>sv_pool := p\<rparr>)"
  using assms(1) pool_act_length [OF assms(2,3)] returned_stays [OF assms(2)]
  unfolding all_served_def by fastforce

lemma owned_hook_start:
  assumes "calls_owned s"
  shows "calls_owned (hook_start cd r us s)"
proof (cases "hook_begin (sv_handler s) cd (store_get (sv_settings s)) (length (pl_calls (sv_pool s))) r")
  case (Inl x)
  with assms show ?thesis by (simp add: hook_start_def Let_def calls_owned_def)
next
  case (Inr pn)
  with assms hook_begin_call [OF Inr] show ?thesis
    by (auto simp: hook_start_def Let_def calls_owned_def call_enter_def nth_append less_Suc_eq)
qed

lemma owned_hook_finish:
  assumes "calls_owned s" and "hook_finish i us s = Some s'"
  shows "calls_owned s' \<and> sv_pool s' = sv_pool s"
proof -
  let ?ps = "sv_pending s"
  from assms(2) obtain r where i: "i < length ?ps" and r: "ca_phase (pl_calls (sv_pool s) ! pn_call (?ps ! i)) = Returned r"
    and pool: "sv_pool s' = sv_pool s" and rest: "sv_pending s' = take i ?ps @ drop (Suc i) ?ps"
    by (auto simp: hook_finish_def Let_def split: if_splits call_phase.splits)
  have "set ?ps = set (take i ?ps @ ?ps ! i # drop (Suc i) ?ps)" using i by (simp flip: id_take_nth_drop)
  then have "set ?ps = insert (?ps ! i) (set (sv_pending s'))" unfolding rest by auto
  with assms(1) r have "calls_owned s'" unfolding calls_owned_def pool by fastforce
  with pool show ?thesis by simp
qed

definition listened :: "flags \<Rightarrow> world \<Rightarrow> net_event list \<Rightarrow> resource \<Rightarrow> net_event list \<Rightarrow> bool" where
  "listened fl wd es lst cl \<longleftrightarrow>
     listen wd (fl_localAddr fl) (fl_addr fl) (fl_hostname fl) (fl_stateDir fl) = (es, Inr (lst, cl))"

text \<open>What is open and what is still deferred, by where \<open>main\<close> stands.\<close>

fun unwinds :: "flags \<Rightarrow> world \<Rightarrow> main_pc \<Rightarrow> main_state \<Rightarrow> bool" where
  "unwinds fl wd Begun m \<longleftrightarrow> mn_net m = [] \<and> mn_defers m = []"
| "unwinds fl wd Built m \<longleftrightarrow> mn_net m = [] \<and> mn_defers m = [ShutdownPool]"
| "unwinds fl wd Serving m \<longleftrightarrow>
     (\<exists>lst cl. listened fl wd (mn_net m) lst cl \<and> mn_listener m = Some lst \<and>
        mn_defers m = [Cleanup cl, ShutdownPool])"
| "unwinds fl wd Draining m \<longleftrightarrow>
     (\<exists>es lst cl. listened fl wd es lst cl \<and> mn_net m = es @ [Closed lst] \<and>
        mn_defers m = [CancelTimer, Cleanup cl, ShutdownPool])"
| "unwinds fl wd Unwinding m \<longleftrightarrow>
     (\<exists>es lst cl. listened fl wd es lst cl \<and> mn_net m = es @ [Closed lst] \<and>
        (mn_defers m = [CancelTimer, Cleanup cl, ShutdownPool] \<or> mn_defers m = [Cleanup cl, ShutdownPool])) \<or>
     (open_after (mn_net m) {} = {} \<and> mn_defers m = [ShutdownPool])"
| "unwinds fl wd PoolStopping m \<longleftrightarrow> open_after (mn_net m) {} = {} \<and> mn_defers m = []"
| "unwinds fl wd (Exit n) m \<longleftrightarrow> open_after (mn_net m) {} = {}"
| "unwinds fl wd Killed m \<longleftrightarrow> True"

fun service_good :: "main_pc \<Rightarrow> service \<Rightarrow> bool" where
  "service_good PoolStopping s \<longleftrightarrow> service_inv s \<and> calls_owned s \<and> pl_done (sv_pool s)"
| "service_good (Exit n) s \<longleftrightarrow> service_inv s \<and> calls_owned s \<and> (n = 0 \<longrightarrow> pool_stopped (sv_pool s))"
| "service_good Killed s \<longleftrightarrow> service_inv s \<and> calls_owned s"
| "service_good pc s \<longleftrightarrow> service_inv s \<and> calls_owned s \<and> quiet (sv_pool s) \<and> \<not> pl_done (sv_pool s)"

definition main_inv :: "flags \<Rightarrow> world \<Rightarrow> main_state \<Rightarrow> bool" where
  "main_inv fl wd m \<longleftrightarrow>
     unwinds fl wd (mn_pc m) m \<and>
     (running_pc (mn_pc m) \<or> mn_pc m = Exit 0 \<longrightarrow> mn_service m \<noteq> None) \<and>
     (\<forall>s. mn_service m = Some s \<longrightarrow> service_good (mn_pc m) s) \<and>
     (mn_graceful m \<longrightarrow>
        mn_pc m \<in> set [Unwinding, PoolStopping, Exit 0] \<and> mn_accepted m = 0 \<and>
        (\<forall>s. mn_service m = Some s \<longrightarrow> all_served s))"

lemma service_good_basic: "service_good pc s \<Longrightarrow> service_inv s \<and> calls_owned s"
  by (cases pc) auto

lemma start_good: "start_service fl d = Some s \<Longrightarrow> service_good Built s"
proof -
  assume s: "start_service fl d = Some s"
  have "service_inv s" using s svc.inv_init unfolding service_init_def by blast
  with s show ?thesis
    by (auto simp: start_service_def newPool_def calls_owned_def quiet_def list_all_length split: if_splits)
qed

text \<open>A step of the running service keeps its part of the invariant.\<close>

lemma good_step:
  assumes "service_good pc s" and "running_pc pc" and "service_act a s = Some s'"
    and "work_action a \<or> request_action a"
  shows "service_good pc s'"
proof -
  note basic = service_good_basic [OF assms(1)]
  have inv: "service_inv s'" using svc.inv_act basic assms(3) by blast
  have pool: "calls_owned s' \<and> (pl_done (sv_pool s) \<longrightarrow> pl_done (sv_pool s')) \<and>
      (quiet (sv_pool s) \<and> \<not> pl_done (sv_pool s) \<longrightarrow> quiet (sv_pool s') \<and> \<not> pl_done (sv_pool s'))"
    if "pool_act b (sv_pool s) = Some p" "s' = s\<lparr>sv_pool := p\<rparr>" "\<forall>req. b \<noteq> Enter req" "b \<noteq> Cancel" for b p
    using owned_pool [of s b p] done_stays [of b] quiet_act [of "sv_pool s" b p] basic that by auto
  have "calls_owned s' \<and> (pl_done (sv_pool s) \<longrightarrow> pl_done (sv_pool s')) \<and>
      (quiet (sv_pool s) \<and> \<not> pl_done (sv_pool s) \<longrightarrow> quiet (sv_pool s') \<and> \<not> pl_done (sv_pool s'))"
  proof (cases a)
    case (Configure je r)
    with assms(3) basic show ?thesis by (auto simp: calls_owned_def)
  next
    case (HookBegin cd r us)
    with assms(3) have s': "s' = hook_start cd r us s" by (auto split: if_splits)
    have "quiet (call_enter req p) = quiet p" "pl_done (call_enter req p) = pl_done p" for req p
      by (simp_all add: quiet_def call_enter_def call_quiet_def)
    then have "quiet (sv_pool s') = quiet (sv_pool s)" "pl_done (sv_pool s') = pl_done (sv_pool s)"
      by (auto simp: s' hook_start_def Let_def split: sum.split)
    with owned_hook_start basic s' show ?thesis by simp
  next
    case (HookEnd i us)
    with owned_hook_finish [of s i us s'] assms(3) basic show ?thesis by auto
  next
    case (PoolStep b)
    with assms(3,4) obtain p where "pool_act b (sv_pool s) = Some p" "s' = s\<lparr>sv_pool := p\<rparr>" "internal_step b" "b \<noteq> Cancel"
      by (auto split: if_splits)
    moreover from \<open>internal_step b\<close> have "\<forall>req. b \<noteq> Enter req" by auto
    ultimately show ?thesis using pool by blast
  next
    case (PoolWrite k wrote)
    from assms(3) PoolWrite obtain p where
      "pool_act (Write k (st_heap (sv_settings s)) wrote) (sv_pool s) = Some p" "s' = s\<lparr>sv_pool := p\<rparr>"
      by (auto simp del: pool_act.simps)
    with pool show ?thesis by blast
  qed
  with inv assms(1,2) show ?thesis by (cases pc) (auto simp: running_pc_def)
qed

lemma served_step:
  assumes "all_served s" and "work_action a" and "service_act a s = Some s'"
  shows "all_served s'"
proof (cases a)
  case (HookEnd i us)
  with assms show ?thesis by (auto simp: hook_finish_def all_served_def split: if_splits)
next
  case (PoolStep b)
  with assms obtain p where "pool_act b (sv_pool s) = Some p" "s' = s\<lparr>sv_pool := p\<rparr>" "internal_step b"
    by (auto split: if_splits)
  moreover from \<open>internal_step b\<close> have "\<forall>req. b \<noteq> Enter req" by auto
  ultimately show ?thesis using served_pool [OF assms(1)] by blast
next
  case (PoolWrite k wrote)
  with assms(3) obtain p where
    "pool_act (Write k (st_heap (sv_settings s)) wrote) (sv_pool s) = Some p" "s' = s\<lparr>sv_pool := p\<rparr>"
    by (auto simp del: pool_act.simps)
  with served_pool [OF assms(1)] show ?thesis by blast
qed (use assms in auto)

lemma drained_served:
  assumes "service_good Draining s" and "sv_pending s = []"
  shows "all_served s"
proof -
  have "ca_phase (pl_calls (sv_pool s) ! j) \<noteq> Returned (Inl ShuttingDown)" if "j < length (pl_calls (sv_pool s))" for j
    using assms(1) that by (auto simp: quiet_def list_all_length call_quiet_def)
  with assms show ?thesis by (fastforce simp: all_served_def calls_owned_def)
qed

lemma main_inv_start: "main_inv fl wd main_start"
  by (simp add: main_inv_def main_start_def running_pc_def)

lemma serving_running: "serving_pc pc \<Longrightarrow> running_pc pc"
  by (auto simp: serving_pc_def running_pc_def)

lemma unwinds_cong:
  "unwinds fl wd pc m \<Longrightarrow> mn_net m' = mn_net m \<Longrightarrow> mn_defers m' = mn_defers m \<Longrightarrow>
   mn_listener m' = mn_listener m \<Longrightarrow> unwinds fl wd pc m'"
  by (cases pc) auto

text \<open>A step that only changes the running service.\<close>

lemma main_inv_service:
  assumes "main_inv fl wd m" and "running_pc (mn_pc m)" and "mn_service m = Some s"
    and "service_good (mn_pc m) s'" and "mn_graceful m \<Longrightarrow> all_served s \<Longrightarrow> all_served s' \<and> n = 0"
    and "m' = m\<lparr>mn_service := Some s', mn_accepted := n\<rparr>"
  shows "main_inv fl wd m'"
proof -
  have "unwinds fl wd (mn_pc m) m'" by (rule unwinds_cong [of fl wd _ m]) (use assms(1,6) in \<open>auto simp: main_inv_def\<close>)
  with assms show ?thesis by (auto simp: main_inv_def)
qed

lemma main_inv_step:
  assumes inv: "main_inv fl wd m" and step: "main_step fl wd m e m'"
  shows "main_inv fl wd m'"
  using step
proof cases
  case (build sp cp s)
  with inv start_good show ?thesis by (auto simp: main_inv_def running_pc_def)
next
  case (listen_fails es err)
  with inv listen_error_releases service_good_basic show ?thesis by (auto simp: main_inv_def running_pc_def)
next
  case (work a s s')
  from inv work have "service_good (mn_pc m) s" by (simp add: main_inv_def)
  with good_step work have "service_good (mn_pc m) s'" by blast
  with work inv served_step show ?thesis
    by (intro main_inv_service [OF inv, of s s' "mn_accepted m"]) (auto simp: main_inv_def)
next
  case (request a s s')
  from inv request have "service_good (mn_pc m) s" by (simp add: main_inv_def)
  with good_step request serving_running have "service_good (mn_pc m) s'" by blast
  with request inv serving_running show ?thesis
    by (intro main_inv_service [OF inv, of s s' "mn_accepted m - 1"]) (auto simp: main_inv_def)
next
  case scraped
  with inv serving_running have "mn_service m \<noteq> None" by (simp add: main_inv_def)
  then obtain s where "mn_service m = Some s" by blast
  with scraped inv serving_running show ?thesis
    by (intro main_inv_service [OF inv, of s s "mn_accepted m - 1"]) (auto simp: main_inv_def)
next
  case early_signal
  with inv service_good_basic show ?thesis by (auto simp: main_inv_def running_pc_def)
next
  case (drained s)
  with inv drained_served show ?thesis by (auto simp: main_inv_def running_pc_def)
next
  case (cleanup cl ds)
  with inv listen_cleanup_releases show ?thesis
    by (auto simp: main_inv_def running_pc_def listened_def)
next
  case (shutdown_pool ds s p)
  then have p: "p = (sv_pool s)\<lparr>pl_done := True\<rparr>" by (simp add: shutdown_cancel_def)
  have "service_inv (s\<lparr>sv_pool := p\<rparr>)"
    using service_pool_step [of s Cancel p] shutdown_pool inv service_good_basic by (auto simp: main_inv_def)
  moreover have "calls_owned (s\<lparr>sv_pool := p\<rparr>)"
    using owned_pool [of s Cancel p] shutdown_pool inv service_good_basic by (auto simp: main_inv_def)
  moreover have "all_served s \<longrightarrow> all_served (s\<lparr>sv_pool := p\<rparr>)"
    using served_pool [of s Cancel p] shutdown_pool by auto
  ultimately show ?thesis using shutdown_pool inv p by (auto simp: main_inv_def running_pc_def)
next
  case (drain_buffer s p)
  from inv drain_buffer have s: "service_inv s" "calls_owned s" "pl_done (sv_pool s)" by (auto simp: main_inv_def)
  have act: "pool_act Drain (sv_pool s) = Some p" using drain_buffer by simp
  have good: "service_good PoolStopping (s\<lparr>sv_pool := p\<rparr>)"
    using service_pool_step [OF s(1) act] owned_pool [OF s(2) act] done_stays [OF act s(3)] by simp
  have "all_served s \<longrightarrow> all_served (s\<lparr>sv_pool := p\<rparr>)" using served_pool [OF _ act] by simp
  with good drain_buffer inv show ?thesis
    by (intro main_inv_service [OF inv, of s "s\<lparr>sv_pool := p\<rparr>" "mn_accepted m"])
       (auto simp: main_inv_def running_pc_def)
qed (use inv in \<open>auto simp: main_inv_def running_pc_def listened_def\<close>)

lemma main_inv_run: "main_run fl wd m es m' \<Longrightarrow> main_inv fl wd m \<Longrightarrow> main_inv fl wd m'"
  by (induction rule: main_run.induct) (blast intro: main_inv_step)+

lemma main_reachable: "main_run fl wd main_start es m \<Longrightarrow> main_inv fl wd m"
  using main_inv_run main_inv_start by blast

section \<open>The command of a worker\<close>

text \<open>\<open>startWorker\<close> builds the command anew for each process and sets the attributes of the build's platform.\<close>

definition start_command :: "bool \<Rightarrow> flags \<Rightarrow> string list \<Rightarrow> service \<Rightarrow> command" where
  "start_command linux fl environ s =
     (if linux then setProcAttr_linux else setProcAttr_other) (spawn_command fl environ s)"

lemma start_command_attrs:
  "\<exists>a. cm_SysProcAttr (start_command linux fl environ s) = Some a \<and> pa_Setpgid a \<and> (pa_Pdeathsig a = SIGKILL \<longleftrightarrow> linux)"
  by (simp add: start_command_def setProcAttr_linux_def setProcAttr_other_def SIGKILL_def)

section \<open>Leaving\<close>

text \<open>
  C21. A drained shutdown is invisible to callers: when the server drains in time, no hook call is waiting
  from then on and every call that the pool was ever given has returned, none with the shutdown error.
\<close>

theorem graceful_stop:
  assumes "main_run fl wd main_start es m" and "mn_graceful m" and "mn_service m = Some s"
  shows "sv_pending s = [] \<and> mn_accepted m = 0 \<and>
    (\<forall>c \<in> set (pl_calls (sv_pool s)). \<exists>r. ca_phase c = Returned r \<and> r \<noteq> Inl ShuttingDown)"
proof -
  from main_reachable [OF assms(1)] assms(2,3) have "all_served s" "mn_accepted m = 0"
    by (auto simp: main_inv_def)
  then show ?thesis by (auto simp: all_served_def in_set_conv_nth)
qed


lemma main_run_Cons: "main_run fl wd m' es m'' \<Longrightarrow> main_step fl wd m e m' \<Longrightarrow> main_run fl wd m (e # es) m''"
proof (induction rule: main_run.induct)
  case (stop m')
  have "main_run fl wd m ([] @ [e]) m'" by (rule main_run.step [OF main_run.stop stop])
  then show ?case by simp
next
  case (step m' es n e' n')
  from main_run.step [OF step.IH [OF step.prems] step.hyps(2)] show ?case by simp
qed

text \<open>The steps that need neither a client nor a signal.\<close>

fun own_event :: "main_event \<Rightarrow> bool" where
  "own_event Accept = False"
| "own_event (Request a) = False"
| "own_event Signal = False"
| "own_event _ = True"

definition can_leave :: "flags \<Rightarrow> world \<Rightarrow> main_state \<Rightarrow> bool" where
  "can_leave fl wd m \<longleftrightarrow> (\<exists>es m'. main_run fl wd m es m' \<and> list_all own_event es \<and> mn_pc m' = Exit 0)"

lemma can_leave_step:
  "main_step fl wd m e m' \<Longrightarrow> own_event e \<Longrightarrow> can_leave fl wd m' \<Longrightarrow> can_leave fl wd m"
  unfolding can_leave_def using main_run_Cons by fastforce

text \<open>In the pool's \<open>Shutdown\<close>: the load of the pool decreases until it has stopped.\<close>

lemma stopping_step:
  assumes "main_inv fl wd m" and "mn_pc m = PoolStopping" and "mn_service m = Some s"
    and "\<not> pool_stopped (sv_pool s)"
  shows "\<exists>e p. main_step fl wd m e (m\<lparr>mn_service := Some (s\<lparr>sv_pool := p\<rparr>)\<rparr>) \<and> own_event e \<and> load p < load (sv_pool s)"
proof -
  from assms(1-3) have inv: "pool_inv (sv_pool s)" and d: "pl_done (sv_pool s)"
    by (auto simp: main_inv_def service_inv_def)
  then have sh: "shape (sv_pool s)" by (simp add: pool_inv_def)
  show ?thesis
  proof (cases "list_all (\<lambda>s. s = Exited) (pl_slots (sv_pool s))")
    case True
    then have "pl_drained (sv_pool s) < length (pl_affinity (sv_pool s))"
      using assms(4) inv by (auto simp: pool_stopped_def pool_inv_def drain_ok_def)
    with True d obtain p where p: "pool_act Drain (sv_pool s) = Some p" by (auto simp: shutdown_drain_def)
    have "load p < load (sv_pool s)" by (rule load_act [OF sh d _ p]) simp
    with drain_buffer [OF assms(2,3) p] show ?thesis by (meson own_event.simps)
  next
    case False
    then obtain k where "k < length (pl_slots (sv_pool s))" "pl_slots (sv_pool s) ! k \<noteq> Exited"
      by (auto simp: list_all_length)
    from slot_can_step [OF d this, of "st_heap (sv_settings s)"] obtain a p where
      a: "pool_act a (sv_pool s) = Some p" "own_step a" "a \<noteq> Drain"
        "\<forall>k h w. a = Write k h w \<longrightarrow> h = st_heap (sv_settings s)" by blast
    have less: "load p < load (sv_pool s)" by (rule load_act [OF sh d a(2,1)])
    have "\<exists>b. work_action b \<and> service_act b s = Some (s\<lparr>sv_pool := p\<rparr>)"
    proof (cases "internal_step a")
      case True
      with a show ?thesis by (intro exI [of _ "PoolStep a"]) auto
    next
      case False
      with a obtain k w where "a = Write k (st_heap (sv_settings s)) w" by (cases a) auto
      with a(1) show ?thesis by (intro exI [of _ "PoolWrite k w"]) auto
    qed
    then obtain b where b: "work_action b" "service_act b s = Some (s\<lparr>sv_pool := p\<rparr>)" by blast
    have "running_pc (mn_pc m)" using assms(2) by (simp add: running_pc_def)
    from work [OF this b(1) assms(3) b(2)] less show ?thesis by (meson own_event.simps)
  qed
qed

lemma stopping_leaves:
  "main_inv fl wd m \<Longrightarrow> mn_pc m = PoolStopping \<Longrightarrow> mn_service m = Some s \<Longrightarrow> can_leave fl wd m"
proof (induction "load (sv_pool s)" arbitrary: m s rule: less_induct)
  case less
  show ?case
  proof (cases "pool_stopped (sv_pool s)")
    case True
    have "mn_defers m = []" using less.prems by (simp add: main_inv_def)
    from leave [OF less.prems(2,3) True this, where fl = fl and wd = wd]
    have "main_step fl wd m LeaveMain (m\<lparr>mn_pc := Exit 0\<rparr>)" .
    then show ?thesis
      by (rule can_leave_step) (auto simp: can_leave_def intro!: exI [of _ "[]"] main_run.stop)
  next
    case False
    from stopping_step [OF less.prems False] obtain e p where
      e: "main_step fl wd m e (m\<lparr>mn_service := Some (s\<lparr>sv_pool := p\<rparr>)\<rparr>)" "own_event e"
      and l: "load p < load (sv_pool s)" by blast
    have "can_leave fl wd (m\<lparr>mn_service := Some (s\<lparr>sv_pool := p\<rparr>)\<rparr>)"
      by (rule less.hyps [of "s\<lparr>sv_pool := p\<rparr>"])
        (use l less.prems main_inv_step [OF less.prems(1) e(1)] in auto)
    with can_leave_step [OF e] show ?thesis .
  qed
qed

lemma unwinding_leaves:
  assumes "main_inv fl wd m" and "mn_pc m = Unwinding"
  shows "can_leave fl wd m"
proof -
  have pool: "can_leave fl wd m" if m: "main_inv fl wd m" "mn_pc m = Unwinding" "mn_defers m = [ShutdownPool]" for m
  proof -
    from m have "mn_service m \<noteq> None" by (simp add: main_inv_def running_pc_def)
    then obtain s where s: "mn_service m = Some s" by blast
    have "pool_act Cancel (sv_pool s) = Some ((sv_pool s)\<lparr>pl_done := True\<rparr>)" by (simp add: shutdown_cancel_def)
    from shutdown_pool [OF m(2,3) s this, where fl = fl and wd = wd] show ?thesis
      by (rule can_leave_step) (auto intro!: stopping_leaves main_inv_step [OF m(1) shutdown_pool [OF m(2,3) s]] simp: shutdown_cancel_def)
  qed
  have clean: "can_leave fl wd m" if m: "main_inv fl wd m" "mn_pc m = Unwinding" "mn_defers m = [Cleanup cl, ShutdownPool]" for m cl
    by (rule can_leave_step [OF cleanup [OF m(2,3)]])
      (auto intro!: pool main_inv_step [OF m(1) cleanup [OF m(2,3)]] simp: m)
  from assms consider "mn_defers m = [ShutdownPool]" | cl where "mn_defers m = [Cleanup cl, ShutdownPool]"
    | cl where "mn_defers m = [CancelTimer, Cleanup cl, ShutdownPool]"
    by (auto simp: main_inv_def)
  then show ?thesis
  proof cases
    case 1
    with pool assms show ?thesis by blast
  next
    case 2
    with clean assms show ?thesis by blast
  next
    case 3
    show ?thesis
      by (rule can_leave_step [OF cancel_timer [OF assms(2) 3]])
        (auto intro!: clean main_inv_step [OF assms(1) cancel_timer [OF assms(2) 3]] simp: assms)
  qed
qed


section \<open>Concrete runs\<close>

lemma main_run_work:
  "running_pc (mn_pc m) \<Longrightarrow> mn_service m = Some s \<Longrightarrow> list_all work_action as \<Longrightarrow>
   run_actions service_act as s = Some s' \<Longrightarrow>
   main_run fl wd m (map Work as) (m\<lparr>mn_service := Some s'\<rparr>)"
proof (induction as arbitrary: m s)
  case Nil
  then have "m\<lparr>mn_service := Some s'\<rparr> = m" by (cases m) simp
  then show ?case by (simp add: main_run.stop)
next
  case (Cons a as)
  from Cons.prems(4) obtain t where t: "service_act a s = Some t" "run_actions service_act as t = Some s'"
    by (auto split: option.splits)
  have "main_run fl wd (m\<lparr>mn_service := Some t\<rparr>) (map Work as) (m\<lparr>mn_service := Some t, mn_service := Some s'\<rparr>)"
    by (rule Cons.IH) (use Cons.prems t in simp_all)
  from main_run_Cons [OF this work [OF Cons.prems(1) _ Cons.prems(2) t(1)]] Cons.prems(3)
  show ?case by simp
qed

lemma main_run_append: "main_run fl wd m' fs m'' \<Longrightarrow> main_run fl wd m es m' \<Longrightarrow> main_run fl wd m (es @ fs) m''"
proof (induction rule: main_run.induct)
  case (step m' es' n e' n')
  from main_run.step [OF step.IH [OF step.prems] step.hyps(2)] show ?case by simp
qed simp

text \<open>A machine where everything succeeds, and one where the local address is taken.\<close>

definition local_flags :: flags where
  "local_flags = one_slot\<lparr>fl_localAddr := '':8080''\<rparr>"

definition good_world :: world where
  "good_world =
     \<lparr>wd_abs = Some, wd_disk = blank_disk, wd_authkey = [], wd_net_listen = (\<lambda>a. None), wd_ts_listen = (\<lambda>v a. None)\<rparr>"

definition taken_world :: world where
  "taken_world = good_world\<lparr>wd_net_listen := (\<lambda>a. Some ''address already in use'')\<rparr>"

definition spawn_work :: "service_action list" where
  "spawn_work = [PoolStep (SpawnCheck 0), PoolStep (SpawnStart 0 ready_start)]"

definition answer_work :: "service_action list" where
  "answer_work =
     [PoolStep (Check 0), PoolStep (Affinity 0), PoolStep (Count 0), PoolWrite 0 None,
      PoolStep (Read 0 (Line (answer_line 1))), PoolStep (Return 0), HookEnd 0 0]"

definition spawned_service :: service where
  "spawned_service = the (run_actions service_act spawn_work service0)"

definition asked_service :: service where
  "asked_service = the (service_act (HookBegin copying_coders (post session_body) 0) spawned_service)"

definition answered_service :: service where
  "answered_service = the (run_actions service_act answer_work asked_service)"

lemma concrete_services:
  "run_actions service_act spawn_work service0 = Some spawned_service"
  "service_act (HookBegin copying_coders (post session_body) 0) spawned_service = Some asked_service"
  "run_actions service_act answer_work asked_service = Some answered_service"
proof -
  have "run_actions service_act spawn_work service0 \<noteq> None" by code_simp
  then show "run_actions service_act spawn_work service0 = Some spawned_service"
    by (simp add: spawned_service_def)
  have "service_act (HookBegin copying_coders (post session_body) 0) spawned_service \<noteq> None" by code_simp
  then show "service_act (HookBegin copying_coders (post session_body) 0) spawned_service = Some asked_service"
    by (simp add: asked_service_def)
  have "run_actions service_act answer_work asked_service \<noteq> None" by code_simp
  then show "run_actions service_act answer_work asked_service = Some answered_service"
    by (simp add: answered_service_def)
qed

definition built :: main_state where
  "built = main_start\<lparr>mn_pc := Built, mn_service := Some spawned_service, mn_defers := [ShutdownPool]\<rparr>"

lemma built_run:
  assumes "wd_abs wd = Some" and "wd_disk wd = blank_disk"
  shows "main_run local_flags wd main_start (Build # map Work spawn_work) built"
proof -
  let ?m = "main_start\<lparr>mn_pc := Built, mn_service := Some service0, mn_defers := [ShutdownPool]\<rparr>"
  have same: "fl\<lparr>fl_script := fl_script fl, fl_config := fl_config fl\<rparr> = fl" for fl :: flags by (cases fl) simp
  have "start_service (local_flags\<lparr>fl_script := fl_script local_flags, fl_config := fl_config local_flags\<rparr>) (wd_disk wd) = Some service0"
    unfolding same using service0_start assms(2) by (simp add: start_service_def local_flags_def)
  from build [OF _ _ _ this, of main_start] have "main_step local_flags wd main_start Build ?m"
    by (simp add: main_start_def assms(1))
  moreover have "main_run local_flags wd ?m (map Work spawn_work) (?m\<lparr>mn_service := Some spawned_service\<rparr>)"
    by (rule main_run_work [OF _ _ _ concrete_services(1)]) (simp_all add: running_pc_def spawn_work_def)
  moreover have "?m\<lparr>mn_service := Some spawned_service\<rparr> = built" by (simp add: built_def main_start_def)
  ultimately show ?thesis using main_run_Cons by metis
qed


text \<open>A whole life: one request served, then a signal, the drain, and the deferred calls.\<close>

definition serving :: main_state where
  "serving = built\<lparr>mn_pc := Serving, mn_net := [Opened (Listener '':8080'')], mn_listener := Some (Listener '':8080''),
     mn_defers := [Cleanup [Closed (Listener '':8080'')], ShutdownPool], mn_accepting := True,
     mn_service := Some answered_service\<rparr>"

lemma serving_run: "\<exists>es. main_run local_flags good_world main_start es serving"
proof -
  let ?R = "main_run local_flags good_world"
  let ?b = "built\<lparr>mn_pc := Serving, mn_net := [Opened (Listener '':8080'')], mn_listener := Some (Listener '':8080''),
     mn_defers := [Cleanup [Closed (Listener '':8080'')], ShutdownPool], mn_accepting := True\<rparr>"
  let ?a = "?b\<lparr>mn_accepted := 1\<rparr>"
  let ?q = "?b\<lparr>mn_service := Some asked_service\<rparr>"
  have "main_step local_flags good_world built Bind ?b"
    using listens [of built good_world local_flags "[Opened (Listener '':8080'')]" "Listener '':8080''" "[Closed (Listener '':8080'')]"]
    by (simp add: built_def listen_def local_flags_def good_world_def)
  with built_run [of good_world] have 1: "?R main_start ((Build # map Work spawn_work) @ [Bind]) ?b"
    by (intro main_run.step) (simp_all add: good_world_def)
  have "main_step local_flags good_world ?b Accept ?a"
    using accept [of ?b] by (simp add: built_def main_start_def)
  from main_run.step [OF 1 this] obtain es where 2: "?R main_start es ?a" by blast
  have "main_step local_flags good_world ?a (Request (HookBegin copying_coders (post session_body) 0)) ?q"
    using request [OF _ _ _ concrete_services(2), of ?a local_flags good_world]
    by (simp add: built_def main_start_def serving_pc_def)
  from main_run.step [OF 2 this] obtain fs where 3: "?R main_start fs ?q" by blast
  have "?R ?q (map Work answer_work) (?q\<lparr>mn_service := Some answered_service\<rparr>)"
    by (rule main_run_work [OF _ _ _ concrete_services(3)]) (simp_all add: running_pc_def answer_work_def)
  from main_run_append [OF this 3] show ?thesis by (auto simp: serving_def)
qed

definition signalled :: main_state where
  "signalled = serving\<lparr>mn_pc := Draining, mn_accepting := False,
     mn_net := [Opened (Listener '':8080''), Closed (Listener '':8080'')],
     mn_defers := [CancelTimer, Cleanup [Closed (Listener '':8080'')], ShutdownPool]\<rparr>"

lemma signalled_run: "\<exists>es. main_run local_flags good_world main_start es signalled"
proof -
  from serving_run obtain es where es: "main_run local_flags good_world main_start es serving" by blast
  have "main_step local_flags good_world serving Signal signalled"
    using signal [of serving "Listener '':8080''"] by (simp add: serving_def signalled_def)
  from main_run.step [OF es this] show ?thesis by blast
qed


theorem graceful_stop_witness: "sv_pending answered_service = []"
proof -
  let ?m = "signalled\<lparr>mn_pc := Unwinding, mn_graceful := True\<rparr>"
  from signalled_run obtain es where es: "main_run local_flags good_world main_start es signalled" by blast
  have "sv_pending answered_service = []" by code_simp
  then have "main_step local_flags good_world signalled Drained ?m"
    by (intro drained) (simp_all add: signalled_def serving_def built_def main_start_def)
  from graceful_stop [OF main_run.step [OF es this], of answered_service] show ?thesis
    by (simp add: signalled_def serving_def)
qed


end
