(* ===== verification/WireValues.thy ===== *)
theory WireValues
  imports Backend ConfigRestart JsonSound
begin

text \<open>
  What travels between the parts, as values rather than bytes. The worker that reads a request line
  finds the messages of the hook's body, its model and the settings (\<open>request_reaches_worker\<close>); the
  caller that reads a modified reply finds its own request body with only the messages replaced
  (\<open>reply_changes_only_messages\<close>). Raw messages move from one text into another at the same nesting
  depth, so no text that the program writes is too deep for its reader.
\<close>

section \<open>Raw messages within a depth\<close>

definition raws_within :: "nat \<Rightarrow> string dict \<Rightarrow> bool" where
  "raws_within d m \<longleftrightarrow> (\<forall>k raw. map_of m k = Some raw \<longrightarrow> valid_utf8 k \<and> (\<exists>v. renders d v raw))"

lemma last_member_of:
  "decode_raw_map j = Some m \<Longrightarrow> map_of m k = Some raw \<Longrightarrow>
   \<exists>ms v. j = JObj ms \<and> (k, raw, v) \<in> set ms \<and> last_member j k = Some (erase v)"
proof (cases j)
  case (JObj ms)
  assume "decode_raw_map j = Some m" "map_of m k = Some raw"
  with JObj raw_map_of [of "[]" ms k] obtain v where v: "map_of (rev ms) k = Some (raw, v)"
    by (auto split: option.splits prod.splits)
  then have "(k, raw, v) \<in> set ms" using map_of_SomeD by fastforce
  with JObj v show ?thesis by (intro exI [of _ ms] exI [of _ v]) simp
qed auto

lemma raw_member:
  assumes "decode_raw_map j = Some m" and "map_of m k = Some raw" and "containers_ok (Suc d) j" and "utf8_json j"
  obtains v where "renders d v raw" "last_member j k = Some (erase v)" "valid_utf8 k"
proof -
  from last_member_of [OF assms(1,2)] obtain ms v where
    j: "j = JObj ms" "(k, raw, v) \<in> set ms" "last_member j k = Some (erase v)" by blast
  have "renders d v raw" "valid_utf8 k"
    using assms(3,4) j(1,2) by (auto simp: list_all_iff)
  with that j(3) show ?thesis by blast
qed

lemma raw_map_within:
  "decode_raw_map j = Some m \<Longrightarrow> containers_ok (Suc d) j \<Longrightarrow> utf8_json j \<Longrightarrow> raws_within d m"
  unfolding raws_within_def using raw_member by metis

lemma raws_within_update:
  "raws_within d m \<Longrightarrow> valid_utf8 k \<Longrightarrow> renders d v raw \<Longrightarrow> raws_within d (AList.update k raw m)"
  by (auto simp: raws_within_def update_conv')

lemma value_at_text:
  assumes "map_of m k = Some raw" and "renders d v raw" and "d \<le> max_depth"
  shows "value_at m k = Some (erase v)"
proof -
  from check_within [OF assms(2), of "[]" "[]"] assms(3) obtain v' where
    "json_check raw = Some v'" "erase v' = erase v" by auto
  with assms(1) show ?thesis by (simp add: value_at_def)
qed

section \<open>Reading an object that was written\<close>

lemma read_object:
  assumes "list_all (\<lambda>(k, x, v). valid_utf8 k \<and> renders d v x) ms" and "Suc d \<le> max_depth" and "blank w"
  obtains j m where "json_check (object_text (map (\<lambda>(k, x, v). (k, x)) ms) @ w) = Some j" "decode_raw_map j = Some m"
    "containers_ok (Suc d) j" "utf8_json j" "\<And>k. last_member j k = last_member (JObj ms) k"
proof -
  from check_within [OF renders_object [OF assms(1)], of "[]" w] assms(2,3) obtain j where
    j: "json_check (object_text (map (\<lambda>(k, x, v). (k, x)) ms) @ w) = Some j" "erase j = erase (JObj ms)" "containers_ok (Suc d) j"
    by auto
  from j(2) obtain m where "decode_raw_map j = Some m" by (cases j) auto
  moreover have "last_member j k = last_member (JObj ms) k" for k
    using j(2) last_member_erase by metis
  ultimately show ?thesis using that j(1,3) check_utf8 by blast
qed

lemma renders_raw_map:
  assumes "raws_within d m" and "d \<le> max_depth"
  obtains ms where "renders (Suc d) (JObj ms) (raw_map_text m)" "\<And>k. last_member (JObj ms) k = value_at m k"
proof -
  define ks where "ks = sort (map fst m)"
  have "\<forall>k. k \<in> set ks \<longrightarrow> (\<exists>v. valid_utf8 k \<and> renders d v (the (map_of m k)))"
    using assms(1) by (metis ks_def set_sort map_of_eq_None_iff list.set_map option.exhaust_sel raws_within_def)
  then obtain f where f: "\<And>k. k \<in> set ks \<Longrightarrow> valid_utf8 k \<and> renders d (f k) (the (map_of m k))" by metis
  define ms where "ms = map (\<lambda>k. (k, compact (the (map_of m k)), f k)) ks"
  have "renders d (f k) (compact (the (map_of m k)))" if "k \<in> set ks" for k
    using renders_compact [of d "f k" _ "[]" "[]"] f [OF that] by simp
  then have "list_all (\<lambda>(k, x, v). valid_utf8 k \<and> renders d v x) ms"
    using f by (simp add: ms_def list_all_iff)
  from renders_object [OF this] have "renders (Suc d) (JObj ms) (raw_map_text m)"
    by (simp add: raw_map_text_def ms_def ks_def o_def)
  moreover have "last_member (JObj ms) k = value_at m k" for k
  proof -
    have "rev ms = map (\<lambda>k. (k, compact (the (map_of m k)), f k)) (rev ks)" by (simp add: ms_def rev_map)
    then have "map_of (rev ms) k = (if k \<in> set ks then Some (compact (the (map_of m k)), f k) else None)"
      by (simp add: map_of_map_restrict restrict_map_def)
    moreover have "value_at m k = Some (erase (f k))" if "k \<in> set ks"
    proof -
      from that obtain raw where "map_of m k = Some raw"
        by (metis ks_def set_sort map_of_eq_None_iff list.set_map option.exhaust_sel)
      with value_at_text [OF this _ assms(2)] f [OF that] show ?thesis by simp
    qed
    moreover have "value_at m k = None" if "k \<notin> set ks"
      using that by (simp add: value_at_def ks_def) (metis list.set_map map_of_eq_None_iff option.simps(4))
    ultimately show ?thesis by simp
  qed
  ultimately show ?thesis using that by blast
qed

section \<open>The hook's body and the worker's answer\<close>

lemma call_data_body:
  assumes "decode_call_data body = Some d"
  shows "(hc_RequestBody d = [] \<or> (\<exists>v. renders (max_depth - 1) v (hc_RequestBody d))) \<and> valid_utf8 (md_Model (hc_Metadata d))"
proof -
  from assms obtain j where j: "json_check body = Some j"
    "d = fst (decode_struct [''metadata'', ''request_body''] call_data_step j zeroCallData)"
    by (auto simp: decode_call_data_def split: option.splits prod.splits if_splits)
  obtain w1 t w2 where "containers_ok max_depth j" by (rule check_text [OF j(1)])
  note j' = this check_utf8 [OF j(1)]
  let ?P = "\<lambda>d :: hookCallData. (hc_RequestBody d = [] \<or> (\<exists>v. renders (max_depth - 1) v (hc_RequestBody d))) \<and> valid_utf8 (md_Model (hc_Metadata d))"
  have "?P (fst (decode_struct [''metadata'', ''request_body''] call_data_step j zeroCallData))"
  proof (rule decode_struct_inv_members [where P = ?P])
    fix ms k f raw v and s :: hookCallData
    assume j0: "j = JObj ms" "(k, raw, v) \<in> set ms" and P: "?P s"
    then have raw: "renders (max_depth - 1) v raw" "utf8_json v" using j' by (auto simp: list_all_iff)
    have "valid_utf8 (md_Model (fst (decode_struct [''provider'', ''model'', ''session_id''] metadata_step v (hc_Metadata s))))"
    proof (rule decode_struct_inv_members [where P = "\<lambda>m :: hookMetadata. valid_utf8 (md_Model m)"])
      fix ms k f raw x and m :: hookMetadata
      assume "v = JObj ms" "(k, raw, x) \<in> set ms" "valid_utf8 (md_Model m)"
      with raw(2) go_decode_string [of "md_Model m" x]
      show "valid_utf8 (md_Model (fst (metadata_step f raw x m)))"
        by (auto simp: metadata_step_def list_all_iff split_beta)
    qed (use P in simp)
    with P raw(1) show "?P (fst (call_data_step f raw v s))" by (auto simp: call_data_step_def split_beta)
  qed (simp add: zeroCallData_def)
  with j(2) show ?thesis by simp
qed

lemma depths: "max_depth = Suc (max_depth - 1)" "max_depth - 1 = Suc (max_depth - 2)" "max_depth - 2 \<le> max_depth"
  "max_depth - 1 \<le> max_depth" "Suc (max_depth - 1) \<le> max_depth"
  by (simp_all add: max_depth_def)

lemma newline_blank: "blank [CHR 0x0A]"
  by (simp add: json_ws_def)

lemma start_within:
  assumes "process_start h cfg body = Inr p"
  shows "raws_within (max_depth - 2) (pr_body p) \<and> valid_utf8 (rq_Model (pr_request p))"
proof -
  from process_start_Inr [OF assms] obtain d j where d: "decode_call_data body = Some d"
    "json_check (hc_RequestBody d) = Some j" "decode_raw_map j = Some (pr_body p)"
    by (auto simp: bind_eq_Some_conv)
  have model: "rq_Model (pr_request p) = (if md_Model (hc_Metadata d) = '''' then body_model (pr_body p) else md_Model (hc_Metadata d))"
    using assms d(1) by (auto simp: process_start_def Let_def split: option.splits if_splits)
  have "json_check [] = None" by code_simp
  with d(2) have "hc_RequestBody d \<noteq> []" by auto
  with call_data_body [OF d(1)] obtain v where v: "renders (max_depth - 1) v (hc_RequestBody d)"
    and m: "valid_utf8 (md_Model (hc_Metadata d))" by blast
  from check_within [OF v, of "[]" "[]"] d(2) depths(4) have "containers_ok (Suc (max_depth - 2)) j"
    by (auto simp: depths(2) [symmetric])
  from raw_map_within [OF d(3) this check_utf8 [OF d(2)]] have w: "raws_within (max_depth - 2) (pr_body p)" .
  have "valid_utf8 (body_model (pr_body p))"
    by (auto simp: body_model_def go_decode_string check_utf8 split: option.split)
  with w m model show ?thesis by simp
qed

lemma result_step_messages:
  "rs_Messages (fst (result_step f raw v r)) = raw \<or> rs_Messages (fst (result_step f raw v r)) = rs_Messages r"
  by (simp add: result_step_def split_beta)

lemma decode_result_messages:
  assumes "containers_ok (Suc d) v" and "\<And>r. cur = Some r \<Longrightarrow> rs_Messages r = [] \<or> (\<exists>x. renders d x (rs_Messages r))"
    and "fst (decode_result_ptr cur v) = Some r"
  shows "rs_Messages r = [] \<or> (\<exists>x. renders d x (rs_Messages r))"
proof -
  let ?P = "\<lambda>r :: compressResult. rs_Messages r = [] \<or> (\<exists>x. renders d x (rs_Messages r))"
  let ?z = "case cur of None \<Rightarrow> zeroResult | Some r \<Rightarrow> r"
  have "?P (fst (decode_struct result_fields result_step v ?z))"
  proof (rule decode_struct_inv_members [where P = ?P])
    fix ms k f raw x and s :: compressResult
    assume "v = JObj ms" "(k, raw, x) \<in> set ms" and P: "?P s"
    with assms(1) have "renders d x raw" by (auto simp: list_all_iff)
    with P show "?P (fst (result_step f raw x s))" using result_step_messages [of f raw x s] by metis
  next
    show "?P ?z" using assms(2) by (cases cur) (simp_all add: zeroResult_def)
  qed
  moreover have "r = fst (decode_struct result_fields result_step v ?z)"
    using assms(3) by (cases "v = JNull") (simp_all add: decode_result_ptr_def split_beta)
  ultimately show ?thesis by simp
qed

lemma worker_messages:
  assumes "from_worker res"
  shows "rs_Messages res = [] \<or> (\<exists>v. renders (max_depth - 2) v (rs_Messages res))"
proof -
  let ?Q = "\<lambda>r :: compressResult. rs_Messages r = [] \<or> (\<exists>v. renders (max_depth - 2) v (rs_Messages r))"
  from assms obtain w got r where d: "do_receive w got = Inr r" "rs_Messages res = rs_Messages r"
    unfolding from_worker_def by blast
  from d(1) obtain line e where r: "decode_envelope line = Some e" "re_Result e = Some r"
    by (auto simp: do_receive_def readLine_def split: read_outcome.splits option.splits if_splits)
  then obtain j where j: "json_check line = Some j" "e = fst (decode_struct envelope_fields envelope_step j zeroEnvelope)"
    by (auto simp: decode_envelope_def split: option.splits prod.splits if_splits)
  obtain w1 t w2 where c: "containers_ok max_depth j" by (rule check_text [OF j(1)])
  let ?P = "\<lambda>e :: responseEnvelope. \<forall>r. re_Result e = Some r \<longrightarrow> ?Q r"
  have "?P (fst (decode_struct envelope_fields envelope_step j zeroEnvelope))"
  proof (rule decode_struct_inv_members [where P = ?P])
    fix ms k f raw v and s :: responseEnvelope
    assume "j = JObj ms" "(k, raw, v) \<in> set ms" and P: "?P s"
    with c have "containers_ok (Suc (max_depth - 2)) v" by (auto simp: list_all_iff depths(2) [symmetric])
    from decode_result_messages [OF this, of "re_Result s"] P
    show "?P (fst (envelope_step f raw v s))" by (auto simp: envelope_step_def split_beta)
  qed (simp add: zeroEnvelope_def)
  with j(2) r d(2) show ?thesis by simp
qed

section \<open>The request line\<close>

lemma raw_at:
  assumes "decode_raw_map j = Some m" and "last_member j k = Some x"
  obtains raw where "map_of m k = Some raw"
proof (cases j)
  case (JObj ms)
  with assms(2) obtain raw v where "map_of (rev ms) k = Some (raw, v)" by auto
  with JObj assms(1) raw_map_of [of "[]" ms k] that show ?thesis by auto
qed (use assms(2) in auto)

lemma request_text_reads:
  assumes "request_text hp req = Some t" and "renders (max_depth - 2) vm (rq_Messages req)"
    and "valid_utf8 (rq_Model req)" and "go_view (view hp (rq_Config req))"
  obtains ms where "renders (max_depth - 1) (JObj ms) t"
    and "last_member (JObj ms) ''messages'' = Some (erase vm)"
    and "last_member (JObj ms) ''model'' = (if rq_Model req = '''' then None else Some (JStr (rq_Model req)))"
    and "\<exists>cfg. last_member (JObj ms) ''config'' = Some cfg \<and> merge_view cfg zero_view = (view hp (rq_Config req), False)"
proof -
  have ne: "rq_Messages req \<noteq> []"
    using renders_starts' [OF assms(2)] by (auto simp: starts_value_def)
  with assms(1) obtain cfgt where cfgt: "settings_text (view hp (rq_Config req)) = Some cfgt"
    and t: "t = object_text ([(''messages'', compact (rq_Messages req))] @
      (if rq_Model req = '''' then [] else [(''model'', quote (rq_Model req))]) @ [(''config'', cfgt)])"
    by (auto simp: request_text_def raw_text_def split: option.splits)
  from settings_text_reads [OF assms(4) cfgt] obtain cm where
    cm: "\<And>d. renders (Suc d) (JObj cm) cfgt" "merge_view (JObj cm) zero_view = (view hp (rq_Config req), False)" by blast
  define ms where "ms = [(''messages'', compact (rq_Messages req), vm)] @
    (if rq_Model req = '''' then [] else [(''model'', quote (rq_Model req), JStr (rq_Model req))]) @
    [(''config'', cfgt, JObj cm)]"
  have depth: "max_depth - 2 = Suc (max_depth - 3)" by (simp add: max_depth_def)
  have "renders (max_depth - 2) vm (compact (rq_Messages req))"
    using renders_compact [OF assms(2), of "[]" "[]"] by simp
  then have "list_all (\<lambda>(k, x, v). valid_utf8 k \<and> renders (max_depth - 2) v x) ms"
    using cm(1) [of "max_depth - 3"] assms(3)
    by (simp add: ms_def valid_utf8_ascii byte_of_def renders_quote flip: depth)
  from renders_object [OF this] have "renders (max_depth - 1) (JObj ms) t"
    by (cases "rq_Model req = []") (simp_all add: t ms_def flip: depths(2))
  moreover have "merge_view (erase (JObj cm)) zero_view = (view hp (rq_Config req), False)"
    using merge_view_erase [of "erase (JObj cm)" "JObj cm"] cm(2) by (simp del: erase.simps)
  moreover have "last_member (JObj ms) ''messages'' = Some (erase vm)"
    "last_member (JObj ms) ''model'' = (if rq_Model req = '''' then None else Some (JStr (rq_Model req)))"
    "last_member (JObj ms) ''config'' = Some (erase (JObj cm))"
    by (cases "rq_Model req = []"; simp add: ms_def)+
  ultimately show ?thesis using that by blast
qed

text \<open>
  C4. What the worker reads: the line of a call parses to an object with the number of the call and a payload
  whose messages are the messages of the hook's body, value for value, whose model is the resolved model,
  and whose config decodes to the settings in force.
\<close>

theorem request_reaches_worker:
  assumes "process_start h cfg body = Inr p" and "go_cells hp cfg"
    and "do_send hp w (pr_request p) = (w', Inr line)"
  shows "\<exists>j payload config. json_check line = Some j \<and>
    last_member j ''id'' = Some (JNum (int_text (wk_nextID w'))) \<and> last_member j ''payload'' = Some payload \<and>
    last_member payload ''messages'' = value_at (pr_body p) ''messages'' \<and>
    last_member payload ''messages'' \<noteq> None \<and>
    last_member payload ''model'' =
      (if rq_Model (pr_request p) = '''' then None else Some (JStr (rq_Model (pr_request p)))) \<and>
    last_member payload ''config'' = Some config \<and> merge_view config zero_view = (view hp cfg, False)"
proof -
  let ?req = "pr_request p" and ?i = "wk_nextID w'"
  note p = start_within [OF assms(1)]
  from process_start_Inr [OF assms(1)] have m: "map_of (pr_body p) ''messages'' = Some (rq_Messages ?req)"
    and c: "rq_Config ?req = cfg" by auto
  from p m obtain vm where vm: "renders (max_depth - 2) vm (rq_Messages ?req)" by (auto simp: raws_within_def)
  from assms(3) obtain t where t: "request_text hp ?req = Some t"
    and line: "line = object_text [(''id'', int_text ?i), (''payload'', t)] @ [CHR 0x0A]"
    by (auto simp: do_send_def envelope_text_def Let_def split: option.splits)
  from request_text_reads [OF t vm] p go_view_cells [OF assms(2)] c obtain ms where ms:
    "renders (max_depth - 1) (JObj ms) t" "last_member (JObj ms) ''messages'' = Some (erase vm)"
    "last_member (JObj ms) ''model'' = (if rq_Model ?req = '''' then None else Some (JStr (rq_Model ?req)))"
    "\<exists>cfg'. last_member (JObj ms) ''config'' = Some cfg' \<and> merge_view cfg' zero_view = (view hp cfg, False)"
    by metis
  let ?es = "[(''id'', int_text ?i, JNum (int_text ?i)), (''payload'', t, JObj ms)]"
  have es: "list_all (\<lambda>(k, x, v). valid_utf8 k \<and> renders (max_depth - 1) v x) ?es"
    using ms(1) by (simp add: valid_utf8_ascii byte_of_def renders_int)
  obtain j where j: "json_check (object_text (map (\<lambda>(k, x, v). (k, x)) ?es) @ [CHR 0x0A]) = Some j"
      "\<And>k. last_member j k = last_member (JObj ?es) k"
    by (rule read_object [OF es depths(5) newline_blank]) blast
  have jl: "json_check line = Some j" using j(1) by (simp add: line)
  have "last_member j ''id'' = Some (JNum (int_text ?i))" "last_member j ''payload'' = Some (erase (JObj ms))"
    by (simp_all add: j(2))
  moreover have "value_at (pr_body p) ''messages'' = Some (erase vm)"
    by (rule value_at_text [OF m vm depths(3)])
  ultimately show ?thesis
    using jl ms(2-4) last_member_erase [of "JObj ms"] by (metis option.distinct(1))
qed

section \<open>The reply\<close>

text \<open>The request body that a reader of the reply finds, as a map of raw messages.\<close>

definition reply_body :: "bytes \<Rightarrow> string dict option" where
  "reply_body text =
     (case Option.bind (json_check text) decode_raw_map of
        None \<Rightarrow> None
      | Some m \<Rightarrow> (case map_of m ''request_body'' of
                     None \<Rightarrow> None
                   | Some raw \<Rightarrow> Option.bind (json_check raw) decode_raw_map))"

lemma reply_body_reads:
  assumes "raws_within (max_depth - 2) m" and "valid_utf8 a"
  obtains new where "reply_body (response_text \<lparr>gr_Action = a, gr_RequestBody = Some m\<rparr>) = Some new"
    "\<And>k. value_at new k = value_at m k"
proof -
  from renders_raw_map [OF assms(1) depths(3)] obtain ms where
    ms: "renders (max_depth - 1) (JObj ms) (raw_map_text m)" "\<And>k. last_member (JObj ms) k = value_at m k"
    by (metis depths(2))
  let ?es = "[(''action'', quote a, JStr a), (''request_body'', raw_map_text m, JObj ms)]"
  have es: "list_all (\<lambda>(k, x, v). valid_utf8 k \<and> renders (max_depth - 1) v x) ?es"
    using ms(1) assms(2) by (simp add: valid_utf8_ascii byte_of_def renders_quote)
  obtain j outer where j: "json_check (object_text (map (\<lambda>(k, x, v). (k, x)) ?es) @ [CHR 0x0A]) = Some j"
      "decode_raw_map j = Some outer" "containers_ok (Suc (max_depth - 1)) j" "utf8_json j"
      "\<And>k. last_member j k = last_member (JObj ?es) k"
    by (rule read_object [OF es depths(5) newline_blank]) blast
  have jl: "json_check (response_text \<lparr>gr_Action = a, gr_RequestBody = Some m\<rparr>) = Some j"
    using j(1) by (simp add: response_text_def)
  have rb: "last_member j ''request_body'' = Some (erase (JObj ms))" by (simp add: j(5))
  obtain raw where raw: "map_of outer ''request_body'' = Some raw" by (rule raw_at [OF j(2) rb])
  obtain v where v: "renders (max_depth - 1) v raw" "erase v = erase (JObj ms)"
    by (rule raw_member [OF j(2) raw j(3,4)]) (simp add: rb)
  from check_within [OF v(1), of "[]" "[]"] v(2) depths(4) obtain j2 where
    j2: "json_check raw = Some j2" "erase j2 = erase (JObj ms)" "containers_ok (Suc (max_depth - 2)) j2"
    by (auto simp flip: depths(2))
  from j2(2) obtain new where new: "decode_raw_map j2 = Some new" by (cases j2) auto
  have "value_at new k = value_at m k" for k
    using value_at_decoded [OF new j2(3) depths(3), of k] last_member_erase j2(2) ms(2) by metis
  moreover have "reply_body (response_text \<lparr>gr_Action = a, gr_RequestBody = Some m\<rparr>) = Some new"
    by (simp add: reply_body_def jl j(2) raw j2(1) new)
  ultimately show ?thesis using that by blast
qed

context hook_compressor begin

lemma finish_reply:
  assumes "process_start h cfg body = Inr p" and "returns (pr_request p) out"
    and "gr_Action (fst (process_finish h p out)) = ''modify''"
  obtains res new where "out = Inr res" "reply_body (response_text (fst (process_finish h p out))) = Some new"
    "value_at new ''messages'' = map_option erase (json_check (rs_Messages res))" "value_at new ''messages'' \<noteq> None"
    "\<And>k. k \<noteq> ''messages'' \<Longrightarrow> value_at new k = value_at (pr_body p) k"
proof -
  obtain res where res: "out = Inr res" "rs_Messages res \<noteq> []"
    and resp: "fst (process_finish h p out) =
      \<lparr>gr_Action = ''modify'', gr_RequestBody = Some (AList.update ''messages'' (rs_Messages res) (pr_body p))\<rparr>"
    by (rule process_finish_cases [of out h p]) (use assms(3) in \<open>auto simp: allow_def\<close>)
  from worker_messages [OF worker_answered] assms(2) res obtain v where
    v: "renders (max_depth - 2) v (rs_Messages res)" by blast
  let ?m = "AList.update ''messages'' (rs_Messages res) (pr_body p)"
  have "raws_within (max_depth - 2) ?m"
    using start_within [OF assms(1)] v by (intro raws_within_update) (auto simp: valid_utf8_ascii byte_of_def)
  from reply_body_reads [OF this, of "''modify''"] obtain new where
    new: "reply_body (response_text (fst (process_finish h p out))) = Some new" "\<And>k. value_at new k = value_at ?m k"
    by (auto simp: resp valid_utf8_ascii byte_of_def)
  have "value_at ?m ''messages'' = Some (erase v)"
    by (rule value_at_text [OF _ v depths(3)]) (simp add: update_conv')
  moreover have "value_at ?m ''messages'' = map_option erase (json_check (rs_Messages res))"
    "\<And>k. k \<noteq> ''messages'' \<Longrightarrow> value_at ?m k = value_at (pr_body p) k"
    by (simp_all add: value_at_def update_conv')
  ultimately show ?thesis using that [OF res(1) new(1)] new(2) by auto
qed

end

text \<open>
  C3. A modified reply changes the messages and nothing else: whatever the pool and its workers do, the
  request body that the caller finds in the reply has under every member but messages the value of its
  own request body, and under messages the value that a worker answered. Sorting the members, compacting
  and escaping the raw messages are invisible to the reader, and no reply is too deep for it.
\<close>

theorem reply_changes_only_messages:
  assumes "process_start h cfg body = Inr p" and "pool_returns sz aff (pr_request p) out"
    and "gr_Action (fst (process_finish h p out)) = ''modify''"
  shows "\<exists>res new. out = Inr res \<and> reply_body (response_text (fst (process_finish h p out))) = Some new \<and>
    value_at new ''messages'' = map_option erase (json_check (rs_Messages res)) \<and>
    value_at new ''messages'' \<noteq> None \<and>
    (\<forall>k. k \<noteq> ''messages'' \<longrightarrow> value_at new k = value_at (pr_body p) k)"
  by (rule pool_hook.finish_reply [OF assms]) blast

theorem reply_changes_only_messages_witness:
  "\<exists>new. reply_body (response_text (fst (process_finish plain_handler session_prepared session_out))) = Some new \<and>
     value_at new ''messages'' = Some (JArr []) \<and> value_at new ''model'' = Some (JStr ''m2'')"
proof -
  have "gr_Action (fst (process_finish plain_handler session_prepared session_out)) = ''modify''" by code_simp
  from reply_changes_only_messages [OF session_start session_returns this] obtain new where
    "reply_body (response_text (fst (process_finish plain_handler session_prepared session_out))) = Some new"
    "value_at new ''messages'' = map_option erase (json_check ''[]'')"
    "value_at new ''model'' = value_at (pr_body session_prepared) ''model''"
    by (auto simp: session_out_def)
  moreover have "map_option erase (json_check ''[]'') = Some (JArr [])" by code_simp
  moreover have "value_at (pr_body session_prepared) ''model'' = Some (JStr ''m2'')" by code_simp
  ultimately show ?thesis by metis
qed

definition session_send :: "worker \<times> (worker_error + bytes)" where
  "session_send = do_send empty_heap sample_worker (pr_request session_prepared)"

theorem request_reaches_worker_witness:
  "\<exists>line j payload. snd session_send = Inr line \<and> json_check line = Some j \<and>
     last_member j ''payload'' = Some payload \<and> last_member payload ''messages'' = Some (JArr [])"
proof -
  have "is_ok (snd session_send)" by code_simp
  then obtain w line where send: "do_send empty_heap sample_worker (pr_request session_prepared) = (w, Inr line)"
    by (cases session_send) (auto simp: is_ok_iff session_send_def)
  moreover have "value_at (pr_body session_prepared) ''messages'' = Some (JArr [])" by code_simp
  ultimately show ?thesis
    using request_reaches_worker [OF session_start go_empty(1) send] by (auto simp: session_send_def)
qed

end
