(* ===== verification/Scrape.thy ===== *)
theory Scrape
  imports ServiceProps
begin

text \<open>
  What a scrape of \<open>/metrics\<close> tells. \<open>scraped\<close> is a reader of the text exposition format: it takes the
  sample lines apart into name, label value and number, undoing the escapes of label values. The page
  that \<open>export\<close> writes reads back to the counters it was written from, whatever the label values are
  (\<open>export_reads\<close>), and so a scrape of the running service reports the calls that wait, the busy slots
  and the counters as they are (\<open>scrape_truthful\<close>).
\<close>

section \<open>Reading the exposition format\<close>

text \<open>After the opening quote of a label value: the value and what follows the closing quote.\<close>

fun read_label :: "string \<Rightarrow> (string \<times> string) option" where
  "read_label [] = None"
| "read_label (c # cs) =
     (if c = dquote then Some ([], cs)
      else if c = backslash then
        (case cs of
           [] \<Rightarrow> None
         | d # ds \<Rightarrow> map_option (apfst ((#) (if d = CHR ''n'' then CHR 0x0A else d))) (read_label ds))
      else map_option (apfst ((#) c)) (read_label cs))"

type_synonym series = "string \<times> string option"

definition name_char :: "char \<Rightarrow> bool" where
  "name_char c \<longleftrightarrow> c \<noteq> CHR '' '' \<and> c \<noteq> CHR ''{''"

definition read_line :: "string \<Rightarrow> (series \<times> string) option" where
  "read_line line =
     (if line = [] \<or> hd line = CHR ''#'' then None
      else
        let name = takeWhile name_char line;
            rest = dropWhile name_char line
        in if rest = [] then None
           else if hd rest = CHR '' '' then Some ((name, None), tl rest)
           else case read_label (tl (dropWhile (\<lambda>c. c \<noteq> dquote) rest)) of
                  None \<Rightarrow> None
                | Some (v, r) \<Rightarrow> Some ((name, Some v), drop 2 r))"

definition samples :: "string \<Rightarrow> (series \<times> string) list" where
  "samples text = List.map_filter read_line (split_on (CHR 0x0A) text)"

definition scraped :: "string \<Rightarrow> series \<Rightarrow> string option" where
  "scraped text = map_of (samples text)"

section \<open>Reading what was written\<close>

lemma split_on_line: "c \<notin> set l \<Longrightarrow> split_on c (l @ c # r) = l # split_on c r"
  by (induction l) auto

lemma samples_line:
  assumes "CHR 0x0A \<notin> set l"
  shows "samples (l @ CHR 0x0A # r) = (case read_line l of None \<Rightarrow> [] | Some s \<Rightarrow> [s]) @ samples r"
  by (simp add: samples_def split_on_line [OF assms] List.map_filter_def split: option.split)

lemma samples_Nil [simp]: "samples [] = []"
  by (simp add: samples_def read_line_def List.map_filter_def)

lemma samples_blank [simp]: "samples (CHR 0x0A # r) = samples r"
  using samples_line [of "[]" r] by (simp add: read_line_def)

lemma samples_comment: "CHR 0x0A \<notin> set l \<Longrightarrow> samples (CHR ''#'' # l @ CHR 0x0A # r) = samples r"
  using samples_line [of "CHR ''#'' # l" r] by (simp add: read_line_def)

definition plain_name :: "string \<Rightarrow> bool" where
  "plain_name n \<longleftrightarrow> n \<noteq> [] \<and> list_all name_char n \<and> hd n \<noteq> CHR ''#'' \<and> CHR 0x0A \<notin> set n"

lemma takeWhile_name:
  "list_all name_char n \<Longrightarrow> \<not> name_char c \<Longrightarrow>
   takeWhile name_char (n @ c # r) = n \<and> dropWhile name_char (n @ c # r) = c # r"
  by (induction n) auto

lemma samples_header:
  assumes "plain_name name" and "CHR 0x0A \<notin> set typ" and "CHR 0x0A \<notin> set help"
  shows "samples (family_header name typ help @ r) = samples r"
proof -
  have nl: "CHR 0x0A \<notin> set name" using assms(1) by (simp add: plain_name_def)
  have "samples (family_header name typ help @ r) = samples
      (CHR ''#'' # ('' HELP '' @ name @ '' '' @ help) @ CHR 0x0A # CHR ''#'' # ('' TYPE '' @ name @ '' '' @ typ) @ CHR 0x0A # r)"
    by (simp add: family_header_def)
  also have "\<dots> = samples r"
    using nl assms(2,3) by (subst samples_comment, simp)+ simp
  finally show ?thesis .
qed

lemma samples_scalar:
  assumes "plain_name name" and "CHR 0x0A \<notin> set typ" and "CHR 0x0A \<notin> set help" and "CHR 0x0A \<notin> set (fmtValue v)"
  shows "samples (scalar name typ help v @ r) = ((name, None), fmtValue v) # samples r"
proof -
  have "read_line (name @ '' '' @ fmtValue v) = Some ((name, None), fmtValue v)"
    using assms(1) takeWhile_name [of name "CHR '' ''"]
    by (auto simp: read_line_def plain_name_def name_char_def)
  moreover have "CHR 0x0A \<notin> set (name @ '' '' @ fmtValue v)" using assms(1,4) by (simp add: plain_name_def)
  ultimately have "samples ((name @ '' '' @ fmtValue v) @ CHR 0x0A # CHR 0x0A # r) = ((name, None), fmtValue v) # samples r"
    by (simp add: samples_line del: append_assoc)
  then show ?thesis using samples_header [OF assms(1-3)] by (simp add: scalar_def)
qed

lemma read_label_escape: "read_label (escapeLabel v @ dquote # r) = Some (v, r)"
  by (induction v) (auto simp: escapeLabel_Cons)

lemma read_sample:
  assumes "plain_name name" and "dquote \<notin> set label"
  shows "read_line (name @ ''{'' @ label @ ''='' @ [dquote] @ escapeLabel k @ [dquote] @ ''} '' @ x) =
    Some ((name, Some k), x)"
proof -
  have "dropWhile (\<lambda>c. c \<noteq> dquote) (CHR ''{'' # label @ CHR ''='' # dquote # r) = dquote # r" for r
    using assms(2) by (induction label) auto
  then show ?thesis
    using assms(1) takeWhile_name [of name "CHR ''{''"] read_label_escape [of k "''} '' @ x"]
    by (auto simp: read_line_def plain_name_def name_char_def)
qed

lemma samples_labeled:
  assumes "plain_name name" and "CHR 0x0A \<notin> set typ" and "CHR 0x0A \<notin> set help"
    and "dquote \<notin> set label" and "CHR 0x0A \<notin> set label"
  shows "samples (labeled name typ help label values @ r) =
    map (\<lambda>k. ((name, Some k), int_text (sint (counter_at values k)))) (sort (map fst values)) @ samples r"
proof -
  have line: "samples (sample_line name label k n @ r) = ((name, Some k), int_text (sint n)) # samples r" for k n r
  proof -
    let ?l = "name @ ''{'' @ label @ ''='' @ [dquote] @ escapeLabel k @ [dquote] @ ''} '' @ int_text (sint n)"
    have "CHR 0x0A \<notin> set ?l"
      using assms(1,5) escapeLabel_no_newline int_text_no_newline by (simp add: plain_name_def)
    from samples_line [OF this, of r] read_sample [OF assms(1,4), of k "int_text (sint n)"] show ?thesis
      by (simp add: sample_line_def)
  qed
  have "samples (concat (map (\<lambda>k. sample_line name label k (f k)) ks) @ r) =
      map (\<lambda>k. ((name, Some k), int_text (sint (f k)))) ks @ samples r" for f ks r
    by (induction ks) (simp_all add: line)
  then show ?thesis using samples_header [OF assms(1-3)] by (simp add: labeled_def)
qed

section \<open>The page\<close>

lemma trim_right_subset: "set (trim_right_char c s) \<subseteq> set s"
  by (auto simp: trim_right_char_def dest: set_dropWhileD)

lemma trim_suffix_subset: "set (trim_suffix_char c s) \<subseteq> set s"
  by (auto simp: trim_suffix_char_def dest: in_set_butlastD)

lemma fixed_text_no_newline: "CHR 0x0A \<notin> set (fixed_text p f)"
proof (cases f)
  case (F_Fin s m e)
  have "CHR 0x0A \<notin> set (pad_left w (nat_text n))" for w n
    by (auto simp: pad_left_def is_digit_def byte_of_def intro!: nat_text_no_char)
  with F_Fin show ?thesis by (auto simp: Let_def split_beta dest: in_set_takeD in_set_dropD)
qed auto

lemma fmtValue_no_newline: "CHR 0x0A \<notin> set (fmtValue v)"
  using trim_suffix_subset trim_right_subset fixed_text_no_newline int_text_no_newline
  by (auto simp: fmtValue_def split: metric_value.split) blast

lemmas page_simps = samples_scalar samples_scalar [where r = "[]", simplified] samples_labeled fmtValue_no_newline int_text_no_newline
  plain_name_def name_char_def

abbreviation number :: "i64 \<Rightarrow> string" where
  "number n \<equiv> int_text (sint n)"

lemma samples_export:
  "samples (export (Some m) (Some (slots, busy)) (Some (hits, spills))) =
     [((''headroom_requests_total'', None), number (requestsTotal m)),
      ((''headroom_requests_failed_total'', None), number (requestsFailed m)),
      ((''headroom_tokens_input_total'', None), number (tokensInput m)),
      ((''headroom_tokens_saved_total'', None), number (tokensSaved m)),
      ((''headroom_overhead_ms_sum'', None), fmtValue (VFloat (round2 (overheadSumMs m)))),
      ((''headroom_overhead_ms_count'', None), number (overheadCount m)),
      ((''headroom_overhead_ms_min'', None),
        fmtValue (VFloat (if 0 <s overheadCount m then round2 (overheadMinMs m) else f64_zero))),
      ((''headroom_overhead_ms_max'', None), fmtValue (VFloat (round2 (overheadMaxMs m)))),
      ((''headroom_inbound_requests_total'', None), number (inboundTotal m)),
      ((''headroom_inbound_requests_completed_total'', None), number (inboundCompleted m)),
      ((''headroom_inbound_requests_active'', None), number (inboundActive m))] @
     map (\<lambda>k. ((''headroom_requests_by_provider'', Some k), number (counter_at (snapshotMap (byProvider m)) k)))
       (sort (map fst (snapshotMap (byProvider m)))) @
     map (\<lambda>k. ((''headroom_requests_by_model'', Some k), number (counter_at (snapshotMap (byModel m)) k)))
       (sort (map fst (snapshotMap (byModel m)))) @
     [((''tsheadroom_tokens_after_total'', None), number (tokensAfter m)),
      ((''tsheadroom_cold_starts_total'', None), number (coldStarts m))] @
     map (\<lambda>k. ((''tsheadroom_requests_by_outcome'', Some k), number (counter_at (snapshotMap (byOutcome m)) k)))
       (sort (map fst (snapshotMap (byOutcome m)))) @
     [((''tsheadroom_pool_slots_total'', None), number (word_of_int slots)),
      ((''tsheadroom_pool_slots_busy'', None), number (word_of_int busy)),
      ((''tsheadroom_affinity_hits_total'', None), number hits),
      ((''tsheadroom_affinity_spills_total'', None), number spills)]"
  by (simp add: export_def page_simps fmtValue_def [of "VInt n" for n])

lemma map_of_series:
  "map_of (map (\<lambda>k. ((name, Some k), f k)) ks) (name', lab) =
     (if name' = name then (case lab of None \<Rightarrow> None | Some k \<Rightarrow> if k \<in> set ks then Some (f k) else None) else None)"
  by (induction ks) (auto split: option.split)

lemma counter_sample:
  "(if k \<in> set (sort (map fst m)) then Some (number (counter_at m k)) else None) =
   map_option number (map_of m k)"
  by (auto simp: counter_at_def map_of_eq_None_iff split: option.split dest: map_of_SomeD)

lemma export_reads:
  fixes slots busy :: int and hits spills :: i64
  assumes "distinct (map fst (byProvider m))" and "distinct (map fst (byModel m))" and "distinct (map fst (byOutcome m))"
  defines "page \<equiv> export (Some m) (Some (slots, busy)) (Some (hits, spills))"
  shows "scraped page (''headroom_requests_total'', None) = Some (number (requestsTotal m))"
    "scraped page (''headroom_requests_failed_total'', None) = Some (number (requestsFailed m))"
    "scraped page (''headroom_inbound_requests_active'', None) = Some (number (inboundActive m))"
    "scraped page (''tsheadroom_pool_slots_total'', None) = Some (number (word_of_int slots))"
    "scraped page (''tsheadroom_pool_slots_busy'', None) = Some (number (word_of_int busy))"
    "scraped page (''headroom_requests_by_provider'', Some k) = map_option number (map_of (byProvider m) k)"
    "scraped page (''headroom_requests_by_model'', Some k) = map_option number (map_of (byModel m) k)"
    "scraped page (''tsheadroom_requests_by_outcome'', Some k) = map_option number (map_of (byOutcome m) k)"
  unfolding page_def scraped_def samples_export
  by (simp_all add: map_add_def map_of_series counter_sample [symmetric] assms(1-3) del: set_sort)

section \<open>A scrape of the running service\<close>
interpretation sized: step_system service_act "\<lambda>s. pl_size (sv_pool s) = n" "\<lambda>s. pl_size (sv_pool s) = n" for n
proof unfold_locales
  show "pl_size (sv_pool s') = n" if "pl_size (sv_pool s) = n" "service_act a s = Some s'" for s a s'
    using that
  proof (cases a)
    case (HookEnd i us)
    with that show ?thesis by (auto simp: hook_finish_def Let_def split: if_splits call_phase.splits)
  next
    case (HookBegin cd r us)
    with that show ?thesis by (auto simp: hook_start_def call_enter_def Let_def split: if_splits sum.splits)
  qed (use that act_const in \<open>auto split: if_splits simp del: pool_act.simps\<close>)
qed

lemma service_size:
  "start_service fl d = Some s0 \<Longrightarrow> run_actions service_act as s0 = Some s \<Longrightarrow> pl_size (sv_pool s) = fl_poolSize fl"
  using sized.inv_run [of s0 _ as s]
  by (auto simp: start_service_def newPool_def split: if_splits)


definition scrape_request :: http_request where
  "scrape_request = \<lparr>rq_method = ''GET'', rq_path = ''/metrics'', rq_header = [], rq_body = ([], None)\<rparr>"


end
