(* ===== verification/Spec2Isabelle.thy ===== *)
theory Spec2Isabelle
  imports Prelude GoText GoFloat GoHash GoJson GoMarshal JsonStrings JsonFloat JsonRender JsonCompact JsonSound
    GoHttp HeadroomVersion Encoding Config ConfigStore ConfigRestart
    Metrics Worker Pool PoolJobs PoolInv PoolProps PoolShutdown Handler HandlerProps Backend Service ServiceProps
    Startup WireValues Scrape
begin

text \<open>
  A verification development for tsheadroom, the Go service that compresses the messages of chat
  requests for tailscale's aperture: an HTTP hook that hands the messages of a request to a pool of
  Python workers and answers \<open>allow\<close> or \<open>modify\<close>, with a runtime configuration API and a metrics
  endpoint beside it.

  \<^bold>\<open>How the program is put together.\<close> \<open>main.go\<close> builds one settings store, one worker pool and one
  metrics object and shares them between three HTTP endpoints. The hook (\<open>handler.go\<close>) reads and decodes
  a body (\<open>encoding.go\<close>), checks that it is a chat request, asks the pool (\<open>pool.go\<close>) and writes the
  reply; \<open>/config\<close> (\<open>config.go\<close>) reads and updates the settings, \<open>/metrics\<close> (\<open>metrics.go\<close>) renders the
  counters. The pool has one goroutine per slot, each owning one worker process; callers meet the slots
  through a buffered channel per slot (session affinity) and one unbuffered shared channel.

  \<^bold>\<open>The theories, from the bottom.\<close>

  \<^item> \<open>Prelude\<close>: types shared by all parts, lemmas on lists and association lists, and the locales
    \<open>step_system\<close> (an inductive invariant of a partial action function), \<open>monotone_system\<close> and
    \<open>text_codec\<close>. Every invariant below is an interpretation of \<open>step_system\<close> on the model of a component.
  \<^item> \<open>GoText\<close>, \<open>GoFloat\<close>, \<open>GoHash\<close>, \<open>GoJson\<close>, \<open>GoMarshal\<close>, \<open>GoHttp\<close>: what the program uses of Go's
    standard library. Strings are byte lists. \<open>GoText\<close> has UTF-8, \<open>strings\<close> and \<open>strconv\<close>; \<open>GoFloat\<close> the
    binary64 arithmetic, parsing and printing; \<open>GoHash\<close> the FNV hashes with the locale \<open>stream_hash\<close>;
    \<open>GoJson\<close> the accepted texts and their values; \<open>GoMarshal\<close> the typed decoders (case-folded member
    names, null, mismatches that do not stop decoding) and the encoders (sorted keys, HTML escapes, raw
    messages); \<open>GoHttp\<close> requests, responses and limited readers. The JSON parser runs on fuel,
    two units per byte; lemma \<open>json_fuel_enough\<close> shows that more fuel never changes a result. Its
    accepting runs are also an inductive relation (\<open>value_run\<close>), on which the facts about accepted texts
    are proved by rule induction.
  \<^item> \<open>JsonStrings\<close>, \<open>JsonFloat\<close>, \<open>JsonRender\<close>, \<open>JsonCompact\<close>, \<open>JsonSound\<close>: the encoders and the parser
    against each other. A quoted string reads back; the shortest decimal that \<open>Marshal\<close> writes for a
    \<open>float64\<close> reads back to it; \<open>renders d v s\<close> is the grammar as a relation, the parser accepts exactly
    its texts (\<open>json_check_iff\<close>), and indenting and compacting keep the value of a text.
  \<^item> \<open>HeadroomVersion\<close>: \<open>supportsSavingsProfile\<close> of \<open>pool.go\<close>, against versions as an instance of
    \<open>linorder\<close>.
  \<^item> \<open>Encoding\<close>: all of \<open>encoding.go\<close>. The decompressors and the table of \<open>unicode.ToLower\<close> are the
    fields of the record \<open>coders\<close>; the cap of the zstd decoder is the named hypothesis \<open>zstd_capped\<close>. The
    locale \<open>bounded_decoder\<close> is the contract of one entry of the table.
  \<^item> \<open>Config\<close> and \<open>ConfigStore\<close>: all of \<open>config.go\<close>. The nullable settings are pointers, and copies of the
    settings share them, so there is a heap of cells; \<open>view\<close> reads the values. \<open>Config\<close> has the
    definitions and shows that decoding onto settings refines the partial update of values, \<open>ConfigStore\<close>
    what accepted and rejected updates do to the store and the file, \<open>ConfigRestart\<close> that the settings
    are values of their Go types along every run and that the saved file reads back to them.
  \<^item> \<open>Metrics\<close>: all of \<open>metrics.go\<close>. The mutex makes each operation one step; 64-bit counters are words.
  \<^item> \<open>Worker\<close>: the wire types, one call, the handshake and the life of a process (\<open>pool.go\<close>). What the
    operating system and the worker answer are arguments.
  \<^item> \<open>Pool\<close>: \<open>Compress\<close>, \<open>dispatch\<close>, \<open>runSlot\<close>, \<open>spawn\<close> and \<open>Shutdown\<close> as a transition system. One action
    is one visible step of one goroutine (a channel operation, the start of a process, a write, a read, a
    timer), so that every interleaving of the program is a list of actions; a job is the index of the
    call that submitted it. \<open>PoolJobs\<close> shows that jobs are conserved, \<open>PoolInv\<close> the rest of the
    invariant, \<open>PoolProps\<close> what follows for callers and operators, \<open>PoolShutdown\<close> that after the
    cancellation every run is short (a measure bounds it) and ends only when everything is over.
  \<^item> \<open>Handler\<close> and \<open>HandlerProps\<close>: all of \<open>handler.go\<close>. \<open>process\<close> is split where it waits for the
    compressor; the compressor is an argument, the gzip writer and the clock are too.
  \<^item> \<open>Backend\<close>: the interface between hook and pool, the locale \<open>hook_compressor\<close>, interpreted on the
    outcomes that a call of the pool can have (\<open>pool_returns\<close>). \<open>WireValues\<close> reads the two texts that
    cross the process boundary, the request line to a worker and the reply to the caller, as values.
  \<^item> \<open>Service\<close> and \<open>ServiceProps\<close>: the wiring of \<open>main.go\<close>. A state holds the settings, the metrics, the
    pool and the hook calls that wait; actions are requests to the endpoints and steps of the pool.
    The process attributes of a worker (\<open>procattr_linux.go\<close>, \<open>procattr_other.go\<close>) are here too.
  \<^item> \<open>Scrape\<close>: a reader of the text exposition format, and what it finds on the page of \<open>/metrics\<close>.
  \<^item> \<open>Startup\<close>: the life of \<open>main\<close>. \<open>listen\<close> opens the plain or the tailnet listener, with its error paths
    and its cleanup; the inductive relation \<open>main_step\<close> has the start-up errors, serving, the signal, the
    drain of the HTTP server with its deadline, the deferred calls and the exit status.

  \<^bold>\<open>What is shown.\<close> The hook never blocks a request, and modifies exactly when tokens were saved; a caller
  that parses the reply finds its own request body with only the messages replaced, by what a worker
  answered, and the worker that parses the request line finds the caller's messages and the settings.
  The pool loses, duplicates or misdelivers no job, has no deadlock, waits for every process once, and its
  gauges are exact; its shutdown terminates, and a signal leads to exit status 0 with nothing left open.
  An accepted configuration update is the partial update of values, is on disk, and survives a restart.
  The metrics reconcile along every interleaving of the whole service, and a scrape of \<open>/metrics\<close> reads
  back to the waiting calls, the busy slots and the counters. A request to a worker is one line and only
  the answer with its number is taken. Where the code falls short, a theorem
  states what happens: pointers shared by settings (a refused update changes the current settings, even
  of a waiting request), the version gate and case folding, the race between \<open>dispatch\<close> and \<open>Shutdown\<close>,
  null messages in a request or in a result, the routing key of a first turn, and the worker that is left
  behind when the listener cannot be opened.

  \<^bold>\<open>Reading the theorems.\<close> Runs are lists of actions from an initial state (\<open>run_actions\<close>); a theorem about
  a reachable state has the run as its hypothesis and holds for all of them. Progress means that a step is
  enabled; that an enabled step is eventually taken is left to the Go scheduler and the operating system.

  \<^bold>\<open>Bounds and fuel.\<close> Fuel occurs in the JSON parser only, where it is shown to be enough. The nesting
  limit of 10000 is kept exactly: raw messages move from one text to another at equal depth, so no text
  the program writes is refused for its depth. Integers of metrics are 64-bit words; the counters of the
  pool and the numbers of calls are \<open>int\<close>, which the program could only wrap after \<open>2 ^ 63\<close> calls.

  \<^bold>\<open>Not modelled.\<close> Logging, the slow-call notice and the discarded tsnet log; the copying of a worker's
  stderr to the log; parsing of the command line (the flags and their defaults are); the clock, which is
  an input; path cleaning by \<open>ServeMux\<close>; what the kernel does with process attributes. The answers of
  \<open>net.Listen\<close>, tsnet, the file system and the operating system are arguments. \<open>worker.py\<close> is another
  program: the theorems hold for every behaviour of it.\<close>

end
